(* ===== verification/Prelude.thy ===== *)
theory Prelude
  imports "HOL-Library.Word"
begin

text \<open>
  Shared vocabulary of the development: the machine types of the C code, byte memory as
  lists (\<open>memcpy\<close> into a buffer, cutting a byte string into blocks), little and big endian
  readings of memory, and the collections of facts the components' proofs use.
\<close>

unbundle bit_operations_syntax

section \<open>Machine types\<close>

type_synonym u8 = "8 word"
type_synonym u16 = "16 word"
type_synonym u32 = "32 word"
type_synonym u64 = "64 word"
type_synonym bytes = "8 word list"

named_theorems mem_simps \<open>reading and writing byte memory\<close>
named_theorems len_simps \<open>lengths that operations preserve\<close>

section \<open>Byte memory\<close>

text \<open>
  \<open>write_at p src dst\<close> is \<open>memcpy(dst + p, src, length src)\<close> on a buffer that is long
  enough: the bytes outside the window keep their values.
\<close>

definition write_at :: "nat \<Rightarrow> 'a list \<Rightarrow> 'a list \<Rightarrow> 'a list" where
  "write_at p src dst = take p dst @ src @ drop (p + length src) dst"

lemma length_write_at [len_simps]:
  "p + length src \<le> length dst \<Longrightarrow> length (write_at p src dst) = length dst"
  by (simp add: write_at_def)

lemma write_at_Nil [simp, mem_simps]: "write_at p [] dst = dst"
  by (simp add: write_at_def)

lemma write_at_append [mem_simps]:
  assumes "p + length xs + length ys \<le> length dst"
  shows "write_at (p + length xs) ys (write_at p xs dst) = write_at p (xs @ ys) dst"
proof -
  have "take (p + length xs) (take p dst @ xs @ drop (p + length xs) dst) = take p dst @ xs"
    using assms by simp
  moreover have "drop (p + length xs + length ys) (take p dst @ xs @ drop (p + length xs) dst)
      = drop (p + length xs + length ys) dst"
    using assms by (simp add: ac_simps)
  ultimately show ?thesis
    by (simp add: write_at_def add.assoc)
qed

lemma nth_write_at:
  assumes "p + length src \<le> length dst" and "i < length dst"
  shows "write_at p src dst ! i = (if p \<le> i \<and> i < p + length src then src ! (i - p) else dst ! i)"
  using assms by (auto simp: write_at_def nth_append)

lemma take_write_at [mem_simps]:
  "p \<le> length dst \<Longrightarrow> take (p + length src) (write_at p src dst) = take p dst @ src"
  by (simp add: write_at_def)

lemma take_write_at_le [mem_simps]:
  "n \<le> p \<Longrightarrow> p \<le> length dst \<Longrightarrow> take n (write_at p src dst) = take n dst"
  by (simp add: write_at_def min_def)

lemma write_at_full [mem_simps]:
  "length src = length dst \<Longrightarrow> write_at 0 src dst = src"
  by (simp add: write_at_def)

lemma write_at_same: "write_at 0 (take n dst) dst = dst"
  by (cases "n \<le> length dst") (simp_all add: write_at_def)

lemma list_update_numeral [simp]:
  "(x # xs)[numeral k := y] = x # xs[pred_numeral k := y]"
  by (simp add: numeral_eq_Suc)

section \<open>Blocks\<close>

text \<open>
  The complete blocks of \<open>B\<close> elements at the front of a list, and what is left after them.
\<close>

function full_blocks :: "nat \<Rightarrow> 'a list \<Rightarrow> 'a list list" where
  "full_blocks B xs =
     (if 0 < B \<and> B \<le> length xs then take B xs # full_blocks B (drop B xs) else [])"
  by pat_completeness auto
termination
  by (relation "measure (\<lambda>(B, xs). length xs)") auto

declare full_blocks.simps [simp del]

definition rest_bytes :: "nat \<Rightarrow> 'a list \<Rightarrow> 'a list" where
  "rest_bytes B xs = drop (B * (length xs div B)) xs"

lemma full_blocks_short [simp]: "length xs < B \<Longrightarrow> full_blocks B xs = []"
  by (simp add: full_blocks.simps)

lemma full_blocks_Nil [simp]: "full_blocks B [] = []"
  by (auto simp: full_blocks.simps)

lemma full_blocks_Cons:
  "0 < B \<Longrightarrow> length blk = B \<Longrightarrow> full_blocks B (blk @ xs) = blk # full_blocks B xs"
  by (subst full_blocks.simps) simp

lemma full_blocks_append:
  assumes "0 < B" and "B dvd length xs"
  shows "full_blocks B (xs @ ys) = full_blocks B xs @ full_blocks B ys"
  using assms(2)
proof (induction B xs rule: full_blocks.induct)
  case (1 B xs)
  show ?case
  proof (cases "0 < B \<and> B \<le> length xs")
    case True
    then have "B dvd length (drop B xs)"
      using "1.prems" by (simp add: dvd_diff_nat)
    then have IH: "full_blocks B (drop B xs @ ys) = full_blocks B (drop B xs) @ full_blocks B ys"
      using "1.IH" True by blast
    have eq: "full_blocks B xs = take B xs # full_blocks B (drop B xs)"
      using True by (simp add: full_blocks.simps)
    have "full_blocks B (take B xs @ (drop B xs @ ys)) = take B xs # full_blocks B (drop B xs @ ys)"
      using True by (intro full_blocks_Cons) auto
    then show ?thesis
      using IH eq by (simp flip: append.assoc)
  next
    case False
    show ?thesis
    proof (cases "B = 0")
      case True
      then show ?thesis using "1.prems" by (simp add: full_blocks.simps)
    next
      case B: False
      then have "xs = []"
        using False "1.prems" by (cases "xs = []") (auto dest: dvd_imp_le)
      then show ?thesis by simp
    qed
  qed
qed

lemma full_blocks_lengths: "blk \<in> set (full_blocks B xs) \<Longrightarrow> length blk = B"
proof (induction B xs rule: full_blocks.induct)
  case (1 B xs)
  then show ?case
    by (cases "0 < B \<and> B \<le> length xs") (auto simp: full_blocks.simps [of B xs])
qed

lemma length_rest_bytes [len_simps]: "length (rest_bytes B xs) = length xs mod B"
  by (simp add: rest_bytes_def minus_mult_div_eq_mod)

lemma rest_bytes_short: "length xs < B \<Longrightarrow> rest_bytes B xs = xs"
  by (simp add: rest_bytes_def)

lemma rest_bytes_Cons:
  assumes "0 < B" and "length blk = B"
  shows "rest_bytes B (blk @ xs) = rest_bytes B xs"
proof -
  have "(B + length xs) div B = Suc (length xs div B)"
    using assms(1) by (subst div_add_self1) auto
  then show ?thesis
    using assms(2) by (simp add: rest_bytes_def)
qed

lemma concat_full_blocks:
  "0 < B \<Longrightarrow> concat (full_blocks B xs) @ rest_bytes B xs = xs"
proof (induction B xs rule: full_blocks.induct)
  case (1 B xs)
  show ?case
  proof (cases "B \<le> length xs")
    case True
    have "rest_bytes B xs = rest_bytes B (take B xs @ drop B xs)" by simp
    also have "\<dots> = rest_bytes B (drop B xs)"
      using True "1.prems" by (intro rest_bytes_Cons) auto
    finally have "rest_bytes B xs = rest_bytes B (drop B xs)" .
    moreover have "full_blocks B xs = take B xs # full_blocks B (drop B xs)"
      using True "1.prems" by (simp add: full_blocks.simps)
    ultimately show ?thesis
      using "1.IH" "1.prems" True by simp
  next
    case False
    then show ?thesis by (simp add: rest_bytes_short)
  qed
qed

lemma length_concat_full_blocks:
  "B dvd length (concat (full_blocks B xs))"
proof -
  have "\<forall>blk \<in> set bs. length blk = B \<Longrightarrow> B dvd length (concat bs)" for bs :: "'a list list"
    by (induction bs) auto
  then show ?thesis using full_blocks_lengths by blast
qed

lemma full_blocks_split:
  assumes "0 < B"
  shows "full_blocks B (xs @ ys) = full_blocks B xs @ full_blocks B (rest_bytes B xs @ ys)"
proof -
  let ?c = "concat (full_blocks B xs)" and ?r = "rest_bytes B xs"
  have xs: "xs = ?c @ ?r" using concat_full_blocks [OF assms, of xs] by simp
  have "length ?r < B" using assms by (simp add: length_rest_bytes)
  then have "full_blocks B (?c @ ?r) = full_blocks B ?c"
    by (subst full_blocks_append) (simp_all add: length_concat_full_blocks assms)
  then have c: "full_blocks B ?c = full_blocks B xs" using xs by simp
  have "full_blocks B (xs @ ys) = full_blocks B (?c @ (?r @ ys))"
    using xs by (metis append.assoc)
  also have "\<dots> = full_blocks B ?c @ full_blocks B (?r @ ys)"
    by (intro full_blocks_append assms length_concat_full_blocks)
  finally show ?thesis using c by simp
qed

lemma rest_bytes_append:
  assumes "0 < B" and "B dvd length xs"
  shows "rest_bytes B (xs @ ys) = rest_bytes B ys"
proof -
  obtain k where "length xs = B * k" using assms(2) by (rule dvdE)
  then show ?thesis using assms(1) by (simp add: rest_bytes_def add.commute distrib_left)
qed

lemma rest_bytes_split:
  assumes "0 < B"
  shows "rest_bytes B (xs @ ys) = rest_bytes B (rest_bytes B xs @ ys)"
proof -
  have "xs @ ys = concat (full_blocks B xs) @ (rest_bytes B xs @ ys)"
    using concat_full_blocks [OF assms, of xs] by (metis append.assoc)
  then show ?thesis
    by (metis rest_bytes_append [OF assms length_concat_full_blocks])
qed

section \<open>Bounds of words\<close>

lemma unat_bound: "unat (w :: 'a::len word) < 2 ^ LENGTH('a)"
  by (rule unsigned_less)

lemma digits_unique:
  fixes a b c d M :: nat
  assumes "a + M * b = c + M * d" and "a < M" and "c < M"
  shows "a = c \<and> b = d"
proof -
  have "(a + M * b) mod M = a" "(c + M * d) mod M = c" using assms(2,3) by simp_all
  then have "a = c" using assms(1) by metis
  then show ?thesis using assms by simp
qed

section \<open>Words in byte memory\<close>

text \<open>
  The little endian bytes of a word, and the word a C pointer cast reads from little endian
  memory; the big endian versions read the bytes in the other order. \<open>bswap\<close> is the
  byte swap of libbb's \<open>SWAP_BE32\<close>/\<open>SWAP_BE64\<close> on a little endian machine.
\<close>

definition le_bytes :: "nat \<Rightarrow> 'a::len word \<Rightarrow> bytes" where
  "le_bytes n w = map (\<lambda>i. ucast (drop_bit (8 * i) w)) [0..<n]"

fun le_word :: "bytes \<Rightarrow> 'a::len word" where
  "le_word [] = 0"
| "le_word (b # bs) = ucast b OR push_bit 8 (le_word bs)"

definition be_bytes :: "nat \<Rightarrow> 'a::len word \<Rightarrow> bytes" where
  "be_bytes n w = rev (le_bytes n w)"

definition be_word :: "bytes \<Rightarrow> 'a::len word" where
  "be_word bs = le_word (rev bs)"

definition bswap :: "'a::len word \<Rightarrow> 'a word" where
  "bswap w = le_word (rev (le_bytes (LENGTH('a) div 8) w))"

lemma length_le_bytes [simp]: "length (le_bytes n w) = n"
  by (simp add: le_bytes_def)

lemma length_be_bytes [simp]: "length (be_bytes n w) = n"
  by (simp add: be_bytes_def)

lemma le_bytes_0 [simp]: "le_bytes 0 w = []"
  by (simp add: le_bytes_def)

lemma le_bytes_Suc: "le_bytes (Suc n) w = ucast w # le_bytes n (drop_bit 8 w)"
proof -
  have "[0..<Suc n] = 0 # map Suc [0..<n]"
    by (simp add: map_Suc_upt upt_conv_Cons del: upt_Suc)
  then show ?thesis
    by (simp add: le_bytes_def comp_def algebra_simps del: upt_Suc)
qed

lemma le_bytes_zero [simp]: "le_bytes n (0 :: 'a::len word) = replicate n 0"
  by (simp add: le_bytes_def map_replicate_const)

lemma le_word_zeros [simp]: "le_word (replicate n 0) = 0"
  by (induction n) simp_all

lemma bit_le_word_Cons:
  fixes bs :: bytes
  assumes "i < LENGTH('a::len)"
  shows "bit (le_word (b # bs) :: 'a word) i =
    (if i < 8 then bit b i else bit (le_word bs :: 'a word) (i - 8))"
  using assms by (auto simp: bit_simps dest: bit_imp_le_length)

lemma bit_le_bytes:
  "i < n \<Longrightarrow> j < 8 \<Longrightarrow> bit (le_bytes n w ! i) j = bit w (8 * i + j)"
  by (auto simp: le_bytes_def bit_simps ac_simps dest: bit_imp_le_length)

lemma bit_le_word:
  fixes bs :: bytes
  assumes "i < LENGTH('a::len)" and "i < 8 * length bs"
  shows "bit (le_word bs :: 'a word) i = bit (bs ! (i div 8)) (i mod 8)"
  using assms
proof (induction bs arbitrary: i)
  case Nil
  then show ?case by simp
next
  case (Cons b bs)
  show ?case
  proof (cases "i < 8")
    case True
    then show ?thesis using Cons.prems by (simp add: bit_le_word_Cons del: le_word.simps)
  next
    case False
    then have "i div 8 = Suc ((i - 8) div 8)" and "i mod 8 = (i - 8) mod 8"
      by (auto simp: le_div_geq le_mod_geq)
    then show ?thesis
      using False Cons.prems Cons.IH [of "i - 8"]
      by (simp add: bit_le_word_Cons del: le_word.simps)
  qed
qed

lemma bit_le_word_iff:
  fixes bs :: bytes
  shows "bit (le_word bs :: 'a::len word) i \<longleftrightarrow>
    i < LENGTH('a) \<and> i < 8 * length bs \<and> bit (bs ! (i div 8)) (i mod 8)"
proof (cases "i < LENGTH('a) \<and> i < 8 * length bs")
  case True
  then show ?thesis by (simp add: bit_le_word)
next
  case False
  have "8 * length bs \<le> i \<Longrightarrow> \<not> bit (le_word bs :: 'a word) i"
  proof (induction bs arbitrary: i)
    case Nil
    then show ?case by simp
  next
    case (Cons b bs)
    then show ?case
      using Cons.IH [of "i - 8"]
      by (cases "i < LENGTH('a)") (auto simp: bit_le_word_Cons simp del: le_word.simps dest: bit_imp_le_length)
  qed
  then show ?thesis using False by (auto dest: bit_imp_le_length)
qed

lemma le_word_append:
  "le_word (xs @ ys) = le_word xs OR push_bit (8 * length xs) (le_word ys :: 'a::len word)"
  by (induction xs) (simp_all add: push_bit_or push_bit_push_bit or.assoc)

lemma be_word_append:
  "be_word (xs @ ys) = push_bit (8 * length ys) (be_word xs) OR (be_word ys :: 'a::len word)"
  by (simp add: be_word_def le_word_append or.commute)

lemma le_bytes_le_word:
  fixes bs :: bytes
  assumes "8 * length bs \<le> LENGTH('a::len)"
  shows "le_bytes (length bs) (le_word bs :: 'a word) = bs"
proof (rule nth_equalityI)
  fix i assume "i < length (le_bytes (length bs) (le_word bs :: 'a word))"
  then have i: "i < length bs" by simp
  show "le_bytes (length bs) (le_word bs :: 'a word) ! i = bs ! i"
  proof (rule bit_word_eqI)
    fix j :: nat assume "j < LENGTH(8)"
    then have j: "j < 8" by simp
    have "8 * i + j < 8 * length bs" using i j by linarith
    then show "bit (le_bytes (length bs) (le_word bs :: 'a word) ! i) j = bit (bs ! i) j"
      using assms i j by (simp add: bit_le_bytes bit_le_word)
  qed
qed simp

lemma le_word_le_bytes:
  assumes "LENGTH('a::len) \<le> 8 * n"
  shows "le_word (le_bytes n (w :: 'a word)) = w"
proof (rule bit_word_eqI)
  fix i assume i: "i < LENGTH('a)"
  then have "i div 8 < n" using assms by (simp add: div_less_iff_less_mult)
  then show "bit (le_word (le_bytes n w) :: 'a word) i = bit w i"
    using i assms by (simp add: bit_le_word bit_le_bytes)
qed

lemma be_word_be_bytes:
  "LENGTH('a::len) \<le> 8 * n \<Longrightarrow> be_word (be_bytes n (w :: 'a word)) = w"
  by (simp add: be_word_def be_bytes_def le_word_le_bytes)

lemma be_word_be_bytes_ucast:
  assumes "LENGTH('a) = 8 * n" and "LENGTH('a) \<le> LENGTH('b)"
  shows "(be_word (be_bytes n (w :: 'a::len word)) :: 'b::len word) = ucast w"
proof (rule bit_word_eqI)
  fix i assume "i < LENGTH('b)"
  moreover have "bit (le_bytes n w ! (i div 8)) (i mod 8) = bit w i" if "i < 8 * n"
  proof -
    have "i div 8 < n" using that by (simp add: div_less_iff_less_mult mult.commute)
    then show ?thesis using bit_le_bytes [of "i div 8" n "i mod 8" w] by simp
  qed
  ultimately show "bit (be_word (be_bytes n w) :: 'b word) i = bit (ucast w :: 'b word) i"
    using assms bit_imp_le_length [of w i]
    by (auto simp: be_word_def be_bytes_def bit_le_word_iff bit_simps)
qed

lemma be_word_ucast:
  assumes "LENGTH('a::len) = 8 * length bs" and "LENGTH('a) \<le> LENGTH('b::len)"
  shows "(be_word bs :: 'b word) = ucast (be_word bs :: 'a word)"
  by (rule bit_word_eqI) (use assms in \<open>auto simp: be_word_def bit_le_word_iff bit_simps\<close>)

lemma bswap_le_word:
  fixes bs :: bytes
  assumes "8 * length bs = LENGTH('a::len)"
  shows "bswap (le_word bs :: 'a word) = be_word bs"
proof -
  have "LENGTH('a) div 8 = length bs" using assms by presburger
  then show ?thesis using assms by (simp add: bswap_def be_word_def le_bytes_le_word)
qed

lemma le_bytes_bswap:
  assumes "LENGTH('a::len) = 8 * n"
  shows "le_bytes n (bswap (w :: 'a word)) = be_bytes n w"
proof -
  have "le_bytes (length (rev (le_bytes n w))) (le_word (rev (le_bytes n w)) :: 'a word)
      = rev (le_bytes n w)"
    using assms by (intro le_bytes_le_word) simp
  then show ?thesis using assms by (simp add: bswap_def be_bytes_def)
qed

text \<open>A block of bytes read as \<open>n\<close> words of \<open>k\<close> bytes.\<close>

definition le_words :: "nat \<Rightarrow> nat \<Rightarrow> bytes \<Rightarrow> 'a::len word list" where
  "le_words k n blk = map (\<lambda>i. le_word (take k (drop (k * i) blk))) [0..<n]"

definition be_words :: "nat \<Rightarrow> nat \<Rightarrow> bytes \<Rightarrow> 'a::len word list" where
  "be_words k n blk = map (\<lambda>i. be_word (take k (drop (k * i) blk))) [0..<n]"

text \<open>The shift and or idiom of the C code is a rotation.\<close>

lemma mod_wrap: "m < 2 * n \<Longrightarrow> m mod n = (if m < n then m else m - n)" for n :: nat
  by (simp add: le_mod_geq not_less)

lemma word_rotr_shifts:
  "n < LENGTH('a) \<Longrightarrow> word_rotr n x = drop_bit n x OR push_bit (LENGTH('a) - n) x" for x :: "'a::len word"
proof (rule bit_word_eqI)
  fix k assume n: "n < LENGTH('a)" and k: "k < LENGTH('a)"
  have "(k + n) mod LENGTH('a) = (if k + n < LENGTH('a) then k + n else k + n - LENGTH('a))"
    using n k by (intro mod_wrap) linarith
  then show "bit (word_rotr n x) k = bit (drop_bit n x OR push_bit (LENGTH('a) - n) x) k"
    using n k by (auto simp: bit_simps add.commute dest: bit_imp_le_length)
qed

lemma word_rotl_shifts:
  "n < LENGTH('a) \<Longrightarrow> word_rotl n x = push_bit n x OR drop_bit (LENGTH('a) - n) x" for x :: "'a::len word"
proof (cases "n = 0")
  case False
  assume "n < LENGTH('a)"
  then show ?thesis
    using False word_rotr_shifts [of "LENGTH('a) - n" x] by (simp add: word_rotl_eq_word_rotr or.commute)
next
  case True
  then show ?thesis by (auto simp: bit_simps intro!: bit_word_eqI)
qed

text \<open>Text constants of the code as bytes.\<close>

definition ascii :: "string \<Rightarrow> bytes" where
  "ascii s = map of_char s"

text \<open>A property of bytes is checked on the 256 values.\<close>

lemma u8_all:
  assumes "list_all (\<lambda>n. P (of_nat n)) [0..<256]"
  shows "P (w :: u8)"
proof -
  have "unat w < 256" using unat_bound [of w] by simp
  then have "unat w \<in> set [0..<256]" by simp
  then have "P (of_nat (unat w))" using assms unfolding list_all_iff by (rule bspec [rotated])
  then show ?thesis by (simp only: of_nat_unat ucast_id)
qed

end
