(* ===== verification/Hash_Md5.thy ===== *)
theory Hash_Md5
  imports Prelude
begin

text \<open>
  The MD5 compression function of \<^verbatim>\<open>libbb/hash_md5_sha.c\<close>
  (\<^verbatim>\<open>md5_process_block64\<close>). The C file holds four bodies chosen by
  \<^verbatim>\<open>MD5_SMALL\<close>: 0 is fully unrolled with the constants in the code, 1 loops over four
  operations at a time, 2 has four loops of sixteen steps with the registers rotated, 3 has one
  loop of sixty-four steps with a switch. All four are modelled here on the sixteen message
  words, and shown to be the same function. The Geckito configuration builds number 1.
\<close>

section \<open>Rotations\<close>

definition rotl32 :: "u32 \<Rightarrow> nat \<Rightarrow> u32" where
  "rotl32 x n = push_bit n x OR drop_bit (32 - n) x"

lemma rotl32_word_rotl: "n < 32 \<Longrightarrow> rotl32 x n = word_rotl n x"
  by (simp add: rotl32_def word_rotl_shifts)

section \<open>Round functions, constants and orders\<close>

definition FF :: "u32 \<Rightarrow> u32 \<Rightarrow> u32 \<Rightarrow> u32" where
  "FF b c d = d XOR (b AND (c XOR d))"

definition FG :: "u32 \<Rightarrow> u32 \<Rightarrow> u32 \<Rightarrow> u32" where
  "FG b c d = FF d b c"

definition FH :: "u32 \<Rightarrow> u32 \<Rightarrow> u32 \<Rightarrow> u32" where
  "FH b c d = b XOR c XOR d"

definition FI :: "u32 \<Rightarrow> u32 \<Rightarrow> u32 \<Rightarrow> u32" where
  "FI b c d = c XOR (b OR NOT d)"

text \<open>\<^verbatim>\<open>C_array\<close>: the sine constants of the sixty-four steps.\<close>

definition C_array :: "u32 list" where
  "C_array = [
    0xd76aa478, 0xe8c7b756, 0x242070db, 0xc1bdceee,
    0xf57c0faf, 0x4787c62a, 0xa8304613, 0xfd469501,
    0x698098d8, 0x8b44f7af, 0xffff5bb1, 0x895cd7be,
    0x6b901122, 0xfd987193, 0xa679438e, 0x49b40821,
    0xf61e2562, 0xc040b340, 0x265e5a51, 0xe9b6c7aa,
    0xd62f105d, 0x02441453, 0xd8a1e681, 0xe7d3fbc8,
    0x21e1cde6, 0xc33707d6, 0xf4d50d87, 0x455a14ed,
    0xa9e3e905, 0xfcefa3f8, 0x676f02d9, 0x8d2a4c8a,
    0xfffa3942, 0x8771f681, 0x6d9d6122, 0xfde5380c,
    0xa4beea44, 0x4bdecfa9, 0xf6bb4b60, 0xbebfbc70,
    0x289b7ec6, 0xeaa127fa, 0xd4ef3085, 0x4881d05,
    0xd9d4d039, 0xe6db99e5, 0x1fa27cf8, 0xc4ac5665,
    0xf4292244, 0x432aff97, 0xab9423a7, 0xfc93a039,
    0x655b59c3, 0x8f0ccc92, 0xffeff47d, 0x85845dd1,
    0x6fa87e4f, 0xfe2ce6e0, 0xa3014314, 0x4e0811a1,
    0xf7537e82, 0xbd3af235, 0x2ad7d2bb, 0xeb86d391]"

text \<open>
  \<^verbatim>\<open>P_array\<close>: the order in which rounds 2 to 4 read the message words; with
  \<^verbatim>\<open>MD5_SMALL > 1\<close> the first round's order (the identity) precedes it.
\<close>

definition P_array1 :: "nat list" where
  "P_array1 = [
    1, 6, 11, 0, 5, 10, 15, 4, 9, 14, 3, 8, 13, 2, 7, 12,
    5, 8, 11, 14, 1, 4, 7, 10, 13, 0, 3, 6, 9, 12, 15, 2,
    0, 7, 14, 5, 12, 3, 10, 1, 8, 15, 6, 13, 4, 11, 2, 9]"

definition P_array :: "nat list" where
  "P_array = [0, 1, 2, 3, 4, 5, 6, 7, 8, 9, 10, 11, 12, 13, 14, 15] @ P_array1"

definition S_array :: "nat list" where
  "S_array = [
    7, 12, 17, 22,
    5, 9, 14, 20,
    4, 11, 16, 23,
    6, 10, 15, 21]"

section \<open>The registers and the OP macro\<close>

record md5_regs =
  rA :: u32
  rB :: u32
  rC :: u32
  rD :: u32

text \<open>
  \<^verbatim>\<open>OP(f, a, b, c, d, k, s, T)\<close> with its first register argument \<open>A\<close>, \<open>D\<close>,
  \<open>C\<close> or \<open>B\<close>; the other three follow in the cyclic order the calls use. \<open>w\<close> is the
  message word, \<open>T\<close> the constant.
\<close>

definition OP :: "(u32 \<Rightarrow> u32 \<Rightarrow> u32 \<Rightarrow> u32) \<Rightarrow> u32 \<Rightarrow> u32 \<Rightarrow> u32 \<Rightarrow> u32 \<Rightarrow> u32 \<Rightarrow> nat \<Rightarrow> u32 \<Rightarrow> u32" where
  "OP f a b c d w s T = rotl32 (a + (f b c d + w + T)) s + b"

definition OP_A where
  "OP_A f w s T r = r\<lparr>rA := OP f (rA r) (rB r) (rC r) (rD r) w s T\<rparr>"

definition OP_D where
  "OP_D f w s T r = r\<lparr>rD := OP f (rD r) (rA r) (rB r) (rC r) w s T\<rparr>"

definition OP_C where
  "OP_C f w s T r = r\<lparr>rC := OP f (rC r) (rD r) (rA r) (rB r) w s T\<rparr>"

definition OP_B where
  "OP_B f w s T r = r\<lparr>rB := OP f (rB r) (rC r) (rD r) (rA r) w s T\<rparr>"

text \<open>What every variant does last: add the registers to the chaining value.\<close>

definition md5_start :: "u32 list \<Rightarrow> md5_regs" where
  "md5_start h = \<lparr>rA = h ! 0, rB = h ! 1, rC = h ! 2, rD = h ! 3\<rparr>"

definition md5_add_back :: "u32 list \<Rightarrow> md5_regs \<Rightarrow> u32 list" where
  "md5_add_back h r = h[0 := h ! 0 + rA r, 1 := h ! 1 + rB r, 2 := h ! 2 + rC r, 3 := h ! 3 + rD r]"

section \<open>MD5_SMALL = 0: unrolled\<close>

definition md5_unrolled_round1 :: "u32 list \<Rightarrow> md5_regs \<Rightarrow> md5_regs" where
  "md5_unrolled_round1 words r = foldl (\<lambda>r op. op r) r [
    OP_A FF (words ! 0) 7 0xd76aa478,
    OP_D FF (words ! 1) 12 0xe8c7b756,
    OP_C FF (words ! 2) 17 0x242070db,
    OP_B FF (words ! 3) 22 0xc1bdceee,
    OP_A FF (words ! 4) 7 0xf57c0faf,
    OP_D FF (words ! 5) 12 0x4787c62a,
    OP_C FF (words ! 6) 17 0xa8304613,
    OP_B FF (words ! 7) 22 0xfd469501,
    OP_A FF (words ! 8) 7 0x698098d8,
    OP_D FF (words ! 9) 12 0x8b44f7af,
    OP_C FF (words ! 10) 17 0xffff5bb1,
    OP_B FF (words ! 11) 22 0x895cd7be,
    OP_A FF (words ! 12) 7 0x6b901122,
    OP_D FF (words ! 13) 12 0xfd987193,
    OP_C FF (words ! 14) 17 0xa679438e,
    OP_B FF (words ! 15) 22 0x49b40821]"

definition md5_unrolled_round2 :: "u32 list \<Rightarrow> md5_regs \<Rightarrow> md5_regs" where
  "md5_unrolled_round2 words r = foldl (\<lambda>r op. op r) r [
    OP_A FG (words ! 1) 5 0xf61e2562,
    OP_D FG (words ! 6) 9 0xc040b340,
    OP_C FG (words ! 11) 14 0x265e5a51,
    OP_B FG (words ! 0) 20 0xe9b6c7aa,
    OP_A FG (words ! 5) 5 0xd62f105d,
    OP_D FG (words ! 10) 9 0x02441453,
    OP_C FG (words ! 15) 14 0xd8a1e681,
    OP_B FG (words ! 4) 20 0xe7d3fbc8,
    OP_A FG (words ! 9) 5 0x21e1cde6,
    OP_D FG (words ! 14) 9 0xc33707d6,
    OP_C FG (words ! 3) 14 0xf4d50d87,
    OP_B FG (words ! 8) 20 0x455a14ed,
    OP_A FG (words ! 13) 5 0xa9e3e905,
    OP_D FG (words ! 2) 9 0xfcefa3f8,
    OP_C FG (words ! 7) 14 0x676f02d9,
    OP_B FG (words ! 12) 20 0x8d2a4c8a]"

definition md5_unrolled_round3 :: "u32 list \<Rightarrow> md5_regs \<Rightarrow> md5_regs" where
  "md5_unrolled_round3 words r = foldl (\<lambda>r op. op r) r [
    OP_A FH (words ! 5) 4 0xfffa3942,
    OP_D FH (words ! 8) 11 0x8771f681,
    OP_C FH (words ! 11) 16 0x6d9d6122,
    OP_B FH (words ! 14) 23 0xfde5380c,
    OP_A FH (words ! 1) 4 0xa4beea44,
    OP_D FH (words ! 4) 11 0x4bdecfa9,
    OP_C FH (words ! 7) 16 0xf6bb4b60,
    OP_B FH (words ! 10) 23 0xbebfbc70,
    OP_A FH (words ! 13) 4 0x289b7ec6,
    OP_D FH (words ! 0) 11 0xeaa127fa,
    OP_C FH (words ! 3) 16 0xd4ef3085,
    OP_B FH (words ! 6) 23 0x04881d05,
    OP_A FH (words ! 9) 4 0xd9d4d039,
    OP_D FH (words ! 12) 11 0xe6db99e5,
    OP_C FH (words ! 15) 16 0x1fa27cf8,
    OP_B FH (words ! 2) 23 0xc4ac5665]"

definition md5_unrolled_round4 :: "u32 list \<Rightarrow> md5_regs \<Rightarrow> md5_regs" where
  "md5_unrolled_round4 words r = foldl (\<lambda>r op. op r) r [
    OP_A FI (words ! 0) 6 0xf4292244,
    OP_D FI (words ! 7) 10 0x432aff97,
    OP_C FI (words ! 14) 15 0xab9423a7,
    OP_B FI (words ! 5) 21 0xfc93a039,
    OP_A FI (words ! 12) 6 0x655b59c3,
    OP_D FI (words ! 3) 10 0x8f0ccc92,
    OP_C FI (words ! 10) 15 0xffeff47d,
    OP_B FI (words ! 1) 21 0x85845dd1,
    OP_A FI (words ! 8) 6 0x6fa87e4f,
    OP_D FI (words ! 15) 10 0xfe2ce6e0,
    OP_C FI (words ! 6) 15 0xa3014314,
    OP_B FI (words ! 13) 21 0x4e0811a1,
    OP_A FI (words ! 4) 6 0xf7537e82,
    OP_D FI (words ! 11) 10 0xbd3af235,
    OP_C FI (words ! 2) 15 0x2ad7d2bb,
    OP_B FI (words ! 9) 21 0xeb86d391]"

definition md5_block_small0 :: "u32 list \<Rightarrow> u32 list \<Rightarrow> u32 list" where
  "md5_block_small0 h words = md5_add_back h
     (md5_unrolled_round4 words (md5_unrolled_round3 words
       (md5_unrolled_round2 words (md5_unrolled_round1 words (md5_start h)))))"

section \<open>MD5_SMALL = 1: four operations per iteration\<close>

text \<open>
  The first loop reads the words in order (\<^verbatim>\<open>*words\<close>, \<^verbatim>\<open>words++\<close>; \<open>wp\<close> is that pointer), the other
  three through \<^verbatim>\<open>pp\<close>. The pointers \<^verbatim>\<open>pc\<close> and \<^verbatim>\<open>pp\<close> are the
  suffixes of their arrays that are still to be read, and each loop hands them to the next.
\<close>

fun md5_loop1 :: "u32 list \<Rightarrow> nat \<Rightarrow> nat \<Rightarrow> u32 list \<Rightarrow> md5_regs \<Rightarrow> u32 list \<times> md5_regs" where
  "md5_loop1 words wp (Suc i) (t0 # t1 # t2 # t3 # pc) r =
     md5_loop1 words (wp + 4) i pc
       (OP_B FF (words ! (wp + 3)) 22 t3 (OP_C FF (words ! (wp + 2)) 17 t2
         (OP_D FF (words ! (wp + 1)) 12 t1 (OP_A FF (words ! wp) 7 t0 r))))"
| "md5_loop1 words wp _ pc r = (pc, r)"

fun md5_loop4 :: "(u32 \<Rightarrow> u32 \<Rightarrow> u32 \<Rightarrow> u32) \<Rightarrow> nat \<Rightarrow> nat \<Rightarrow> nat \<Rightarrow> nat \<Rightarrow> u32 list
    \<Rightarrow> nat \<Rightarrow> nat list \<Rightarrow> u32 list \<Rightarrow> md5_regs \<Rightarrow> nat list \<times> u32 list \<times> md5_regs" where
  "md5_loop4 f s0 s1 s2 s3 words (Suc i) (p0 # p1 # p2 # p3 # pp) (t0 # t1 # t2 # t3 # pc) r =
     md5_loop4 f s0 s1 s2 s3 words i pp pc
       (OP_B f (words ! p3) s3 t3 (OP_C f (words ! p2) s2 t2
         (OP_D f (words ! p1) s1 t1 (OP_A f (words ! p0) s0 t0 r))))"
| "md5_loop4 f s0 s1 s2 s3 words _ pp pc r = (pp, pc, r)"

definition md5_block_small1 :: "u32 list \<Rightarrow> u32 list \<Rightarrow> u32 list" where
  "md5_block_small1 h words =
     (let (pc, r) = md5_loop1 words 0 4 C_array (md5_start h);
          (pp, pc, r) = md5_loop4 FG 5 9 14 20 words 4 P_array1 pc r;
          (pp, pc, r) = md5_loop4 FH 4 11 16 23 words 4 pp pc r;
          (pp, pc, r) = md5_loop4 FI 6 10 15 21 words 4 pp pc r
      in md5_add_back h r)"

section \<open>MD5_SMALL = 2: four loops of sixteen rotating steps\<close>

text \<open>
  One iteration: \<open>temp\<close> is computed into the register that is due, then the registers move one
  place. \<open>ps\<close> is the offset of the round's shifts in \<open>S_array\<close>.
\<close>

definition md5_rot_step :: "(u32 \<Rightarrow> u32 \<Rightarrow> u32 \<Rightarrow> u32) \<Rightarrow> u32 \<Rightarrow> nat \<Rightarrow> u32 \<Rightarrow> md5_regs \<Rightarrow> md5_regs" where
  "md5_rot_step f w s T r =
     (let temp = rA r + f (rB r) (rC r) (rD r) + w + T;
          temp = rotl32 temp s;
          temp = temp + rB r
      in \<lparr>rA = rD r, rB = temp, rC = rB r, rD = rC r\<rparr>)"

fun md5_loop16 :: "(u32 \<Rightarrow> u32 \<Rightarrow> u32 \<Rightarrow> u32) \<Rightarrow> nat \<Rightarrow> u32 list
    \<Rightarrow> nat \<Rightarrow> nat \<Rightarrow> nat list \<Rightarrow> u32 list \<Rightarrow> md5_regs \<Rightarrow> nat list \<times> u32 list \<times> md5_regs" where
  "md5_loop16 f ps words i (Suc n) (p # pp) (t # pc) r =
     md5_loop16 f ps words (Suc i) n pp pc (md5_rot_step f (words ! p) (S_array ! (ps + i mod 4)) t r)"
| "md5_loop16 f ps words i _ pp pc r = (pp, pc, r)"

definition md5_block_small2 :: "u32 list \<Rightarrow> u32 list \<Rightarrow> u32 list" where
  "md5_block_small2 h words =
     (let (pp, pc, r) = md5_loop16 FF 0 words 0 16 P_array C_array (md5_start h);
          (pp, pc, r) = md5_loop16 FG 4 words 0 16 pp pc r;
          (pp, pc, r) = md5_loop16 FH 8 words 0 16 pp pc r;
          (pp, pc, r) = md5_loop16 FI 12 words 0 16 pp pc r
      in md5_add_back h r)"

section \<open>MD5_SMALL = 3: one loop with a switch\<close>

text \<open>
  \<open>ps\<close> starts four entries before \<open>S_array\<close> and is advanced whenever \<open>i\<close> is a multiple
  of 16, so that inside the loop it is the offset plus 4; here it is that advanced offset.
\<close>

fun md5_loop64 :: "u32 list \<Rightarrow> nat \<Rightarrow> nat \<Rightarrow> int \<Rightarrow> nat list \<Rightarrow> u32 list \<Rightarrow> md5_regs \<Rightarrow> md5_regs" where
  "md5_loop64 words i (Suc n) ps (p # pp) (t # pc) r =
     (let ps = (if i mod 16 = 0 then ps + 4 else ps);
          temp = rA r;
          temp = temp + (if i div 16 = 0 then FF (rB r) (rC r) (rD r)
                         else if i div 16 = 1 then FG (rB r) (rC r) (rD r)
                         else if i div 16 = 2 then FH (rB r) (rC r) (rD r)
                         else FI (rB r) (rC r) (rD r));
          temp = temp + (words ! p + t);
          temp = rotl32 temp (S_array ! nat (ps + int (i mod 4)));
          temp = temp + rB r
      in md5_loop64 words (Suc i) n ps pp pc \<lparr>rA = rD r, rB = temp, rC = rB r, rD = rC r\<rparr>)"
| "md5_loop64 words i _ ps pp pc r = r"

definition md5_block_small3 :: "u32 list \<Rightarrow> u32 list \<Rightarrow> u32 list" where
  "md5_block_small3 h words =
     md5_add_back h (md5_loop64 words 0 64 (-4) P_array C_array (md5_start h))"

section \<open>The four bodies agree\<close>

text \<open>Four rotating steps are the four operations of an iteration, registers in place again.\<close>

lemma md5_four_steps:
  "md5_rot_step f w3 s3 t3 (md5_rot_step f w2 s2 t2 (md5_rot_step f w1 s1 t1 (md5_rot_step f w0 s0 t0 r)))
    = OP_B f w3 s3 t3 (OP_C f w2 s2 t2 (OP_D f w1 s1 t1 (OP_A f w0 s0 t0 r)))"
  by (simp add: md5_rot_step_def OP_A_def OP_B_def OP_C_def OP_D_def OP_def ac_simps Let_def)

lemmas md5_tables = C_array_def P_array_def P_array1_def S_array_def

lemmas md5_unrolled = md5_block_small0_def md5_unrolled_round1_def md5_unrolled_round2_def
  md5_unrolled_round3_def md5_unrolled_round4_def

text \<open>The loops' equations with a positive counter, for counters given as numerals.\<close>

definition md5_sel :: "nat \<Rightarrow> u32 \<Rightarrow> u32 \<Rightarrow> u32 \<Rightarrow> u32" where
  "md5_sel i = (if i div 16 = 0 then FF else if i div 16 = 1 then FG else if i div 16 = 2 then FH else FI)"

lemma md5_loop64_step:
  "0 < n \<Longrightarrow> md5_loop64 words i n ps (p # pp) (t # pc) r =
    md5_loop64 words (Suc i) (n - 1) (if i mod 16 = 0 then ps + 4 else ps) pp pc
      (md5_rot_step (md5_sel i) (words ! p)
        (S_array ! nat ((if i mod 16 = 0 then ps + 4 else ps) + int (i mod 4))) t r)"
  by (cases n) (simp_all add: md5_rot_step_def md5_sel_def Let_def add.assoc)

lemma md5_loop16_step:
  "0 < n \<Longrightarrow> md5_loop16 f ps words i n (p # pp) (t # pc) r =
    md5_loop16 f ps words (Suc i) (n - 1) pp pc
      (md5_rot_step f (words ! p) (S_array ! (ps + i mod 4)) t r)"
  by (cases n) simp_all

lemma md5_loop4_step:
  "0 < i \<Longrightarrow> md5_loop4 f s0 s1 s2 s3 words i (p0 # p1 # p2 # p3 # pp) (t0 # t1 # t2 # t3 # pc) r =
     md5_loop4 f s0 s1 s2 s3 words (i - 1) pp pc
       (OP_B f (words ! p3) s3 t3 (OP_C f (words ! p2) s2 t2
         (OP_D f (words ! p1) s1 t1 (OP_A f (words ! p0) s0 t0 r))))"
  by (cases i) simp_all

lemma md5_loop1_step:
  "0 < i \<Longrightarrow> md5_loop1 words wp i (t0 # t1 # t2 # t3 # pc) r =
     md5_loop1 words (wp + 4) (i - 1) pc
       (OP_B FF (words ! (wp + 3)) 22 t3 (OP_C FF (words ! (wp + 2)) 17 t2
         (OP_D FF (words ! (wp + 1)) 12 t1 (OP_A FF (words ! wp) 7 t0 r))))"
  by (cases i) simp_all

lemma md5_small3_small2: "md5_block_small3 h words = md5_block_small2 h words"
  unfolding md5_block_small3_def md5_block_small2_def md5_tables
  by (simp add: md5_loop64_step md5_loop16_step md5_tables md5_sel_def
      del: md5_loop64.simps(1) md5_loop16.simps(1))

lemma md5_small2_small0: "md5_block_small2 h words = md5_block_small0 h words"
  unfolding md5_block_small2_def md5_tables
  by (simp add: md5_loop16_step md5_four_steps md5_tables md5_unrolled del: md5_loop16.simps(1))

lemma md5_small1_small0: "md5_block_small1 h words = md5_block_small0 h words"
  unfolding md5_block_small1_def md5_tables
  by (simp add: md5_loop4_step md5_loop1_step md5_unrolled
      del: md5_loop4.simps(1) md5_loop1.simps(1) add_2_eq_Suc add_2_eq_Suc')

section \<open>The standard's block function\<close>

text \<open>
  RFC 1321 with its own round functions and with the order of the message words and the shifts
  as formulas of the step number, one step at a time. \<open>rfc_T\<close> is the table
  \<open>T[i] = floor (2 ^ 32 * abs (sin i))\<close> of the RFC in decimal.
\<close>

definition rfc_T :: "u32 list" where
  "rfc_T =
    [3614090360, 3905402710, 606105819, 3250441966, 4118548399, 1200080426, 2821735955, 4249261313,
     1770035416, 2336552879, 4294925233, 2304563134, 1804603682, 4254626195, 2792965006, 1236535329,
     4129170786, 3225465664, 643717713, 3921069994, 3593408605, 38016083, 3634488961, 3889429448,
     568446438, 3275163606, 4107603335, 1163531501, 2850285829, 4243563512, 1735328473, 2368359562,
     4294588738, 2272392833, 1839030562, 4259657740, 2763975236, 1272893353, 4139469664, 3200236656,
     681279174, 3936430074, 3572445317, 76029189, 3654602809, 3873151461, 530742520, 3299628645,
     4096336452, 1126891415, 2878612391, 4237533241, 1700485571, 2399980690, 4293915773, 2240044497,
     1873313359, 4264355552, 2734768916, 1309151649, 4149444226, 3174756917, 718787259, 3951481745]"

definition rfc_f :: "nat \<Rightarrow> u32 \<Rightarrow> u32 \<Rightarrow> u32 \<Rightarrow> u32" where
  "rfc_f i x y z =
     (if i < 16 then (x AND y) OR (NOT x AND z)
      else if i < 32 then (x AND z) OR (y AND NOT z)
      else if i < 48 then x XOR y XOR z
      else y XOR (x OR NOT z))"

definition rfc_k :: "nat \<Rightarrow> nat" where
  "rfc_k i = (if i < 16 then i else if i < 32 then (5 * i + 1) mod 16
              else if i < 48 then (3 * i + 5) mod 16 else 7 * i mod 16)"

definition rfc_s :: "nat \<Rightarrow> nat" where
  "rfc_s i = [[7, 12, 17, 22], [5, 9, 14, 20], [4, 11, 16, 23], [6, 10, 15, 21]] ! (i div 16) ! (i mod 4)"

definition rfc_step :: "u32 list \<Rightarrow> u32 \<times> u32 \<times> u32 \<times> u32 \<Rightarrow> nat \<Rightarrow> u32 \<times> u32 \<times> u32 \<times> u32" where
  "rfc_step X = (\<lambda>(a, b, c, d) i.
     (d, b + word_rotl (rfc_s i) (a + rfc_f i b c d + X ! rfc_k i + rfc_T ! i), b, c))"

definition rfc1321_block :: "u32 list \<Rightarrow> u32 list \<Rightarrow> u32 list" where
  "rfc1321_block h X =
     (case foldl (rfc_step X) (h ! 0, h ! 1, h ! 2, h ! 3) [0..<64] of
        (a, b, c, d) \<Rightarrow> h[0 := h ! 0 + a, 1 := h ! 1 + b, 2 := h ! 2 + c, 3 := h ! 3 + d])"

lemma rfc_f_sel: "i < 64 \<Longrightarrow> rfc_f i x y z = md5_sel i x y z"
proof -
  assume i: "i < 64"
  have F: "(x AND y) OR (NOT x AND z) = FF x y z" for x y z
    by (rule bit_word_eqI) (auto simp: FF_def bit_simps)
  have G: "(x AND z) OR (y AND NOT z) = FG x y z"
    by (rule bit_word_eqI) (auto simp: FF_def FG_def bit_simps)
  show ?thesis
    using i by (auto simp: rfc_f_def md5_sel_def F G FH_def FI_def div_nat_eqI split: if_splits)
qed

definition regs_of :: "u32 \<times> u32 \<times> u32 \<times> u32 \<Rightarrow> md5_regs" where
  "regs_of = (\<lambda>(a, b, c, d). \<lparr>rA = a, rB = b, rC = c, rD = d\<rparr>)"

lemma rfc_T_code: "rfc_T = C_array"
  by (simp add: rfc_T_def C_array_def)

lemma rfc_s_lt: "i < 64 \<Longrightarrow> rfc_s i < 32"
proof -
  have "list_all (\<lambda>i. rfc_s i < 32) [0..<64]" by code_simp
  then show "i < 64 \<Longrightarrow> ?thesis" by (simp add: list_all_iff)
qed

lemma regs_of_step:
  "i < 64 \<Longrightarrow> regs_of (rfc_step X s i) =
    md5_rot_step (md5_sel i) (X ! rfc_k i) (rfc_s i) (C_array ! i) (regs_of s)"
  by (simp add: rfc_T_code rotl32_word_rotl rfc_s_lt regs_of_def rfc_step_def md5_rot_step_def rfc_f_sel Let_def add.commute split: prod.splits)

lemma md5_orders:
  assumes "i < 64"
  shows "P_array ! i = rfc_k i \<and> S_array ! (4 * (i div 16) + i mod 4) = rfc_s i
    \<and> (i + 15) div 16 = (if i mod 16 = 0 then i div 16 else i div 16 + 1)"
proof -
  have "list_all (\<lambda>i. P_array ! i = rfc_k i \<and> S_array ! (4 * (i div 16) + i mod 4) = rfc_s i
    \<and> (i + 15) div 16 = (if i mod 16 = 0 then i div 16 else i div 16 + 1)) [0..<64]"
    by code_simp
  then show ?thesis using assms by (simp add: list_all_iff)
qed

lemma rfc_loop64:
  "i + n = 64 \<Longrightarrow> ps = 4 * int ((i + 15) div 16) - 4 \<Longrightarrow>
    regs_of (foldl (rfc_step X) s [i..<64]) =
    md5_loop64 X i n ps (drop i P_array) (drop i C_array) (regs_of s)"
proof (induction n arbitrary: i ps s)
  case 0
  then show ?case by simp
next
  case (Suc n)
  let ?ps = "if i mod 16 = 0 then ps + 4 else ps"
  have i: "i < 64" using Suc.prems by simp
  have tab: "P_array ! i = rfc_k i" "S_array ! (4 * (i div 16) + i mod 4) = rfc_s i"
    using md5_orders [OF i] by simp_all
  have len: "length P_array = 64" "length C_array = 64" by (simp_all add: md5_tables)
  have "(i + 15) div 16 = (if i mod 16 = 0 then i div 16 else i div 16 + 1)"
    using md5_orders [OF i] by simp
  then have ps: "?ps = 4 * int (i div 16)"
    unfolding Suc.prems(2) by (cases "i mod 16 = 0") simp_all
  have nxt: "?ps = 4 * int ((Suc i + 15) div 16) - 4"
    using ps div_add_self1 [of 16 i] by simp
  have idx: "nat (?ps + int (i mod 4)) = 4 * (i div 16) + i mod 4" unfolding ps by linarith
  have "regs_of (foldl (rfc_step X) s [i..<64]) = regs_of (foldl (rfc_step X) (rfc_step X s i) [Suc i..<64])"
    using i by (simp add: upt_conv_Cons)
  also have "\<dots> = md5_loop64 X (Suc i) n ?ps (drop (Suc i) P_array) (drop (Suc i) C_array) (regs_of (rfc_step X s i))"
    using Suc.prems(1) nxt by (intro Suc.IH) simp_all
  also have "\<dots> = md5_loop64 X i (Suc n) ps (drop i P_array) (drop i C_array) (regs_of s)"
    using i tab len idx by (simp add: Cons_nth_drop_Suc [symmetric] md5_loop64_step regs_of_step
        del: md5_loop64.simps(1) upt.simps)
  finally show ?case .
qed

lemma rfc1321_small3: "rfc1321_block h X = md5_block_small3 h X"
proof -
  obtain a b c d where eq: "foldl (rfc_step X) (h ! 0, h ! 1, h ! 2, h ! 3) [0..<64] = (a, b, c, d)"
    by (rule prod_cases4)
  then have "md5_loop64 X 0 64 (-4) P_array C_array (md5_start h) = \<lparr>rA = a, rB = b, rC = c, rD = d\<rparr>"
    using rfc_loop64 [of 0 64 "-4" X "(h ! 0, h ! 1, h ! 2, h ! 3)"] by (simp add: regs_of_def md5_start_def)
  then show ?thesis
    using eq by (simp add: rfc1321_block_def md5_block_small3_def md5_add_back_def)
qed

lemma md5_small1_rfc: "md5_block_small1 h X = rfc1321_block h X"
  by (simp add: md5_small1_small0 rfc1321_small3 md5_small3_small2 md5_small2_small0)

text \<open>
  C1. The four compile-time variants of the MD5 block function compute the block function of
  RFC 1321 from every chaining value and every block, so \<^verbatim>\<open>CONFIG_MD5_SMALL\<close> trades
  size for speed only.
\<close>

theorem md5_variants_agree:
  "md5_block_small0 h words = rfc1321_block h words
   \<and> md5_block_small1 h words = rfc1321_block h words
   \<and> md5_block_small2 h words = rfc1321_block h words
   \<and> md5_block_small3 h words = rfc1321_block h words"
  by (simp add: rfc1321_small3 md5_small1_small0 md5_small2_small0 md5_small3_small2)

lemma length_md5_block [len_simps]: "length (md5_block_small1 h words) = length h"
  by (simp add: md5_block_small1_def md5_add_back_def split: prod.splits)

end
