(* ===== verification/Fips180.thy ===== *)
theory Fips180
  imports Prelude
begin

text \<open>
  The compression functions of FIPS 180, as the standard states them and independently of
  \<^verbatim>\<open>libbb/hash_md5_sha.c\<close>: rotations are the library's \<open>word_rotl\<close> and
  \<open>word_rotr\<close>, the schedules are recursive functions of \<open>t\<close>, the state is a tuple, and
  the round constants are computed from their definition, the first bits of the fractional parts
  of the cube roots of the first eighty primes (for SHA-1, thirty bits of square roots). The theory
  \<open>Hash_Sha\<close> compares the code with them.
\<close>

section \<open>Integer roots and the round constants\<close>

text \<open>The largest \<open>r\<close> with \<open>r ^ d \<le> n\<close>, bit by bit from the top.\<close>

fun iroot :: "nat \<Rightarrow> nat \<Rightarrow> nat \<Rightarrow> nat \<Rightarrow> nat" where
  "iroot d n 0 r = r"
| "iroot d n (Suc k) r = iroot d n k (if (r + 2 ^ k) ^ d \<le> n then r + 2 ^ k else r)"

lemma iroot_bounds:
  "r ^ d \<le> n \<Longrightarrow> n < (r + 2 ^ k) ^ d \<Longrightarrow> iroot d n k r ^ d \<le> n \<and> n < (iroot d n k r + 1) ^ d"
proof (induction k arbitrary: r)
  case (Suc k)
  have "n < (r + 2 ^ k + 2 ^ k) ^ d" using Suc.prems(2) by (simp add: mult_2 add.assoc)
  then show ?case
    using Suc.IH [of "r + 2 ^ k"] Suc.IH [of r] Suc.prems(1)
    by (cases "(r + 2 ^ k) ^ d \<le> n") simp_all
qed simp

lemma iroot_eqI:
  assumes "0 < d" and "x ^ d \<le> n" and "n < (x + 1) ^ d" and "x < 2 ^ k"
  shows "iroot d n k 0 = x"
proof -
  have "(x + 1) ^ d \<le> (2 ^ k) ^ d" using assms(4) by (intro power_mono) simp_all
  then have "n < (0 + 2 ^ k) ^ d" using assms(3) by simp
  moreover have "0 ^ d \<le> n" using assms(1) by (simp add: zero_power)
  ultimately have r: "iroot d n k 0 ^ d \<le> n" "n < (iroot d n k 0 + 1) ^ d"
    using iroot_bounds [of 0 d n k] by blast+
  have "x < iroot d n k 0 + 1"
    using assms(2) r(2) by (intro power_less_imp_less_base [of x d]) simp_all
  moreover have "iroot d n k 0 < x + 1"
    using assms(3) r(1) by (intro power_less_imp_less_base [of "iroot d n k 0" d]) simp_all
  ultimately show ?thesis by simp
qed

text \<open>The first bits of the fractional part of the \<open>d\<close>-th root of \<open>p\<close>, as a word.\<close>

definition frac_root :: "nat \<Rightarrow> nat \<Rightarrow> 'a::len word" where
  "frac_root d p = word_of_nat (iroot d (p * 2 ^ (d * LENGTH('a))) (LENGTH('a) + 3) 0)"

definition root_check :: "nat \<Rightarrow> nat \<Rightarrow> 'a::len word \<Rightarrow> bool" where
  "root_check d p w \<longleftrightarrow>
     (let x = length (filter (\<lambda>k. k ^ d \<le> p) [1, 2, 3, 4, 5, 6, 7]) * 2 ^ LENGTH('a) + unat w
      in x ^ d \<le> p * 2 ^ (d * LENGTH('a)) \<and> p * 2 ^ (d * LENGTH('a)) < (x + 1) ^ d)"

lemma frac_root_check:
  fixes w :: "'a::len word"
  assumes "root_check d p w" and "0 < d"
  shows "frac_root d p = w"
proof -
  define c where "c = length (filter (\<lambda>k. k ^ d \<le> p) [1, 2, 3, 4, 5, 6, 7])"
  define x where "x = c * 2 ^ LENGTH('a) + unat w"
  have lt: "unat w < 2 ^ LENGTH('a)" by simp
  have "c \<le> 7" unfolding c_def by (rule order_trans [OF length_filter_le]) simp
  then have "c * 2 ^ LENGTH('a) \<le> 7 * 2 ^ LENGTH('a)" by (rule mult_le_mono1)
  then have "x < 8 * 2 ^ LENGTH('a)" unfolding x_def using lt by linarith
  then have "x < 2 ^ (LENGTH('a) + 3)" by (simp add: power_add)
  moreover have "x ^ d \<le> p * 2 ^ (d * LENGTH('a))" "p * 2 ^ (d * LENGTH('a)) < (x + 1) ^ d"
    using assms(1) by (simp_all only: root_check_def Let_def flip: c_def x_def)
  ultimately have "iroot d (p * 2 ^ (d * LENGTH('a))) (LENGTH('a) + 3) 0 = x"
    using assms(2) by (intro iroot_eqI)
  then show ?thesis by (simp add: frac_root_def x_def)
qed

lemma map_frac_root:
  "list_all2 (root_check d) ps ws \<Longrightarrow> 0 < d \<Longrightarrow> map (frac_root d) ps = ws"
  by (induction rule: list_all2_induct) (simp_all add: frac_root_check)

definition fips_primes :: "nat list" where
  "fips_primes =
    [2, 3, 5, 7, 11, 13, 17, 19, 23, 29, 31, 37, 41, 43, 47, 53, 59, 61, 67, 71, 73, 79, 83,
     89, 97, 101, 103, 107, 109, 113, 127, 131, 137, 139, 149, 151, 157, 163, 167, 173, 179,
     181, 191, 193, 197, 199, 211, 223, 227, 229, 233, 239, 241, 251, 257, 263, 269, 271,
     277, 281, 283, 293, 307, 311, 313, 317, 331, 337, 347, 349, 353, 359, 367, 373, 379,
     383, 389, 397, 401, 409]"

definition fips_K256 :: "nat \<Rightarrow> u32" where
  "fips_K256 t = frac_root 3 (fips_primes ! t)"

definition fips_K512 :: "nat \<Rightarrow> u64" where
  "fips_K512 t = frac_root 3 (fips_primes ! t)"

text \<open>SHA-1's constants are \<open>2 ^ 30\<close> times the square roots of 2, 3, 5 and 10.\<close>

definition fips_K1 :: "nat \<Rightarrow> u32" where
  "fips_K1 t = word_of_nat (iroot 2
     ((if t < 20 then 2 else if t < 40 then 3 else if t < 60 then 5 else 10) * 2 ^ 60) 32 0)"

section \<open>Functions and schedules\<close>

definition fips_Ch :: "'a::len word \<Rightarrow> 'a word \<Rightarrow> 'a word \<Rightarrow> 'a word" where
  "fips_Ch x y z = (x AND y) XOR (NOT x AND z)"

definition fips_Maj :: "'a::len word \<Rightarrow> 'a word \<Rightarrow> 'a word \<Rightarrow> 'a word" where
  "fips_Maj x y z = (x AND y) XOR (x AND z) XOR (y AND z)"

definition fips_f :: "nat \<Rightarrow> u32 \<Rightarrow> u32 \<Rightarrow> u32 \<Rightarrow> u32" where
  "fips_f t x y z =
     (if t < 20 then fips_Ch x y z
      else if t < 40 then x XOR y XOR z
      else if t < 60 then fips_Maj x y z
      else x XOR y XOR z)"

definition Sigma0_256 :: "u32 \<Rightarrow> u32" where
  "Sigma0_256 x = word_rotr 2 x XOR word_rotr 13 x XOR word_rotr 22 x"

definition Sigma1_256 :: "u32 \<Rightarrow> u32" where
  "Sigma1_256 x = word_rotr 6 x XOR word_rotr 11 x XOR word_rotr 25 x"

definition sigma0_256 :: "u32 \<Rightarrow> u32" where
  "sigma0_256 x = word_rotr 7 x XOR word_rotr 18 x XOR drop_bit 3 x"

definition sigma1_256 :: "u32 \<Rightarrow> u32" where
  "sigma1_256 x = word_rotr 17 x XOR word_rotr 19 x XOR drop_bit 10 x"

definition Sigma0_512 :: "u64 \<Rightarrow> u64" where
  "Sigma0_512 x = word_rotr 28 x XOR word_rotr 34 x XOR word_rotr 39 x"

definition Sigma1_512 :: "u64 \<Rightarrow> u64" where
  "Sigma1_512 x = word_rotr 14 x XOR word_rotr 18 x XOR word_rotr 41 x"

definition sigma0_512 :: "u64 \<Rightarrow> u64" where
  "sigma0_512 x = word_rotr 1 x XOR word_rotr 8 x XOR drop_bit 7 x"

definition sigma1_512 :: "u64 \<Rightarrow> u64" where
  "sigma1_512 x = word_rotr 19 x XOR word_rotr 61 x XOR drop_bit 6 x"

function sha1_W :: "u32 list \<Rightarrow> nat \<Rightarrow> u32" where
  "sha1_W M t = (if t < 16 then M ! t
     else word_rotl 1 (sha1_W M (t - 3) XOR sha1_W M (t - 8) XOR sha1_W M (t - 14) XOR sha1_W M (t - 16)))"
  by pat_completeness auto
termination
  by (relation "measure (\<lambda>(M, t). t)") auto

function sha256_W :: "u32 list \<Rightarrow> nat \<Rightarrow> u32" where
  "sha256_W M t = (if t < 16 then M ! t
     else sigma1_256 (sha256_W M (t - 2)) + sha256_W M (t - 7) + sigma0_256 (sha256_W M (t - 15)) + sha256_W M (t - 16))"
  by pat_completeness auto
termination
  by (relation "measure (\<lambda>(M, t). t)") auto

function sha512_W :: "u64 list \<Rightarrow> nat \<Rightarrow> u64" where
  "sha512_W M t = (if t < 16 then M ! t
     else sigma1_512 (sha512_W M (t - 2)) + sha512_W M (t - 7) + sigma0_512 (sha512_W M (t - 15)) + sha512_W M (t - 16))"
  by pat_completeness auto
termination
  by (relation "measure (\<lambda>(M, t). t)") auto

declare sha1_W.simps [simp del] sha256_W.simps [simp del] sha512_W.simps [simp del]

section \<open>The compression functions\<close>

definition fips_sha1_step :: "u32 list \<Rightarrow> u32 \<times> u32 \<times> u32 \<times> u32 \<times> u32 \<Rightarrow> nat
    \<Rightarrow> u32 \<times> u32 \<times> u32 \<times> u32 \<times> u32" where
  "fips_sha1_step M = (\<lambda>(a, b, c, d, e) t.
     (word_rotl 5 a + fips_f t b c d + e + fips_K1 t + sha1_W M t, a, word_rotl 30 b, c, d))"

definition fips_sha1 :: "u32 list \<Rightarrow> u32 list \<Rightarrow> u32 list" where
  "fips_sha1 h M =
     (let (a, b, c, d, e) = foldl (fips_sha1_step M) (h ! 0, h ! 1, h ! 2, h ! 3, h ! 4) [0..<80]
      in h[0 := h ! 0 + a, 1 := h ! 1 + b, 2 := h ! 2 + c, 3 := h ! 3 + d, 4 := h ! 4 + e])"

type_synonym 'w sha2_tuple = "'w \<times> 'w \<times> 'w \<times> 'w \<times> 'w \<times> 'w \<times> 'w \<times> 'w"

text \<open>One round of SHA-2, from the two \<open>Sigma\<close> functions, \<open>K\<^sub>t\<close> and \<open>W\<^sub>t\<close>.\<close>

definition fips_sha2_round :: "('a::len word \<Rightarrow> 'a word) \<Rightarrow> ('a word \<Rightarrow> 'a word) \<Rightarrow> 'a word \<Rightarrow> 'a word
    \<Rightarrow> 'a word sha2_tuple \<Rightarrow> 'a word sha2_tuple" where
  "fips_sha2_round S0 S1 k w = (\<lambda>(a, b, c, d, e, f, g, h).
     let T1 = h + S1 e + fips_Ch e f g + k + w;
         T2 = S0 a + fips_Maj a b c
     in (T1 + T2, a, b, c, d + T1, e, f, g))"

definition fips_sha256 :: "u32 list \<Rightarrow> u32 list \<Rightarrow> u32 list" where
  "fips_sha256 H M =
     (let (a, b, c, d, e, f, g, h) =
        foldl (\<lambda>s t. fips_sha2_round Sigma0_256 Sigma1_256 (fips_K256 t) (sha256_W M t) s)
          (H ! 0, H ! 1, H ! 2, H ! 3, H ! 4, H ! 5, H ! 6, H ! 7) [0..<64]
      in H[0 := H ! 0 + a, 1 := H ! 1 + b, 2 := H ! 2 + c, 3 := H ! 3 + d,
           4 := H ! 4 + e, 5 := H ! 5 + f, 6 := H ! 6 + g, 7 := H ! 7 + h])"

definition fips_sha512 :: "u64 list \<Rightarrow> u64 list \<Rightarrow> u64 list" where
  "fips_sha512 H M =
     (let (a, b, c, d, e, f, g, h) =
        foldl (\<lambda>s t. fips_sha2_round Sigma0_512 Sigma1_512 (fips_K512 t) (sha512_W M t) s)
          (H ! 0, H ! 1, H ! 2, H ! 3, H ! 4, H ! 5, H ! 6, H ! 7) [0..<80]
      in H[0 := H ! 0 + a, 1 := H ! 1 + b, 2 := H ! 2 + c, 3 := H ! 3 + d,
           4 := H ! 4 + e, 5 := H ! 5 + f, 6 := H ! 6 + g, 7 := H ! 7 + h])"

lemma length_fips180 [len_simps]:
  "length (fips_sha1 H1 M1) = length H1" "length (fips_sha256 H1 M1) = length H1"
  "length (fips_sha512 H2 M2) = length H2"
  by (simp_all add: fips_sha1_def fips_sha256_def fips_sha512_def Let_def split: prod.split)

end
