(* ===== verification/Hash_Sha.thy ===== *)
theory Hash_Sha
  imports Hash_Md5 Fips180
begin

text \<open>
  The SHA-1, SHA-256 and SHA-512 compression functions of
  \<^verbatim>\<open>libbb/hash_md5_sha.c\<close>. SHA-1 keeps the message schedule in a circular array of
  sixteen words stored twice (\<^verbatim>\<open>W[16+16]\<close>) and computes it in place; the theory shows
  that it follows the eighty-word schedule of FIPS 180. SHA-256 and SHA-512 fill the whole
  schedule first. Each block function is proved equal to the compression function of
  \<open>Fips180\<close>, which shares no definition with the code: the rotations, the round functions
  and the constants are compared one by one, the table with the cube roots it comes from.
\<close>

definition rotr32 :: "u32 \<Rightarrow> nat \<Rightarrow> u32" where
  "rotr32 x n = drop_bit n x OR push_bit (32 - n) x"

definition rotr64 :: "u64 \<Rightarrow> nat \<Rightarrow> u64" where
  "rotr64 x n = drop_bit n x OR push_bit (64 - n) x"

section \<open>SHA-1 as the code computes it\<close>

definition rconsts :: "u32 list" where
  "rconsts = [0x5A827999, 0x6ED9EBA1, 0x8F1BBCDC, 0xCA62C1D6]"

record sha1_regs =
  s1W :: "u32 list"
  s1a :: u32
  s1b :: u32
  s1c :: u32
  s1d :: u32
  s1e :: u32
  s1cnt :: nat

text \<open>
  The statements at the label \<^verbatim>\<open>ge16\<close>: the next schedule word goes into both copies of
  its slot and is added to \<open>work\<close>.
\<close>

definition sha1_ge16 :: "sha1_regs \<Rightarrow> u32 \<Rightarrow> u32 list \<times> u32" where
  "sha1_ge16 s work =
     (let W = s1W s; cnt = s1cnt s;
          v = rotl32 (W ! (cnt + 13) XOR W ! (cnt + 8) XOR W ! (cnt + 2) XOR W ! cnt) 1;
          W = W[cnt + 16 := v, cnt := v]
      in (W, work + W ! cnt))"

definition sha1_body :: "nat \<Rightarrow> nat \<Rightarrow> sha1_regs \<Rightarrow> sha1_regs" where
  "sha1_body i j s =
     (let b = s1b s; c = s1c s; d = s1d s;
          work = c XOR d;
          (W, work) =
            (if i = 0 then
               (let work = (work AND b) XOR d in
                if j \<le> 3 then sha1_ge16 s work
                else (s1W s, work + s1W s ! s1cnt s))
             else
               sha1_ge16 s (if i = 2 then ((b OR c) AND d) OR (b AND c) else work XOR b));
          work = work + (s1e s + rotl32 (s1a s) 5 + rconsts ! i)
      in \<lparr>s1W = W, s1a = work, s1b = s1a s, s1c = rotl32 b 30, s1d = c, s1e = d,
          s1cnt = (s1cnt s + 1) mod 16\<rparr>)"

text \<open>\<^verbatim>\<open>do { ... } while (--j >= 0)\<close>: the counter is \<open>j + 1\<close>.\<close>

fun sha1_inner :: "nat \<Rightarrow> nat \<Rightarrow> sha1_regs \<Rightarrow> sha1_regs" where
  "sha1_inner i 0 s = s"
| "sha1_inner i (Suc j) s = sha1_inner i j (sha1_body i j s)"

definition sha1_block :: "u32 list \<Rightarrow> u32 list \<Rightarrow> u32 list" where
  "sha1_block h words =
     (let W = map bswap (take 16 words);
          s = \<lparr>s1W = W @ W, s1a = h ! 0, s1b = h ! 1, s1c = h ! 2, s1d = h ! 3, s1e = h ! 4, s1cnt = 0\<rparr>;
          s = foldl (\<lambda>s i. sha1_inner i 20 s) s [0..<4]
      in h[0 := h ! 0 + s1a s, 1 := h ! 1 + s1b s, 2 := h ! 2 + s1c s, 3 := h ! 3 + s1d s,
           4 := h ! 4 + s1e s])"

section \<open>SHA-256\<close>

definition K :: "u64 \<Rightarrow> u64" where
  "K v = v"

definition sha_K :: "u64 list" where
  "sha_K = [
    K 0x428a2f98d728ae22, K 0x7137449123ef65cd,
    K 0xb5c0fbcfec4d3b2f, K 0xe9b5dba58189dbbc,
    K 0x3956c25bf348b538, K 0x59f111f1b605d019,
    K 0x923f82a4af194f9b, K 0xab1c5ed5da6d8118,
    K 0xd807aa98a3030242, K 0x12835b0145706fbe,
    K 0x243185be4ee4b28c, K 0x550c7dc3d5ffb4e2,
    K 0x72be5d74f27b896f, K 0x80deb1fe3b1696b1,
    K 0x9bdc06a725c71235, K 0xc19bf174cf692694,
    K 0xe49b69c19ef14ad2, K 0xefbe4786384f25e3,
    K 0x0fc19dc68b8cd5b5, K 0x240ca1cc77ac9c65,
    K 0x2de92c6f592b0275, K 0x4a7484aa6ea6e483,
    K 0x5cb0a9dcbd41fbd4, K 0x76f988da831153b5,
    K 0x983e5152ee66dfab, K 0xa831c66d2db43210,
    K 0xb00327c898fb213f, K 0xbf597fc7beef0ee4,
    K 0xc6e00bf33da88fc2, K 0xd5a79147930aa725,
    K 0x06ca6351e003826f, K 0x142929670a0e6e70,
    K 0x27b70a8546d22ffc, K 0x2e1b21385c26c926,
    K 0x4d2c6dfc5ac42aed, K 0x53380d139d95b3df,
    K 0x650a73548baf63de, K 0x766a0abb3c77b2a8,
    K 0x81c2c92e47edaee6, K 0x92722c851482353b,
    K 0xa2bfe8a14cf10364, K 0xa81a664bbc423001,
    K 0xc24b8b70d0f89791, K 0xc76c51a30654be30,
    K 0xd192e819d6ef5218, K 0xd69906245565a910,
    K 0xf40e35855771202a, K 0x106aa07032bbd1b8,
    K 0x19a4c116b8d2d0c8, K 0x1e376c085141ab53,
    K 0x2748774cdf8eeb99, K 0x34b0bcb5e19b48a8,
    K 0x391c0cb3c5c95a63, K 0x4ed8aa4ae3418acb,
    K 0x5b9cca4f7763e373, K 0x682e6ff3d6b2b8a3,
    K 0x748f82ee5defb2fc, K 0x78a5636f43172f60,
    K 0x84c87814a1f0ab72, K 0x8cc702081a6439ec,
    K 0x90befffa23631e28, K 0xa4506cebde82bde9,
    K 0xbef9a3f7b2c67915, K 0xc67178f2e372532b,
    K 0xca273eceea26619c, K 0xd186b8c721c0c207,
    K 0xeada7dd6cde0eb1e, K 0xf57d4f7fee6ed178,
    K 0x06f067aa72176fba, K 0x0a637dc5a2c898a6,
    K 0x113f9804bef90dae, K 0x1b710b35131c471b,
    K 0x28db77f523047d84, K 0x32caab7b40c72493,
    K 0x3c9ebe0a15c9bebc, K 0x431d67c49c100d4c,
    K 0x4cc5d4becb3e42b6, K 0x597f299cfc657e2a,
    K 0x5fcb6fab3ad6faec, K 0x6c44198c4a475817]"

definition Ch :: "'a::len word \<Rightarrow> 'a word \<Rightarrow> 'a word \<Rightarrow> 'a word" where
  "Ch x y z = (x AND y) XOR (NOT x AND z)"

definition Maj :: "'a::len word \<Rightarrow> 'a word \<Rightarrow> 'a word \<Rightarrow> 'a word" where
  "Maj x y z = (x AND y) XOR (x AND z) XOR (y AND z)"

definition S0_256 :: "u32 \<Rightarrow> u32" where
  "S0_256 x = rotr32 x 2 XOR rotr32 x 13 XOR rotr32 x 22"

definition S1_256 :: "u32 \<Rightarrow> u32" where
  "S1_256 x = rotr32 x 6 XOR rotr32 x 11 XOR rotr32 x 25"

definition R0_256 :: "u32 \<Rightarrow> u32" where
  "R0_256 x = rotr32 x 7 XOR rotr32 x 18 XOR drop_bit 3 x"

definition R1_256 :: "u32 \<Rightarrow> u32" where
  "R1_256 x = rotr32 x 17 XOR rotr32 x 19 XOR drop_bit 10 x"

text \<open>
  The schedule loop fills \<^verbatim>\<open>W[t]\<close> for increasing \<open>t\<close>; the list holds the entries
  filled so far.
\<close>

definition sha256_schedule :: "u32 list \<Rightarrow> u32 list" where
  "sha256_schedule words =
     foldl (\<lambda>W t. W @ [R1_256 (W ! (t - 2)) + W ! (t - 7) + R0_256 (W ! (t - 15)) + W ! (t - 16)])
       (map bswap (take 16 words)) [16..<64]"

record 'w sha2_regs =
  s2a :: 'w
  s2b :: 'w
  s2c :: 'w
  s2d :: 'w
  s2e :: 'w
  s2f :: 'w
  s2g :: 'w
  s2h :: 'w

definition sha256_step :: "u32 list \<Rightarrow> u32 sha2_regs \<Rightarrow> nat \<Rightarrow> u32 sha2_regs" where
  "sha256_step W s t =
     (let K_t = ucast (drop_bit 32 (sha_K ! t));
          T1 = s2h s + S1_256 (s2e s) + Ch (s2e s) (s2f s) (s2g s) + K_t + W ! t;
          T2 = S0_256 (s2a s) + Maj (s2a s) (s2b s) (s2c s)
      in \<lparr>s2a = T1 + T2, s2b = s2a s, s2c = s2b s, s2d = s2c s,
          s2e = s2d s + T1, s2f = s2e s, s2g = s2f s, s2h = s2g s\<rparr>)"

definition sha2_start :: "'w list \<Rightarrow> 'w sha2_regs" where
  "sha2_start h = \<lparr>s2a = h ! 0, s2b = h ! 1, s2c = h ! 2, s2d = h ! 3,
     s2e = h ! 4, s2f = h ! 5, s2g = h ! 6, s2h = h ! 7\<rparr>"

definition sha2_add_back :: "'w::plus list \<Rightarrow> 'w sha2_regs \<Rightarrow> 'w list" where
  "sha2_add_back h s = h[0 := h ! 0 + s2a s, 1 := h ! 1 + s2b s, 2 := h ! 2 + s2c s,
     3 := h ! 3 + s2d s, 4 := h ! 4 + s2e s, 5 := h ! 5 + s2f s, 6 := h ! 6 + s2g s,
     7 := h ! 7 + s2h s]"

definition sha256_block :: "u32 list \<Rightarrow> u32 list \<Rightarrow> u32 list" where
  "sha256_block h words =
     sha2_add_back h (foldl (sha256_step (sha256_schedule words)) (sha2_start h) [0..<64])"

section \<open>SHA-512\<close>

definition S0_512 :: "u64 \<Rightarrow> u64" where
  "S0_512 x = rotr64 x 28 XOR rotr64 x 34 XOR rotr64 x 39"

definition S1_512 :: "u64 \<Rightarrow> u64" where
  "S1_512 x = rotr64 x 14 XOR rotr64 x 18 XOR rotr64 x 41"

definition R0_512 :: "u64 \<Rightarrow> u64" where
  "R0_512 x = rotr64 x 1 XOR rotr64 x 8 XOR drop_bit 7 x"

definition R1_512 :: "u64 \<Rightarrow> u64" where
  "R1_512 x = rotr64 x 19 XOR rotr64 x 61 XOR drop_bit 6 x"

definition sha512_schedule :: "u64 list \<Rightarrow> u64 list" where
  "sha512_schedule words =
     foldl (\<lambda>W t. W @ [R1_512 (W ! (t - 2)) + W ! (t - 7) + R0_512 (W ! (t - 15)) + W ! (t - 16)])
       (map bswap (take 16 words)) [16..<80]"

definition sha512_step :: "u64 list \<Rightarrow> u64 sha2_regs \<Rightarrow> nat \<Rightarrow> u64 sha2_regs" where
  "sha512_step W s t =
     (let T1 = s2h s + S1_512 (s2e s) + Ch (s2e s) (s2f s) (s2g s) + sha_K ! t + W ! t;
          T2 = S0_512 (s2a s) + Maj (s2a s) (s2b s) (s2c s)
      in \<lparr>s2a = T1 + T2, s2b = s2a s, s2c = s2b s, s2d = s2c s,
          s2e = s2d s + T1, s2f = s2e s, s2g = s2f s, s2h = s2g s\<rparr>)"

definition sha512_block :: "u64 list \<Rightarrow> u64 list \<Rightarrow> u64 list" where
  "sha512_block h words =
     sha2_add_back h (foldl (sha512_step (sha512_schedule words)) (sha2_start h) [0..<80])"

section \<open>The code's primitives and constants against the standard's\<close>

lemma rotr32_word_rotr: "n < 32 \<Longrightarrow> rotr32 x n = word_rotr n x"
  by (simp add: rotr32_def word_rotr_shifts)

lemma rotr64_word_rotr: "n < 64 \<Longrightarrow> rotr64 x n = word_rotr n x"
  by (simp add: rotr64_def word_rotr_shifts)

lemma sha_functions_fips:
  "Ch x y z = fips_Ch x y z" "Maj x y z = fips_Maj x y z"
  by (simp_all add: Ch_def Maj_def fips_Ch_def fips_Maj_def)

lemma sha256_functions_fips:
  "S0_256 x = Sigma0_256 x" "S1_256 x = Sigma1_256 x"
  "R0_256 x = sigma0_256 x" "R1_256 x = sigma1_256 x"
  by (simp_all add: S0_256_def S1_256_def R0_256_def R1_256_def Sigma0_256_def Sigma1_256_def
      sigma0_256_def sigma1_256_def rotr32_word_rotr)

lemma sha512_functions_fips:
  "S0_512 x = Sigma0_512 x" "S1_512 x = Sigma1_512 x"
  "R0_512 x = sigma0_512 x" "R1_512 x = sigma1_512 x"
  by (simp_all add: S0_512_def S1_512_def R0_512_def R1_512_def Sigma0_512_def Sigma1_512_def
      sigma0_512_def sigma1_512_def rotr64_word_rotr)

lemma sha_K_roots: "map (frac_root 3) fips_primes = sha_K"
  by (rule map_frac_root) (simp_all add: fips_primes_def sha_K_def K_def root_check_def)

lemma sha_K_upper_roots:
  "map (frac_root 3) (take 64 fips_primes) = (map (\<lambda>k. ucast (drop_bit 32 k)) (take 64 sha_K) :: u32 list)"
  by (rule map_frac_root) (simp_all add: fips_primes_def sha_K_def K_def root_check_def drop_bit_eq_div)

lemma sha_tables: "length sha_K = 80" "length fips_primes = 80"
  by (simp_all add: sha_K_def fips_primes_def)

lemma sha_K_fips512: "t < 80 \<Longrightarrow> sha_K ! t = fips_K512 t"
  by (simp add: sha_tables fips_K512_def flip: sha_K_roots)

lemma sha_K_fips256: "t < 64 \<Longrightarrow> ucast (drop_bit 32 (sha_K ! t)) = fips_K256 t"
  using arg_cong [OF sha_K_upper_roots, of "\<lambda>l. l ! t"]
  by (simp add: sha_tables fips_K256_def)

lemma rconsts_roots: "iroot 2 (2 * 2 ^ 60) 32 0 = 0x5A827999" "iroot 2 (3 * 2 ^ 60) 32 0 = 0x6ED9EBA1"
  "iroot 2 (5 * 2 ^ 60) 32 0 = 0x8F1BBCDC" "iroot 2 (10 * 2 ^ 60) 32 0 = 0xCA62C1D6"
  by (rule iroot_eqI; simp)+

lemma rconsts_fips:
  assumes "i < 4" and "t div 20 = i"
  shows "rconsts ! i = fips_K1 t"
proof -
  consider "i = 0" "t < 20" | "i = 1" "20 \<le> t" "t < 40" | "i = 2" "40 \<le> t" "t < 60" | "i = 3" "60 \<le> t"
    using assms by fastforce
  then show ?thesis
    by cases (simp_all add: fips_K1_def rconsts_def rconsts_roots [simplified])
qed

section \<open>The circular SHA-1 schedule\<close>

text \<open>
  Before step \<open>t\<close> every slot of the doubled array whose index is congruent to \<open>m\<close> holds
  schedule word \<open>m\<close>, for the sixteen most recent \<open>m\<close>.
\<close>

definition sha1_window :: "u32 list \<Rightarrow> nat \<Rightarrow> u32 list \<Rightarrow> bool" where
  "sha1_window M t W \<longleftrightarrow> length W = 32 \<and>
     (\<forall>k < 32. \<forall>m. m mod 16 = k mod 16 \<and> t \<le> m + 16 \<and> (m < t \<or> m < 16) \<longrightarrow> W ! k = sha1_W M m)"

lemma sha1_window_nth:
  "sha1_window M t W \<Longrightarrow> k < 32 \<Longrightarrow> m mod 16 = k mod 16 \<Longrightarrow> t \<le> m + 16 \<Longrightarrow> m < t \<or> m < 16
    \<Longrightarrow> W ! k = sha1_W M m"
  unfolding sha1_window_def by blast

lemma sha1_window_start:
  assumes "length M = 16"
  shows "sha1_window M 0 (M @ M)"
proof -
  have "(M @ M) ! k = sha1_W M m" if "k < 32" "m mod 16 = k mod 16" "m < 16" for k m
  proof -
    have "m = k \<or> m = k - 16 \<and> 16 \<le> k"
      using that by (cases "k < 16") (auto simp: le_mod_geq)
    then show ?thesis
      using that assms by (auto simp: sha1_W.simps nth_append)
  qed
  then show ?thesis
    unfolding sha1_window_def using assms by auto
qed

lemma mod16_back: "k \<le> t \<Longrightarrow> k \<le> 16 \<Longrightarrow> (t - k) mod 16 = (t mod 16 + (16 - k)) mod 16" for t :: nat
proof -
  assume k: "k \<le> t" "k \<le> 16"
  then have "t + (16 - k) = (t - k) + 16" by simp
  then have "(t - k) mod 16 = (t + (16 - k)) mod 16"
    by (metis mod_add_self2)
  then show ?thesis by (simp add: mod_add_left_eq)
qed

lemma mod16_distinct: "m < t \<Longrightarrow> t < m + 16 \<Longrightarrow> m mod 16 \<noteq> t mod 16" for t :: nat
proof
  assume m: "m < t" "t < m + 16" and "m mod 16 = t mod 16"
  then have "16 dvd t - m"
    by (metis less_imp_le_nat mod_eq_dvd_iff_nat)
  then show False using m by (auto dest: dvd_imp_le)
qed

lemma sha1_window_next:
  assumes win: "sha1_window M t W" and t: "16 \<le> t"
  shows "rotl32 (W ! (t mod 16 + 13) XOR W ! (t mod 16 + 8) XOR W ! (t mod 16 + 2) XOR W ! (t mod 16)) 1
    = sha1_W M t"
proof -
  have lt: "t mod 16 < 16" by simp
  have m: "(t - 3) mod 16 = (t mod 16 + 13) mod 16" "(t - 8) mod 16 = (t mod 16 + 8) mod 16"
    "(t - 14) mod 16 = (t mod 16 + 2) mod 16" "(t - 16) mod 16 = (t mod 16) mod 16"
    using t mod16_back [of 3 t] mod16_back [of 8 t] mod16_back [of 14 t] mod16_back [of 16 t]
    by simp_all
  have "W ! (t mod 16 + 13) = sha1_W M (t - 3)"
    using t lt m(1) by (intro sha1_window_nth [OF win]) linarith+
  moreover have "W ! (t mod 16 + 8) = sha1_W M (t - 8)"
    using t lt m(2) by (intro sha1_window_nth [OF win]) linarith+
  moreover have "W ! (t mod 16 + 2) = sha1_W M (t - 14)"
    using t lt m(3) by (intro sha1_window_nth [OF win]) linarith+
  moreover have "W ! (t mod 16) = sha1_W M (t - 16)"
    using t lt m(4) by (intro sha1_window_nth [OF win]) linarith+
  ultimately show ?thesis
    using t by (simp add: sha1_W.simps [of M t] rotl32_word_rotl)
qed

lemma sha1_window_keep: "sha1_window M t W \<Longrightarrow> t < 16 \<Longrightarrow> sha1_window M (Suc t) W"
  by (auto simp: sha1_window_def)

lemma sha1_window_store:
  assumes win: "sha1_window M t W" and t: "16 \<le> t"
  shows "sha1_window M (Suc t) (W[t mod 16 + 16 := sha1_W M t, t mod 16 := sha1_W M t])"
    (is "sha1_window M _ ?W")
proof -
  have len: "length W = 32" using win by (simp add: sha1_window_def)
  have "?W ! k = sha1_W M m"
    if k: "k < 32" and m: "m mod 16 = k mod 16" "Suc t \<le> m + 16" "m < Suc t \<or> m < 16" for k m
  proof (cases "m = t")
    case True
    then have "k = t mod 16 \<or> k = t mod 16 + 16"
      using k m(1) by (cases "k < 16") (auto simp: le_mod_geq)
    then show ?thesis using True len k by (auto simp: nth_list_update)
  next
    case False
    have "m mod 16 \<noteq> t mod 16"
      using False m(2,3) t by (intro mod16_distinct) auto
    then have "k \<noteq> t mod 16" and "k \<noteq> t mod 16 + 16"
      using m(1) by auto
    then have "?W ! k = W ! k" by simp
    also have "\<dots> = sha1_W M m"
      using False m k t by (intro sha1_window_nth [OF win]) linarith+
    finally show ?thesis .
  qed
  then show ?thesis using len by (simp add: sha1_window_def)
qed

lemma Ch_select: "((c XOR d) AND b) XOR d = fips_Ch b c d"
  unfolding fips_Ch_def by (rule bit_word_eqI) (auto simp: bit_simps)

lemma Maj_select: "((b OR c) AND d) OR (b AND c) = fips_Maj b c d"
  unfolding fips_Maj_def by (rule bit_word_eqI) (auto simp: bit_simps)

lemma fips_f_code:
  assumes "i < 4" and "20 * i \<le> t" and "t < 20 * i + 20"
  shows "fips_f t b c d =
    (if i = 0 then ((c XOR d) AND b) XOR d
     else if i = 2 then ((b OR c) AND d) OR (b AND c)
     else (c XOR d) XOR b)"
proof -
  have par: "(c XOR d) XOR b = b XOR c XOR d"
    by (simp add: ac_simps)
  consider "i = 0" | "i = 1" | "i = 2" | "i = 3"
    using assms(1) by linarith
  then show ?thesis
    by cases (use assms(2,3) in \<open>simp_all add: fips_f_def Ch_select Maj_select par\<close>)
qed

text \<open>The relation between the code's registers before step \<open>t\<close> and the reference state.\<close>

definition sha1_rel :: "u32 list \<Rightarrow> nat \<Rightarrow> sha1_regs \<Rightarrow> u32 \<times> u32 \<times> u32 \<times> u32 \<times> u32 \<Rightarrow> bool" where
  "sha1_rel M t s r \<longleftrightarrow> sha1_window M t (s1W s) \<and> s1cnt s = t mod 16
     \<and> r = (s1a s, s1b s, s1c s, s1d s, s1e s)"

lemma sha1_body_rel:
  assumes rel: "sha1_rel M t s r" and ij: "i < 4" "j < 20" "t = 20 * i + (19 - j)"
  shows "sha1_rel M (Suc t) (sha1_body i j s) (fips_sha1_step M r t)"
proof -
  have div: "t div 20 = i"
    by (rule div_nat_eqI) (use ij in simp_all)
  have Kt: "rconsts ! i = fips_K1 t" using ij(1) div by (rule rconsts_fips)
  have cnt: "(s1cnt s + 1) mod 16 = Suc t mod 16"
    using rel by (simp add: sha1_rel_def mod_Suc_eq)
  have win: "sha1_window M t (s1W s)" using rel by (simp add: sha1_rel_def)
  have f: "fips_f t (s1b s) (s1c s) (s1d s) =
      (if i = 0 then ((s1c s XOR s1d s) AND s1b s) XOR s1d s
       else if i = 2 then ((s1b s OR s1c s) AND s1d s) OR (s1b s AND s1c s)
       else (s1c s XOR s1d s) XOR s1b s)"
    by (rule fips_f_code) (use ij in linarith)+
  show ?thesis
  proof (cases "16 \<le> t")
    case True
    then have ge16: "i = 0 \<Longrightarrow> j \<le> 3" using ij by linarith
    have "sha1_ge16 s w = ((s1W s)[t mod 16 + 16 := sha1_W M t, t mod 16 := sha1_W M t], w + sha1_W M t)" for w
      using sha1_window_next [OF win True] rel win
      by (simp add: sha1_ge16_def Let_def sha1_rel_def sha1_window_def)
    then show ?thesis
      using rel cnt Kt f ge16 sha1_window_store [OF win True]
      by (simp add: sha1_rel_def sha1_body_def fips_sha1_step_def Let_def rotl32_word_rotl ac_simps split: if_splits)
  next
    case False
    then have i: "i = 0" "\<not> j \<le> 3" using ij by auto
    have "s1W s ! s1cnt s = sha1_W M t"
      using False rel by (intro sha1_window_nth [OF win]) (auto simp: sha1_rel_def)
    then show ?thesis
      using rel cnt Kt f i False sha1_window_keep [OF win]
      by (simp add: sha1_rel_def sha1_body_def fips_sha1_step_def Let_def rotl32_word_rotl ac_simps)
  qed
qed

lemma sha1_inner_rel:
  assumes "sha1_rel M (20 * i + (20 - n)) s r" and "i < 4" and "n \<le> 20"
  shows "sha1_rel M (20 * i + 20) (sha1_inner i n s)
    (foldl (fips_sha1_step M) r [20 * i + (20 - n)..<20 * i + 20])"
  using assms
proof (induction n arbitrary: s r)
  case 0
  then show ?case by simp
next
  case (Suc j)
  let ?t = "20 * i + (20 - Suc j)"
  have "sha1_rel M (Suc ?t) (sha1_body i j s) (fips_sha1_step M r ?t)"
    using Suc.prems by (intro sha1_body_rel) auto
  moreover have "Suc ?t = 20 * i + (20 - j)" using Suc.prems by simp
  moreover have "[?t..<20 * i + 20] = ?t # [Suc ?t..<20 * i + 20]"
    by (rule upt_conv_Cons) simp
  ultimately show ?case
    using Suc.IH [of "sha1_body i j s" "fips_sha1_step M r ?t"] Suc.prems by simp
qed

lemma sha1_outer_rel:
  assumes "sha1_rel M 0 s r" and "n \<le> 4"
  shows "sha1_rel M (20 * n) (foldl (\<lambda>s i. sha1_inner i 20 s) s [0..<n])
    (foldl (fips_sha1_step M) r [0..<20 * n])"
  using assms(2)
proof (induction n)
  case 0
  then show ?case using assms(1) by simp
next
  case (Suc n)
  have "[0..<20 * Suc n] = [0..<20 * n] @ [20 * n + (20 - 20)..<20 * n + 20]"
    using upt_add_eq_append [of 0 "20 * n" 20] by (simp add: add.commute)
  then show ?case
    using Suc sha1_inner_rel [of M n 20] by (simp add: add.commute)
qed

lemma sha1_block_fips:
  assumes "length words = 16"
  shows "sha1_block h words = fips_sha1 h (map bswap words)"
proof -
  let ?M = "map bswap words"
  let ?s = "\<lparr>s1W = ?M @ ?M, s1a = h ! 0, s1b = h ! 1, s1c = h ! 2, s1d = h ! 3, s1e = h ! 4, s1cnt = 0\<rparr>"
  have "sha1_rel ?M 0 ?s (h ! 0, h ! 1, h ! 2, h ! 3, h ! 4)"
    using sha1_window_start [of ?M] assms by (simp add: sha1_rel_def)
  then have "sha1_rel ?M (20 * 4) (foldl (\<lambda>s i. sha1_inner i 20 s) ?s [0..<4])
      (foldl (fips_sha1_step ?M) (h ! 0, h ! 1, h ! 2, h ! 3, h ! 4) [0..<20 * 4])"
    by (intro sha1_outer_rel) simp_all
  then show ?thesis
    using assms by (simp add: sha1_block_def fips_sha1_def Let_def sha1_rel_def del: upt_rec_numeral)
qed

section \<open>The SHA-2 schedules\<close>

lemma sha256_schedule_prefix:
  assumes "length words = 16" and "n \<le> 48"
  shows "foldl (\<lambda>W t. W @ [R1_256 (W ! (t - 2)) + W ! (t - 7) + R0_256 (W ! (t - 15)) + W ! (t - 16)])
      (map bswap words) [16..<16 + n] = map (sha256_W (map bswap words)) [0..<16 + n]"
  using assms(2)
proof (induction n)
  case 0
  have "map bswap words = map (sha256_W (map bswap words)) [0..<16]"
    by (rule nth_equalityI) (simp_all add: assms(1) sha256_W.simps)
  then show ?case by simp
next
  case (Suc n)
  have "[0..<16 + Suc n] = [0..<16 + n] @ [16 + n]"
    by (simp only: add_Suc_right upt_Suc) simp
  moreover have "[16..<16 + Suc n] = [16..<16 + n] @ [16 + n]"
    by (simp only: add_Suc_right upt_Suc) simp
  ultimately show ?case
    using Suc by (simp add: sha256_W.simps [of _ "16 + n"] sha256_functions_fips del: upt_Suc)
qed

lemma sha512_schedule_prefix:
  assumes "length words = 16" and "n \<le> 64"
  shows "foldl (\<lambda>W t. W @ [R1_512 (W ! (t - 2)) + W ! (t - 7) + R0_512 (W ! (t - 15)) + W ! (t - 16)])
      (map bswap words) [16..<16 + n] = map (sha512_W (map bswap words)) [0..<16 + n]"
  using assms(2)
proof (induction n)
  case 0
  have "map bswap words = map (sha512_W (map bswap words)) [0..<16]"
    by (rule nth_equalityI) (simp_all add: assms(1) sha512_W.simps)
  then show ?case by simp
next
  case (Suc n)
  have "[0..<16 + Suc n] = [0..<16 + n] @ [16 + n]"
    by (simp only: add_Suc_right upt_Suc) simp
  moreover have "[16..<16 + Suc n] = [16..<16 + n] @ [16 + n]"
    by (simp only: add_Suc_right upt_Suc) simp
  ultimately show ?case
    using Suc by (simp add: sha512_W.simps [of _ "16 + n"] sha512_functions_fips del: upt_Suc)
qed

section \<open>The SHA-2 rounds\<close>

text \<open>The code's eight registers as the tuple of the standard.\<close>

definition sha2_tuple :: "'w sha2_regs \<Rightarrow> 'w sha2_tuple" where
  "sha2_tuple s = (s2a s, s2b s, s2c s, s2d s, s2e s, s2f s, s2g s, s2h s)"

lemma sha256_step_fips:
  "t < 64 \<Longrightarrow> sha2_tuple (sha256_step W s t) =
    fips_sha2_round Sigma0_256 Sigma1_256 (fips_K256 t) (W ! t) (sha2_tuple s)"
  by (simp add: sha2_tuple_def sha256_step_def fips_sha2_round_def Let_def sha_K_fips256
      sha256_functions_fips sha_functions_fips)

lemma sha512_step_fips:
  "t < 80 \<Longrightarrow> sha2_tuple (sha512_step W s t) =
    fips_sha2_round Sigma0_512 Sigma1_512 (fips_K512 t) (W ! t) (sha2_tuple s)"
  by (simp add: sha2_tuple_def sha512_step_def fips_sha2_round_def Let_def sha_K_fips512
      sha512_functions_fips sha_functions_fips)

lemma foldl_simulation:
  "(\<And>t s. t \<in> set ts \<Longrightarrow> r (f s t) = g (r s) t) \<Longrightarrow> r (foldl f s ts) = foldl g (r s) ts"
  by (induction ts arbitrary: s) simp_all

lemma sha256_rounds_fips:
  "sha2_tuple (foldl (sha256_step (map (sha256_W M) [0..<64])) s [0..<64]) =
    foldl (\<lambda>s t. fips_sha2_round Sigma0_256 Sigma1_256 (fips_K256 t) (sha256_W M t) s) (sha2_tuple s) [0..<64]"
  by (rule foldl_simulation) (simp add: sha256_step_fips del: upt_rec_numeral)

lemma sha512_rounds_fips:
  "sha2_tuple (foldl (sha512_step (map (sha512_W M) [0..<80])) s [0..<80]) =
    foldl (\<lambda>s t. fips_sha2_round Sigma0_512 Sigma1_512 (fips_K512 t) (sha512_W M t) s) (sha2_tuple s) [0..<80]"
  by (rule foldl_simulation) (simp add: sha512_step_fips del: upt_rec_numeral)

lemma sha2_tuple_start:
  "sha2_tuple (sha2_start H) = (H ! 0, H ! 1, H ! 2, H ! 3, H ! 4, H ! 5, H ! 6, H ! 7)"
  by (simp add: sha2_tuple_def sha2_start_def)

lemma sha256_block_fips:
  assumes "length words = 16"
  shows "sha256_block h words = fips_sha256 h (map bswap words)"
proof -
  let ?M = "map bswap words"
  have "sha256_schedule words = map (sha256_W ?M) [0..<64]"
    using sha256_schedule_prefix [OF assms, of 48] assms
    by (simp add: sha256_schedule_def del: upt_rec_numeral)
  then show ?thesis
    unfolding sha256_block_def fips_sha256_def
      sha256_rounds_fips [of ?M "sha2_start h", unfolded sha2_tuple_start, symmetric]
    by (simp add: sha2_add_back_def sha2_tuple_def del: upt_rec_numeral)
qed

lemma sha512_block_fips:
  assumes "length words = 16"
  shows "sha512_block h words = fips_sha512 h (map bswap words)"
proof -
  let ?M = "map bswap words"
  have "sha512_schedule words = map (sha512_W ?M) [0..<80]"
    using sha512_schedule_prefix [OF assms, of 64] assms
    by (simp add: sha512_schedule_def del: upt_rec_numeral)
  then show ?thesis
    unfolding sha512_block_def fips_sha512_def
      sha512_rounds_fips [of ?M "sha2_start h", unfolded sha2_tuple_start, symmetric]
    by (simp add: sha2_add_back_def sha2_tuple_def del: upt_rec_numeral)
qed

lemma length_sha1_block [len_simps]: "length (sha1_block h words) = length h"
  by (simp add: sha1_block_def Let_def)

lemma length_sha256_block [len_simps]: "length (sha256_block h words) = length h"
  by (simp add: sha256_block_def sha2_add_back_def)

lemma length_sha512_block [len_simps]: "length (sha512_block h words) = length h"
  by (simp add: sha512_block_def sha2_add_back_def)

end
