(* ===== verification/Absorb.thy ===== *)
theory Absorb
  imports Prelude
begin

text \<open>
  Two interfaces of the hash functions. \<open>absorb_loop\<close> is what the buffering loops of
  \<^verbatim>\<open>md5_hash\<close>, \<^verbatim>\<open>sha512_hash\<close> and \<^verbatim>\<open>sha3_hash\<close> share, whatever
  putting bytes into the buffer means (copying, or XOR into the sponge state).
  \<open>stream_hash\<close> is what their callers rely on: updates compose.
\<close>

section \<open>The buffering loop, as an interface\<close>

text \<open>
  \<open>ins p xs c\<close> puts bytes at position \<open>p\<close> of the context's buffer, \<open>process\<close> consumes a full
  buffer, \<open>loop p xs c\<close> is the \<^verbatim>\<open>while (1)\<close> of a \<^verbatim>\<open>*_hash\<close> function started with
  \<^verbatim>\<open>bufpos = p\<close>.
\<close>

locale absorb_loop =
  fixes B :: nat
    and ok :: "'c \<Rightarrow> bool"
    and ins :: "nat \<Rightarrow> bytes \<Rightarrow> 'c \<Rightarrow> 'c"
    and process :: "'c \<Rightarrow> 'c"
    and loop :: "nat \<Rightarrow> bytes \<Rightarrow> 'c \<Rightarrow> 'c"
  assumes B_pos: "0 < B"
    and ins_Nil: "ok c \<Longrightarrow> ins p [] c = c"
    and ins_append: "ok c \<Longrightarrow> p + length xs + length ys \<le> B \<Longrightarrow>
      ins (p + length xs) ys (ins p xs c) = ins p (xs @ ys) c"
    and ok_ins: "ok c \<Longrightarrow> p + length xs \<le> B \<Longrightarrow> ok (ins p xs c)"
    and ok_process: "ok c \<Longrightarrow> ok (process c)"
    and loop_eq: "ok c \<Longrightarrow> p < B \<Longrightarrow> loop p buf c =
      (let remaining = min (B - p) (length buf) in
       if p + remaining = B
       then loop 0 (drop remaining buf) (process (ins p (take remaining buf) c))
       else ins p (take remaining buf) c)"
begin

lemma loop_short: "ok c \<Longrightarrow> p + length buf < B \<Longrightarrow> loop p buf c = ins p buf c"
  by (subst loop_eq) (auto simp: Let_def min_def)

lemma loop_fill:
  assumes "ok c" and "p < B" and "p + length blk = B"
  shows "loop p (blk @ buf) c = loop 0 buf (process (ins p blk c))"
proof -
  have "min (B - p) (length (blk @ buf)) = length blk" using assms by simp
  then show ?thesis using assms by (subst loop_eq) (simp_all add: Let_def)
qed

lemma ok_loop: "ok c \<Longrightarrow> p < B \<Longrightarrow> ok (loop p buf c)"
proof (induction "length buf" arbitrary: p buf c rule: less_induct)
  case less
  show ?case
  proof (cases "p + length buf < B")
    case True
    then show ?thesis using less.prems by (simp add: loop_short ok_ins)
  next
    case False
    define blk where "blk = take (B - p) buf"
    have blk: "buf = blk @ drop (B - p) buf" "p + length blk = B"
      using False less.prems by (auto simp: blk_def)
    have "ok (process (ins p blk c))"
      using less.prems blk(2) by (simp add: ok_process ok_ins)
    then have "ok (loop 0 (drop (B - p) buf) (process (ins p blk c)))"
      using False less.prems B_pos by (intro less.hyps) auto
    then show ?thesis using loop_fill [OF less.prems blk(2)] blk(1) by metis
  qed
qed

text \<open>Feeding a concatenation is feeding the parts one after the other.\<close>

lemma loop_append:
  "ok c \<Longrightarrow> p < B \<Longrightarrow> loop p (xs @ ys) c = loop ((p + length xs) mod B) ys (loop p xs c)"
proof (induction "length xs" arbitrary: p xs c rule: less_induct)
  case less
  show ?case
  proof (cases "p + length xs < B")
    case True
    show ?thesis
    proof (cases "p + length xs + length ys < B")
      case short: True
      then show ?thesis
        using True less.prems by (simp add: loop_short ins_append ok_ins)
    next
      case False
      define y1 where "y1 = take (B - (p + length xs)) ys"
      have ys: "ys = y1 @ drop (B - (p + length xs)) ys" and l: "p + length xs + length y1 = B"
        using False True by (auto simp: y1_def)
      have "loop p ((xs @ y1) @ drop (B - (p + length xs)) ys) c
          = loop 0 (drop (B - (p + length xs)) ys) (process (ins p (xs @ y1) c))"
        using l less.prems by (intro loop_fill) auto
      also have "\<dots> = loop 0 (drop (B - (p + length xs)) ys) (process (ins (p + length xs) y1 (ins p xs c)))"
        using l less.prems by (simp add: ins_append)
      also have "\<dots> = loop (p + length xs) (y1 @ drop (B - (p + length xs)) ys) (ins p xs c)"
        using l True less.prems by (intro loop_fill [symmetric]) (auto intro: ok_ins)
      finally show ?thesis
        using True ys less.prems by (simp add: loop_short)
    qed
  next
    case False
    define x1 where "x1 = take (B - p) xs"
    define x2 where "x2 = drop (B - p) xs"
    have xs: "xs = x1 @ x2" and l: "p + length x1 = B"
      using False less.prems by (auto simp: x1_def x2_def)
    have len: "length x2 < length xs" using False less.prems by (auto simp: x2_def)
    have ok: "ok (process (ins p x1 c))"
      using less.prems l by (simp add: ok_process ok_ins)
    have "(p + length xs) mod B = length x2 mod B"
      using xs l by (metis add.assoc length_append mod_add_self1)
    then show ?thesis
      using less.hyps [OF len ok B_pos] loop_fill [OF less.prems l] xs by simp
  qed
qed

text \<open>From an empty buffer: every full block is processed, what is left stays in the buffer.\<close>

lemma loop_blocks:
  "ok c \<Longrightarrow> loop 0 xs c =
    ins 0 (rest_bytes B xs) (foldl (\<lambda>c blk. process (ins 0 blk c)) c (full_blocks B xs))"
proof (induction "length xs" arbitrary: xs c rule: less_induct)
  case less
  show ?case
  proof (cases "length xs < B")
    case True
    then show ?thesis using less.prems by (simp add: loop_short rest_bytes_short)
  next
    case False
    define x1 where "x1 = take B xs"
    define x2 where "x2 = drop B xs"
    have xs: "xs = x1 @ x2" and l: "length x1 = B"
      using False by (auto simp: x1_def x2_def)
    have len: "length x2 < length xs" using False B_pos by (auto simp: x2_def)
    have ok: "ok (process (ins 0 x1 c))"
      using less.prems l by (simp add: ok_process ok_ins)
    show ?thesis
      using less.hyps [OF len ok] loop_fill [of c 0 x1 x2] less.prems l B_pos xs
      by (simp add: full_blocks_Cons rest_bytes_Cons)
  qed
qed

text \<open>From a buffer that already starts with \<open>r\<close>: as if \<open>r\<close> were fed again.\<close>

lemma loop_resume:
  assumes "ok c" and "ins 0 r c = c" and "length r < B"
  shows "loop (length r) xs c =
    ins 0 (rest_bytes B (r @ xs)) (foldl (\<lambda>c blk. process (ins 0 blk c)) c (full_blocks B (r @ xs)))"
  using loop_append [OF assms(1) B_pos, of r xs] loop_blocks [OF assms(1), of "r @ xs"]
    loop_short [of c 0 r] assms by simp

end

text \<open>
  What a caller such as \<^verbatim>\<open>md5sum\<close> relies on: updates compose.
\<close>

locale stream_hash =
  fixes good :: "'c \<Rightarrow> bool"
    and update :: "'c \<Rightarrow> bytes \<Rightarrow> 'c"
  assumes update_Nil: "good c \<Longrightarrow> update c [] = c"
    and update_append: "good c \<Longrightarrow> update (update c xs) ys = update c (xs @ ys)"
    and good_update: "good c \<Longrightarrow> good (update c xs)"
begin

lemma good_updates: "good c \<Longrightarrow> good (foldl update c chunks)"
  by (induction chunks arbitrary: c) (auto intro: good_update)

lemma updates_concat:
  "good c \<Longrightarrow> foldl update c chunks = update c (concat chunks)"
proof (induction chunks arbitrary: c)
  case Nil
  then show ?case by (simp add: update_Nil)
next
  case (Cons x xs)
  then show ?case by (simp add: good_update update_append)
qed

lemma updates_split_irrelevant:
  assumes "good c" and "concat chunks = concat chunks'"
  shows "foldl update c chunks = foldl update c chunks'"
  using updates_concat [of c chunks] updates_concat [of c chunks'] assms by simp

end

end
