(* ===== verification/Hash_Stream.thy ===== *)
theory Hash_Stream
  imports Hash_Sha Absorb
begin

text \<open>
  The streaming interface of \<^verbatim>\<open>libbb/hash_md5_sha.c\<close>: contexts, \<^verbatim>\<open>*_begin\<close>,
  \<^verbatim>\<open>*_hash\<close> and \<^verbatim>\<open>*_end\<close> of MD5, SHA-1, SHA-256 (one context type, one
  \<^verbatim>\<open>md5_hash\<close>) and SHA-512, for a little endian machine. Each is shown to compute the
  Merkle-Damgard construction of its standard: pad, cut into blocks, fold the compression function.
\<close>

section \<open>The 64-byte contexts: MD5, SHA-1, SHA-256\<close>

text \<open>
  \<^verbatim>\<open>ctx->process_block\<close> points to one of three functions; the record holds which one.
\<close>

datatype block_fn = Md5_process_block64 | Sha1_process_block64 | Sha256_process_block64

record md5_ctx =
  wbuffer :: bytes
  process_block :: block_fn
  total64 :: u64
  hash :: "u32 list"

text \<open>The buffer read through a \<^verbatim>\<open>uint32_t*\<close>: sixteen little endian words.\<close>

definition read_words32 :: "bytes \<Rightarrow> u32 list" where
  "read_words32 buf = map (\<lambda>i. le_word (take 4 (drop (4 * i) buf))) [0..<16]"

definition call_process_block :: "md5_ctx \<Rightarrow> md5_ctx" where
  "call_process_block ctx =
     (case process_block ctx of
        Md5_process_block64 \<Rightarrow> ctx\<lparr>hash := md5_block_small1 (hash ctx) (read_words32 (wbuffer ctx))\<rparr>
      | Sha1_process_block64 \<Rightarrow> ctx\<lparr>hash := sha1_block (hash ctx) (read_words32 (wbuffer ctx))\<rparr>
      | Sha256_process_block64 \<Rightarrow> ctx\<lparr>hash := sha256_block (hash ctx) (read_words32 (wbuffer ctx))\<rparr>)"

definition md5_begin :: "md5_ctx \<Rightarrow> md5_ctx" where
  "md5_begin ctx = ctx\<lparr>
     hash := (hash ctx)[0 := 0x67452301, 1 := 0xefcdab89, 2 := 0x98badcfe, 3 := 0x10325476],
     total64 := 0,
     process_block := Md5_process_block64\<rparr>"

definition sha1_begin :: "md5_ctx \<Rightarrow> md5_ctx" where
  "sha1_begin ctx = ctx\<lparr>
     hash := (hash ctx)[0 := 0x67452301, 1 := 0xefcdab89, 2 := 0x98badcfe, 3 := 0x10325476,
       4 := 0xc3d2e1f0],
     total64 := 0,
     process_block := Sha1_process_block64\<rparr>"

definition init256 :: "u32 list" where
  "init256 = [0, 0,
     0x6a09e667, 0xbb67ae85, 0x3c6ef372, 0xa54ff53a, 0x510e527f, 0x9b05688c, 0x1f83d9ab, 0x5be0cd19]"

text \<open>
  \<^verbatim>\<open>memcpy(&ctx->total64, init256, sizeof(init256))\<close>: \<open>total64\<close> is directly before
  \<open>hash[]\<close>, so the first two words of the table are the counter.
\<close>

definition sha256_begin :: "md5_ctx \<Rightarrow> md5_ctx" where
  "sha256_begin ctx = ctx\<lparr>
     total64 := le_word (concat (map (le_bytes 4) (take 2 init256))),
     hash := write_at 0 (drop 2 init256) (hash ctx),
     process_block := Sha256_process_block64\<rparr>"

function md5_hash_loop :: "nat \<Rightarrow> bytes \<Rightarrow> md5_ctx \<Rightarrow> md5_ctx" where
  "md5_hash_loop bufpos buffer ctx =
     (let remaining = min (64 - bufpos) (length buffer);
          ctx = ctx\<lparr>wbuffer := write_at bufpos (take remaining buffer) (wbuffer ctx)\<rparr>;
          buffer = drop remaining buffer;
          bufpos = bufpos + remaining
      in if bufpos = 64 then md5_hash_loop 0 buffer (call_process_block ctx) else ctx)"
  by pat_completeness auto
termination
  by (relation "measure (\<lambda>(p, buffer, ctx). 2 * length buffer + (if p = 0 then 0 else 1))")
     (auto simp: min_def split: if_splits)

declare md5_hash_loop.simps [simp del]

definition md5_hash :: "md5_ctx \<Rightarrow> bytes \<Rightarrow> md5_ctx" where
  "md5_hash ctx buffer =
     (let bufpos = unat (total64 ctx AND 63)
      in md5_hash_loop bufpos buffer (ctx\<lparr>total64 := total64 ctx + of_nat (length buffer)\<rparr>))"

text \<open>
  \<^verbatim>\<open>common64_end\<close>: \<open>0x80\<close>, zeros, the bit count in the last eight bytes; a second
  round when the count does not fit behind the data.
\<close>

function common64_end_loop :: "bool \<Rightarrow> nat \<Rightarrow> md5_ctx \<Rightarrow> md5_ctx" where
  "common64_end_loop swap_needed bufpos ctx =
     (let remaining = 64 - bufpos;
          ctx = ctx\<lparr>wbuffer := write_at bufpos (replicate remaining 0) (wbuffer ctx)\<rparr>;
          t = push_bit 3 (total64 ctx);
          t = (if swap_needed then bswap t else t);
          ctx = (if 8 \<le> remaining then ctx\<lparr>wbuffer := write_at (64 - 8) (le_bytes 8 t) (wbuffer ctx)\<rparr> else ctx);
          ctx = call_process_block ctx
      in if 8 \<le> remaining then ctx else common64_end_loop swap_needed 0 ctx)"
  by pat_completeness auto
termination
  by (relation "measure (\<lambda>(s, p, ctx). p)") auto

declare common64_end_loop.simps [simp del]

definition common64_end :: "md5_ctx \<Rightarrow> bool \<Rightarrow> md5_ctx" where
  "common64_end ctx swap_needed =
     (let bufpos = unat (total64 ctx AND 63)
      in common64_end_loop swap_needed (bufpos + 1) (ctx\<lparr>wbuffer := (wbuffer ctx)[bufpos := 0x80]\<rparr>))"

definition md5_end :: "md5_ctx \<Rightarrow> md5_ctx \<times> bytes" where
  "md5_end ctx =
     (let ctx = common64_end ctx False
      in (ctx, concat (map (le_bytes 4) (take 4 (hash ctx)))))"

definition sha1_end :: "md5_ctx \<Rightarrow> md5_ctx \<times> bytes" where
  "sha1_end ctx =
     (let ctx = common64_end ctx True;
          hash_size = (if process_block ctx = Sha1_process_block64 then 5 else 8);
          ctx = ctx\<lparr>hash := map bswap (take hash_size (hash ctx)) @ drop hash_size (hash ctx)\<rparr>
      in (ctx, concat (map (le_bytes 4) (take hash_size (hash ctx)))))"

section \<open>Well-formed contexts and the buffering loop\<close>

definition md5_ok :: "md5_ctx \<Rightarrow> bool" where
  "md5_ok ctx \<longleftrightarrow> length (wbuffer ctx) = 64 \<and> length (hash ctx) = 8"

definition md5_ins :: "nat \<Rightarrow> bytes \<Rightarrow> md5_ctx \<Rightarrow> md5_ctx" where
  "md5_ins p xs ctx = ctx\<lparr>wbuffer := write_at p xs (wbuffer ctx)\<rparr>"

lemma call_process_block_simps [simp]:
  "wbuffer (call_process_block ctx) = wbuffer ctx"
  "total64 (call_process_block ctx) = total64 ctx"
  "process_block (call_process_block ctx) = process_block ctx"
  by (simp_all add: call_process_block_def split: block_fn.split)

lemma length_hash_call [simp]: "length (hash (call_process_block ctx)) = length (hash ctx)"
  by (simp add: call_process_block_def len_simps split: block_fn.split)

interpretation md5_buf: absorb_loop 64 md5_ok md5_ins call_process_block md5_hash_loop
proof unfold_locales
  fix p :: nat and buf c
  show "md5_hash_loop p buf c =
      (let remaining = min (64 - p) (length buf) in
       if p + remaining = 64 then md5_hash_loop 0 (drop remaining buf) (call_process_block (md5_ins p (take remaining buf) c))
       else md5_ins p (take remaining buf) c)"
    by (subst md5_hash_loop.simps) (simp add: Let_def md5_ins_def)
qed (auto simp: md5_ins_def md5_ok_def write_at_append len_simps)

text \<open>The loop never looks at the byte counter, which the caller has already advanced.\<close>

lemma md5_loop_total64:
  "md5_hash_loop p buf (ctx\<lparr>total64 := t\<rparr>) = (md5_hash_loop p buf ctx)\<lparr>total64 := t\<rparr>"
proof (induction p buf ctx rule: md5_hash_loop.induct)
  case (1 p buf ctx)
  have comm: "call_process_block (c\<lparr>total64 := t, wbuffer := w\<rparr>) = (call_process_block (c\<lparr>wbuffer := w\<rparr>))\<lparr>total64 := t\<rparr>" for c w
    by (simp add: call_process_block_def split: block_fn.split)
  show ?case
    using "1" by (subst (1 2) md5_hash_loop.simps) (auto simp: Let_def comm)
qed

lemma md5_loop_simps [simp]:
  "total64 (md5_hash_loop p buf ctx) = total64 ctx"
  "process_block (md5_hash_loop p buf ctx) = process_block ctx"
proof -
  show "total64 (md5_hash_loop p buf ctx) = total64 ctx"
    using md5_loop_total64 [of p buf "total64 ctx" ctx] by (cases "md5_hash_loop p buf ctx") simp
  show "process_block (md5_hash_loop p buf ctx) = process_block ctx"
    by (induction p buf ctx rule: md5_hash_loop.induct) (subst md5_hash_loop.simps, simp add: Let_def)
qed

lemma bufpos64: "unat ((t :: u64) AND 63) = unat t mod 64"
proof -
  have "t AND 63 = take_bit 6 t" by (simp add: take_bit_eq_mask mask_eq_exp_minus_1)
  then have "unat (t AND 63) = take_bit 6 (unat t)" by (simp only: unsigned_take_bit_eq)
  then show ?thesis by (simp add: take_bit_eq_mod)
qed

lemma unat_of_nat_mod64: "unat (of_nat n :: u64) mod 64 = n mod 64"
  by (simp add: unat_of_nat mod_mod_cancel)

lemma md5_good_hash: "md5_ok ctx \<Longrightarrow> md5_ok (md5_hash ctx xs)"
proof -
  assume "md5_ok ctx"
  then have "md5_ok (ctx\<lparr>total64 := total64 ctx + of_nat (length xs)\<rparr>)" by (simp add: md5_ok_def)
  then show ?thesis
    by (auto simp: md5_hash_def Let_def bufpos64 intro: md5_buf.ok_loop)
qed

lemma md5_hash_append:
  assumes "md5_ok ctx"
  shows "md5_hash (md5_hash ctx xs) ys = md5_hash ctx (xs @ ys)"
proof -
  let ?p = "unat (total64 ctx) mod 64"
  let ?T = "total64 ctx + of_nat (length (xs @ ys))"
  have t: "unat (total64 ctx + of_nat (length xs)) mod 64 = (?p + length xs) mod 64"
  proof -
    have "unat (total64 ctx + of_nat (length xs)) mod 64 = (unat (total64 ctx) + length xs) mod 2 ^ 64 mod 64"
      by (simp add: unat_word_ariths unat_of_nat mod_add_right_eq)
    then show ?thesis by (simp add: mod_mod_cancel mod_add_left_eq)
  qed
  have "md5_hash ctx (xs @ ys) = (md5_hash_loop ?p (xs @ ys) ctx)\<lparr>total64 := ?T\<rparr>"
    by (simp add: md5_hash_def bufpos64 md5_loop_total64)
  also have "\<dots> = (md5_hash_loop ((?p + length xs) mod 64) ys (md5_hash_loop ?p xs ctx))\<lparr>total64 := ?T\<rparr>"
    using assms by (simp add: md5_buf.loop_append)
  also have "\<dots> = md5_hash (md5_hash ctx xs) ys"
    by (simp add: md5_hash_def bufpos64 md5_loop_total64 t [simplified] add.assoc)
  finally show ?thesis by simp
qed

interpretation md5_stream: stream_hash md5_ok md5_hash
proof unfold_locales
  fix c :: md5_ctx assume "md5_ok c"
  then show "md5_hash c [] = c"
    by (simp add: md5_hash_def md5_loop_total64 bufpos64)
       (simp add: md5_hash_loop.simps Let_def write_at_def)
qed (simp_all add: md5_hash_append md5_good_hash)

section \<open>Correctness of MD5, SHA-1 and SHA-256\<close>

text \<open>
  The reference: padding as in RFC 1321 and FIPS 180, and the compression function of the
  standard on a block of 64 bytes (little endian words for MD5, big endian for SHA).
\<close>

definition md_pad :: "nat \<Rightarrow> nat \<Rightarrow> bytes \<Rightarrow> bytes" where
  "md_pad B n lenbytes = 0x80 # replicate ((2 * B - 1 - length lenbytes - n mod B) mod B) 0 @ lenbytes"

text \<open>The blocks of a padded message: one more when the count fits behind the data, else two.\<close>

lemma md_pad_one_block:
  assumes "length d mod B + 1 + length lb \<le> B"
  shows "full_blocks B (d @ md_pad B (length d) lb) = full_blocks B d @
    [rest_bytes B d @ 0x80 # replicate (B - 1 - length lb - length d mod B) 0 @ lb]"
proof -
  let ?k = "B - 1 - length lb - length d mod B"
  let ?blk = "rest_bytes B d @ 0x80 # replicate ?k 0 @ lb"
  have B: "0 < B" using assms by simp
  have "2 * B - 1 - length lb - length d mod B = B + ?k" using assms by simp
  moreover have "?k < B" using B by simp
  ultimately have "(2 * B - 1 - length lb - length d mod B) mod B = ?k"
    using mod_add_self1 [of B ?k] by (simp only: mod_less)
  then have pad: "md_pad B (length d) lb = 0x80 # replicate ?k 0 @ lb" by (simp add: md_pad_def)
  have "length ?blk = B" using assms by (simp add: length_rest_bytes)
  then have "full_blocks B ?blk = [?blk]" using full_blocks_Cons [of B ?blk "[]"] B by simp
  then show ?thesis using full_blocks_split [OF B, of d "md_pad B (length d) lb"] pad by simp
qed

lemma md_pad_two_blocks:
  assumes "B < length d mod B + 1 + length lb" and "length lb < B"
  shows "full_blocks B (d @ md_pad B (length d) lb) = full_blocks B d @
    [rest_bytes B d @ 0x80 # replicate (B - 1 - length d mod B) 0, replicate (B - length lb) 0 @ lb]"
proof -
  let ?k = "B - 1 - length d mod B" and ?j = "B - length lb"
  let ?b1 = "rest_bytes B d @ 0x80 # replicate ?k 0" and ?b2 = "replicate ?j 0 @ lb"
  have B: "0 < B" using assms by simp
  then have p: "length d mod B < B" by simp
  have "2 * B - 1 - length lb - length d mod B = ?k + ?j" using assms p by linarith
  moreover have "?k + ?j < B" using assms p by linarith
  ultimately have "(2 * B - 1 - length lb - length d mod B) mod B = ?k + ?j" by simp
  then have pad: "md_pad B (length d) lb = 0x80 # replicate ?k 0 @ ?b2"
    by (simp add: md_pad_def replicate_add)
  have "length d mod B + Suc ?k = B" using p by linarith
  then have "length ?b1 = B" by (simp add: length_rest_bytes)
  moreover have "length ?b2 = B" using assms by simp
  ultimately have "full_blocks B (?b1 @ ?b2) = [?b1, ?b2]"
    using full_blocks_Cons [of B ?b1 ?b2] full_blocks_Cons [of B ?b2 "[]"] B by simp
  then show ?thesis using full_blocks_split [OF B, of d "md_pad B (length d) lb"] pad by simp
qed

fun std_compress :: "block_fn \<Rightarrow> u32 list \<Rightarrow> bytes \<Rightarrow> u32 list" where
  "std_compress Md5_process_block64 h blk = rfc1321_block h (le_words 4 16 blk)"
| "std_compress Sha1_process_block64 h blk = fips_sha1 h (be_words 4 16 blk)"
| "std_compress Sha256_process_block64 h blk = fips_sha256 h (be_words 4 16 blk)"

fun std_iv :: "block_fn \<Rightarrow> u32 list" where
  "std_iv Md5_process_block64 = [0x67452301, 0xefcdab89, 0x98badcfe, 0x10325476]"
| "std_iv Sha1_process_block64 = [0x67452301, 0xefcdab89, 0x98badcfe, 0x10325476, 0xc3d2e1f0]"
| "std_iv Sha256_process_block64 = [0x6a09e667, 0xbb67ae85, 0x3c6ef372, 0xa54ff53a,
     0x510e527f, 0x9b05688c, 0x1f83d9ab, 0x5be0cd19]"

fun std_length_bytes :: "block_fn \<Rightarrow> nat \<Rightarrow> bytes" where
  "std_length_bytes Md5_process_block64 n = le_bytes 8 (of_nat (8 * n) :: u64)"
| "std_length_bytes _ n = be_bytes 8 (of_nat (8 * n) :: u64)"

fun std_output :: "block_fn \<Rightarrow> u32 list \<Rightarrow> bytes" where
  "std_output Md5_process_block64 h = concat (map (le_bytes 4) h)"
| "std_output _ h = concat (map (be_bytes 4) h)"

definition std_digest :: "block_fn \<Rightarrow> bytes \<Rightarrow> bytes" where
  "std_digest fn msg = std_output fn (foldl (std_compress fn) (std_iv fn)
     (full_blocks 64 (msg @ md_pad 64 (length msg) (std_length_bytes fn (length msg)))))"

text \<open>The code's begin, hash and end functions, by the function pointer they install.\<close>

fun ctx_begin :: "block_fn \<Rightarrow> md5_ctx \<Rightarrow> md5_ctx" where
  "ctx_begin Md5_process_block64 = md5_begin"
| "ctx_begin Sha1_process_block64 = sha1_begin"
| "ctx_begin Sha256_process_block64 = sha256_begin"

fun ctx_end :: "block_fn \<Rightarrow> md5_ctx \<Rightarrow> md5_ctx \<times> bytes" where
  "ctx_end Md5_process_block64 = md5_end"
| "ctx_end _ = sha1_end"

fun hash_words :: "block_fn \<Rightarrow> nat" where
  "hash_words Md5_process_block64 = 4"
| "hash_words Sha1_process_block64 = 5"
| "hash_words Sha256_process_block64 = 8"

text \<open>One call of the block function, on the words of the hash the algorithm uses.\<close>

lemma map_bswap_le_words32:
  "length blk = 64 \<Longrightarrow> map bswap (le_words 4 16 blk :: u32 list) = be_words 4 16 blk"
  by (simp add: le_words_def be_words_def bswap_le_word)

lemma call_compress:
  assumes "length (wbuffer ctx) = 64" and "length (hash ctx) = 8"
  shows "take (hash_words (process_block ctx)) (hash (call_process_block ctx)) =
    std_compress (process_block ctx) (take (hash_words (process_block ctx)) (hash ctx)) (wbuffer ctx)"
proof -
  have rd: "read_words32 = le_words 4 16" by (simp add: read_words32_def le_words_def fun_eq_iff)
  have len: "length (le_words 4 16 (wbuffer ctx) :: u32 list) = 16" by (simp add: le_words_def)
  show ?thesis
  proof (cases "process_block ctx")
    case Md5_process_block64
    then show ?thesis
      using assms
      by (simp add: call_process_block_def rd md5_small1_rfc rfc1321_block_def take_update_swap
          split: prod.split)
  next
    case Sha1_process_block64
    then show ?thesis
      using assms len
      by (simp add: call_process_block_def rd sha1_block_fips map_bswap_le_words32 fips_sha1_def
          take_update_swap split: prod.split)
  next
    case Sha256_process_block64
    then show ?thesis
      using assms len
      by (simp add: call_process_block_def rd sha256_block_fips map_bswap_le_words32 len_simps)
  qed
qed

text \<open>The state of a context that has absorbed the message \<open>d\<close>.\<close>

definition absorbed :: "block_fn \<Rightarrow> bytes \<Rightarrow> md5_ctx \<Rightarrow> bool" where
  "absorbed fn d ctx \<longleftrightarrow> md5_ok ctx \<and> process_block ctx = fn \<and> total64 ctx = of_nat (length d)
     \<and> take (length d mod 64) (wbuffer ctx) = rest_bytes 64 d
     \<and> take (hash_words fn) (hash ctx) = foldl (std_compress fn) (std_iv fn) (full_blocks 64 d)"

lemma absorbed_begin: "md5_ok ctx \<Longrightarrow> absorbed fn [] (ctx_begin fn ctx)"
proof -
  assume ok: "md5_ok ctx"
  then obtain h0 h1 h2 h3 h4 h5 h6 h7 where "hash ctx = [h0, h1, h2, h3, h4, h5, h6, h7]"
    by (auto simp: md5_ok_def numeral_eq_Suc length_Suc_conv)
  then show ?thesis
    using ok by (cases fn) (simp_all add: absorbed_def md5_ok_def md5_begin_def sha1_begin_def
        sha256_begin_def init256_def rest_bytes_def write_at_def flip: replicate_add)
qed

lemma process_blocks:
  assumes "md5_ok ctx" and "\<forall>blk \<in> set bs. length blk = 64"
  defines "c \<equiv> foldl (\<lambda>c blk. call_process_block (md5_ins 0 blk c)) ctx bs"
  shows "md5_ok c \<and> process_block c = process_block ctx \<and> total64 c = total64 ctx
    \<and> take (hash_words (process_block ctx)) (hash c) =
        foldl (std_compress (process_block ctx)) (take (hash_words (process_block ctx)) (hash ctx)) bs"
  using assms(1,2) unfolding c_def
proof (induction bs arbitrary: ctx)
  case Nil
  then show ?case by simp
next
  case (Cons blk bs)
  let ?c = "call_process_block (md5_ins 0 blk ctx)"
  have blk: "length blk = 64" using Cons.prems by simp
  have ins: "md5_ins 0 blk ctx = ctx\<lparr>wbuffer := blk\<rparr>"
    using Cons.prems(1) blk by (simp add: md5_ins_def md5_ok_def write_at_full)
  have "md5_ok ?c" "process_block ?c = process_block ctx" "total64 ?c = total64 ctx"
    using Cons.prems(1) blk by (simp_all add: ins md5_ok_def)
  moreover have "take (hash_words (process_block ctx)) (hash ?c) =
      std_compress (process_block ctx) (take (hash_words (process_block ctx)) (hash ctx)) blk"
    using call_compress [of "ctx\<lparr>wbuffer := blk\<rparr>"] Cons.prems(1) blk by (simp add: ins md5_ok_def)
  ultimately show ?case using Cons.IH [of ?c] Cons.prems(2) by simp
qed

lemma absorbed_hash:
  assumes "absorbed fn [] ctx"
  shows "absorbed fn d (md5_hash ctx d)"
proof -
  let ?c = "ctx\<lparr>total64 := of_nat (length d)\<rparr>"
  let ?f = "foldl (\<lambda>c blk. call_process_block (md5_ins 0 blk c)) ?c (full_blocks 64 d)"
  have ok: "md5_ok ?c" using assms by (simp add: absorbed_def md5_ok_def)
  have f: "md5_ok ?f \<and> process_block ?f = process_block ?c \<and> total64 ?f = total64 ?c
    \<and> take (hash_words (process_block ?c)) (hash ?f) =
        foldl (std_compress (process_block ?c)) (take (hash_words (process_block ?c)) (hash ?c)) (full_blocks 64 d)"
    using ok by (intro process_blocks) (auto dest: full_blocks_lengths)
  have "md5_hash ctx d = md5_hash_loop 0 d ?c"
    using assms by (simp add: md5_hash_def absorbed_def)
  also have "\<dots> = md5_ins 0 (rest_bytes 64 d) ?f"
    using md5_buf.loop_blocks [OF ok] by simp
  finally have "md5_hash ctx d = md5_ins 0 (rest_bytes 64 d) ?f" .
  moreover have "length (rest_bytes 64 d) = length d mod 64" by (simp add: length_rest_bytes)
  ultimately show ?thesis
    using f assms take_write_at [of 0 "wbuffer ?f" "rest_bytes 64 d"]
    by (simp add: absorbed_def md5_ins_def md5_ok_def len_simps less_imp_le)
qed

text \<open>The final blocks.\<close>

definition count_bytes :: "bool \<Rightarrow> md5_ctx \<Rightarrow> bytes" where
  "count_bytes swap ctx = (if swap then be_bytes 8 (push_bit 3 (total64 ctx)) else le_bytes 8 (push_bit 3 (total64 ctx)))"

lemma common64_last_block:
  assumes "length (wbuffer ctx) = 64" and "p \<le> 56"
  shows "common64_end_loop swap p ctx = call_process_block
    (ctx\<lparr>wbuffer := take p (wbuffer ctx) @ replicate (56 - p) 0 @ count_bytes swap ctx\<rparr>)"
proof -
  have "write_at 56 (count_bytes swap ctx) (write_at p (replicate (64 - p) 0) (wbuffer ctx))
      = take p (wbuffer ctx) @ replicate (56 - p) 0 @ count_bytes swap ctx"
    using assms by (simp add: write_at_def count_bytes_def min_def)
  moreover have "le_bytes 8 (if swap then bswap (push_bit 3 (total64 ctx)) else push_bit 3 (total64 ctx))
      = count_bytes swap ctx"
    by (simp add: count_bytes_def le_bytes_bswap)
  ultimately show ?thesis
    using assms by (subst common64_end_loop.simps) (cases swap; simp add: Let_def count_bytes_def)
qed

lemma common64_two_blocks:
  assumes "length (wbuffer ctx) = 64" and "56 < p" and "p \<le> 64"
  shows "common64_end_loop swap p ctx = common64_end_loop swap 0 (call_process_block
    (ctx\<lparr>wbuffer := take p (wbuffer ctx) @ replicate (64 - p) 0\<rparr>))"
  using assms by (subst common64_end_loop.simps) (simp add: Let_def write_at_def)

lemma common64_end_blocks:
  assumes "absorbed fn d ctx" and "lb = count_bytes swap ctx"
  shows "process_block (common64_end ctx swap) = fn \<and> length (hash (common64_end ctx swap)) = 8
    \<and> take (hash_words fn) (hash (common64_end ctx swap)) =
      foldl (std_compress fn) (std_iv fn) (full_blocks 64 (d @ md_pad 64 (length d) lb))"
proof -
  let ?p = "length d mod 64" and ?r = "rest_bytes 64 d"
  let ?h = "foldl (std_compress fn) (std_iv fn) (full_blocks 64 d)"
  define c where "c = ctx\<lparr>wbuffer := (wbuffer ctx)[?p := 0x80]\<rparr>"
  have pl: "?p < 64" by simp
  have lr: "length ?r = ?p" by (simp add: length_rest_bytes)
  have fin: "common64_end ctx swap = common64_end_loop swap (?p + 1) c"
    using assms(1) by (simp add: common64_end_def bufpos64 absorbed_def unat_of_nat_mod64 c_def Let_def)
  have c: "length (wbuffer c) = 64" "length (hash c) = 8" "process_block c = fn"
    "take (hash_words fn) (hash c) = ?h" "count_bytes swap c = lb"
    using assms by (simp_all add: c_def absorbed_def md5_ok_def count_bytes_def)
  have tk: "take (?p + 1) (wbuffer c) = ?r @ [0x80]"
    using assms(1) pl by (simp add: c_def absorbed_def md5_ok_def take_Suc_conv_app_nth)
  have lb: "length lb = 8" using assms(2) by (simp add: count_bytes_def)
  show ?thesis
  proof (cases "?p + 1 \<le> 56")
    case True
    let ?blk = "?r @ 0x80 # replicate (55 - ?p) 0 @ lb"
    have one: "full_blocks 64 (d @ md_pad 64 (length d) lb) = full_blocks 64 d @ [?blk]"
      using True lb md_pad_one_block [where d = d and B = 64 and lb = lb] by simp
    have blk: "length ?blk = 64" using True lr lb by simp
    have "common64_end ctx swap = call_process_block (c\<lparr>wbuffer := ?blk\<rparr>)"
      using common64_last_block [OF c(1) True, of swap] tk c(5) by (simp add: fin)
    then show ?thesis
      using call_compress [of "c\<lparr>wbuffer := ?blk\<rparr>"] c blk by (simp add: one)
  next
    case False
    let ?b1 = "?r @ 0x80 # replicate (63 - ?p) 0" and ?b2 = "replicate 56 0 @ lb"
    have two: "full_blocks 64 (d @ md_pad 64 (length d) lb) = full_blocks 64 d @ [?b1, ?b2]"
      using False pl lb md_pad_two_blocks [where d = d and B = 64 and lb = lb] by simp
    have b1: "length ?b1 = 64" and b2: "length ?b2 = 64" using pl lr lb by simp_all
    let ?c1 = "call_process_block (c\<lparr>wbuffer := ?b1\<rparr>)"
    have c1: "count_bytes swap ?c1 = lb" using c(5) by (cases swap) (simp_all add: count_bytes_def)
    have "common64_end ctx swap = common64_end_loop swap 0 ?c1"
      using common64_two_blocks [OF c(1), of "?p + 1" swap] False pl tk by (simp add: fin)
    also have "\<dots> = call_process_block (?c1\<lparr>wbuffer := ?b2\<rparr>)"
      using common64_last_block [of ?c1 0 swap] b1 c1 by simp
    finally have "common64_end ctx swap = call_process_block (?c1\<lparr>wbuffer := ?b2\<rparr>)" .
    then show ?thesis
      using call_compress [of "c\<lparr>wbuffer := ?b1\<rparr>"] call_compress [of "?c1\<lparr>wbuffer := ?b2\<rparr>"] c b1 b2
      by (simp add: two)
  qed
qed

text \<open>The counter, shifted left by three, is the length field of the standard.\<close>

lemma push_bit_count: "push_bit 3 (of_nat n :: 'a::len word) = of_nat (8 * n)"
  by (simp add: push_bit_eq_mult mult.commute)

lemma absorbed_count_bytes:
  "absorbed fn d ctx \<Longrightarrow>
    count_bytes (fn \<noteq> Md5_process_block64) ctx = std_length_bytes fn (length d)"
  by (cases fn) (simp_all only: absorbed_def count_bytes_def push_bit_count std_length_bytes.simps simp_thms if_True if_False block_fn.distinct)

lemma length_std_compress: "length (std_compress fn h blk) = length h"
  by (cases fn) (simp_all add: rfc1321_block_def len_simps split: prod.split)

text \<open>The digest the end functions write, from the chaining value after the last block.\<close>

lemma ctx_end_output:
  assumes "process_block (common64_end ctx (fn \<noteq> Md5_process_block64)) = fn"
    and "length (hash (common64_end ctx (fn \<noteq> Md5_process_block64))) = 8"
  shows "snd (ctx_end fn ctx) =
    std_output fn (take (hash_words fn) (hash (common64_end ctx (fn \<noteq> Md5_process_block64))))"
  using assms
  by (cases fn) (simp_all add: md5_end_def sha1_end_def Let_def take_map le_bytes_bswap comp_def)

lemma ctx_end_digest:
  assumes "absorbed fn d ctx"
  shows "snd (ctx_end fn ctx) = std_digest fn d"
  using common64_end_blocks [OF assms refl, of "fn \<noteq> Md5_process_block64"]
    ctx_end_output [of ctx fn] absorbed_count_bytes [OF assms]
  by (simp add: std_digest_def)

lemma hash_chunks:
  assumes "md5_ok ctx"
  shows "snd (ctx_end fn (foldl md5_hash (ctx_begin fn ctx) chunks)) = std_digest fn (concat chunks)"
proof -
  have b: "absorbed fn [] (ctx_begin fn ctx)" using assms by (rule absorbed_begin)
  then have "md5_ok (ctx_begin fn ctx)" by (simp add: absorbed_def)
  then have "foldl md5_hash (ctx_begin fn ctx) chunks = md5_hash (ctx_begin fn ctx) (concat chunks)"
    by (rule md5_stream.updates_concat)
  then show ?thesis using ctx_end_digest [OF absorbed_hash [OF b]] by simp
qed

text \<open>
  C2. \<^verbatim>\<open>md5_begin\<close>/\<^verbatim>\<open>sha1_begin\<close>/\<^verbatim>\<open>sha256_begin\<close>, any sequence of
  \<^verbatim>\<open>md5_hash\<close> calls whose pieces concatenate to the message, then \<^verbatim>\<open>md5_end\<close> or
  \<^verbatim>\<open>sha1_end\<close> write the digest that RFC 1321 or FIPS 180 define for the message: padded,
  cut in blocks, compressed and serialised. The context may hold anything before.
\<close>

theorem hash_digest:
  assumes "md5_ok ctx"
  shows "snd (ctx_end fn (foldl md5_hash (ctx_begin fn ctx) chunks)) = std_digest fn (concat chunks)"
  using hash_chunks [OF assms] .

definition ctx0 :: md5_ctx where
  "ctx0 = \<lparr>wbuffer = replicate 64 0, process_block = Md5_process_block64, total64 = 0,
     hash = replicate 8 0\<rparr>"

theorem hash_digest_witness:
  "md5_ok ctx0 \<and> snd (ctx_end Sha256_process_block64
     (foldl md5_hash (ctx_begin Sha256_process_block64 ctx0) [[0x61], [0x62, 0x63]]))
   = std_digest Sha256_process_block64 [0x61, 0x62, 0x63]"
proof -
  have "md5_ok ctx0" by (simp add: md5_ok_def ctx0_def)
  then show ?thesis
    using hash_digest [of ctx0 Sha256_process_block64 "[[0x61], [0x62, 0x63]]"] by simp
qed

end
