(* ===== verification/Hash_Stream512.thy ===== *)
theory Hash_Stream512
  imports Hash_Stream
begin

text \<open>
  The SHA-512 context of \<^verbatim>\<open>libbb/hash_md5_sha.c\<close>: blocks of 128 bytes and a byte
  counter of two words. The counter is shown to count modulo \<open>2 ^ 128\<close>, and the digest to be
  the one of FIPS 180.
\<close>

section \<open>Context and operations\<close>

record sha512_ctx =
  total64s :: "u64 list"
  hash512 :: "u64 list"
  wbuffer128 :: bytes

definition read_words64 :: "bytes \<Rightarrow> u64 list" where
  "read_words64 buf = map (\<lambda>i. le_word (take 8 (drop (8 * i) buf))) [0..<16]"

definition sha512_process_block128 :: "sha512_ctx \<Rightarrow> sha512_ctx" where
  "sha512_process_block128 ctx =
     ctx\<lparr>hash512 := sha512_block (hash512 ctx) (read_words64 (wbuffer128 ctx))\<rparr>"

definition init512_lo :: "u32 list" where
  "init512_lo = [0, 0,
     0xf3bcc908, 0x84caa73b, 0xfe94f82b, 0x5f1d36f1, 0xade682d1, 0x2b3e6c1f, 0xfb41bd6b, 0x137e2179]"

text \<open>
  \<open>tp\<close> runs over \<open>total64[2]\<close> and on into \<open>hash[8]\<close>, which directly follows it.
\<close>

definition sha512_begin :: "sha512_ctx \<Rightarrow> sha512_ctx" where
  "sha512_begin ctx =
     (let tp = map (\<lambda>i. push_bit 32 (ucast (init256 ! i)) + ucast (init512_lo ! i)) [0..<8 + 2]
      in ctx\<lparr>total64s := take 2 tp, hash512 := drop 2 tp\<rparr>)"

function sha512_hash_loop :: "nat \<Rightarrow> bytes \<Rightarrow> sha512_ctx \<Rightarrow> sha512_ctx" where
  "sha512_hash_loop bufpos buffer ctx =
     (let remaining = min (128 - bufpos) (length buffer);
          ctx = ctx\<lparr>wbuffer128 := write_at bufpos (take remaining buffer) (wbuffer128 ctx)\<rparr>;
          buffer = drop remaining buffer;
          bufpos = bufpos + remaining
      in if bufpos = 128 then sha512_hash_loop 0 buffer (sha512_process_block128 ctx) else ctx)"
  by pat_completeness auto
termination
  by (relation "measure (\<lambda>(p, buffer, ctx). 2 * length buffer + (if p = 0 then 0 else 1))")
     (auto simp: min_def split: if_splits)

declare sha512_hash_loop.simps [simp del]

definition sha512_count :: "u64 \<Rightarrow> u64 list \<Rightarrow> u64 list" where
  "sha512_count len t =
     (let t = t[0 := t ! 0 + len]
      in if t ! 0 < len then t[1 := t ! 1 + 1] else t)"

definition sha512_hash :: "sha512_ctx \<Rightarrow> bytes \<Rightarrow> sha512_ctx" where
  "sha512_hash ctx buffer =
     (let bufpos = unat (total64s ctx ! 0 AND 127)
      in sha512_hash_loop bufpos buffer
           (ctx\<lparr>total64s := sha512_count (of_nat (length buffer)) (total64s ctx)\<rparr>))"

function sha512_end_loop :: "nat \<Rightarrow> sha512_ctx \<Rightarrow> sha512_ctx" where
  "sha512_end_loop bufpos ctx =
     (let remaining = 128 - bufpos;
          ctx = ctx\<lparr>wbuffer128 := write_at bufpos (replicate remaining 0) (wbuffer128 ctx)\<rparr>;
          ctx = (if 16 \<le> remaining
                 then let t = bswap (push_bit 3 (total64s ctx ! 0));
                          ctx = ctx\<lparr>wbuffer128 := write_at (128 - 8) (le_bytes 8 t) (wbuffer128 ctx)\<rparr>;
                          t = bswap (push_bit 3 (total64s ctx ! 1) OR drop_bit 61 (total64s ctx ! 0))
                      in ctx\<lparr>wbuffer128 := write_at (128 - 16) (le_bytes 8 t) (wbuffer128 ctx)\<rparr>
                 else ctx);
          ctx = sha512_process_block128 ctx
      in if 16 \<le> remaining then ctx else sha512_end_loop 0 ctx)"
  by pat_completeness auto
termination
  by (relation "measure (\<lambda>(p, ctx). p)") auto

declare sha512_end_loop.simps [simp del]

definition sha512_end :: "sha512_ctx \<Rightarrow> sha512_ctx \<times> bytes" where
  "sha512_end ctx =
     (let bufpos = unat (total64s ctx ! 0 AND 127);
          ctx = ctx\<lparr>wbuffer128 := (wbuffer128 ctx)[bufpos := 0x80]\<rparr>;
          ctx = sha512_end_loop (bufpos + 1) ctx;
          ctx = ctx\<lparr>hash512 := map bswap (hash512 ctx)\<rparr>
      in (ctx, concat (map (le_bytes 8) (hash512 ctx))))"

section \<open>The byte counter\<close>

definition sha512_total :: "u64 list \<Rightarrow> nat" where
  "sha512_total t = unat (t ! 0) + 2 ^ 64 * unat (t ! 1)"

lemma sha512_total_count:
  assumes "length t = 2" and "n < 2 ^ 64"
  shows "sha512_total (sha512_count (of_nat n) t) = (sha512_total t + n) mod 2 ^ 128"
proof -
  obtain lo hi where t: "t = [lo, hi]"
    using assms(1) by (auto simp: numeral_eq_Suc length_Suc_conv)
  define l h where "l = unat lo" and "h = unat hi"
  have l: "l < 2 ^ 64" and h: "h < 2 ^ 64" using unat_bound [of lo] unat_bound [of hi] by (simp_all add: l_def h_def)
  have n: "unat (of_nat n :: u64) = n" using assms(2) by (simp add: unat_of_nat)
  have lo: "unat (lo + of_nat n) = (l + n) mod 2 ^ 64" by (simp add: unat_word_ariths n l_def)
  have hi: "unat (hi + 1) = (h + 1) mod 2 ^ 64" by (simp add: unat_word_ariths h_def)
  have big: "(2::nat) ^ 128 = 2 ^ 64 * 2 ^ 64" by simp
  have carry: "lo + of_nat n < of_nat n \<longleftrightarrow> 2 ^ 64 \<le> l + n"
  proof -
    have "lo + of_nat n < of_nat n \<longleftrightarrow> (l + n) mod 2 ^ 64 < n" by (simp only: word_less_nat_alt lo n)
    also have "\<dots> \<longleftrightarrow> 2 ^ 64 \<le> l + n"
    proof (cases "l + n < 2 ^ 64")
      case False
      then have "(l + n) mod 2 ^ 64 = l + n - 2 ^ 64" using l assms(2) by (simp add: mod_if)
      then show ?thesis using False l by linarith
    qed simp
    finally show ?thesis .
  qed
  have decomp: "l + n + 2 ^ 64 * h = (l + n) mod 2 ^ 64 + 2 ^ 64 * ((l + n) div 2 ^ 64 + h)"
    using mod_mult_div_eq [of "l + n" "2 ^ 64"] by (simp add: algebra_simps)
  have q: "(l + n) div 2 ^ 64 = (if 2 ^ 64 \<le> l + n then 1 else 0)"
  proof (cases "2 ^ 64 \<le> l + n")
    case True
    then show ?thesis using l assms(2) by (auto intro: div_nat_eqI)
  qed simp
  have "(sha512_total t + n) mod 2 ^ 128 = ((l + n) mod 2 ^ 64 + 2 ^ 64 * ((l + n) div 2 ^ 64 + h)) mod (2 ^ 64 * 2 ^ 64)"
    unfolding big decomp [symmetric] by (simp only: t sha512_total_def l_def h_def nth_Cons_0 nth_Cons_Suc One_nat_def ac_simps)
  also have "\<dots> = (l + n) mod 2 ^ 64 + 2 ^ 64 * (((l + n) div 2 ^ 64 + h) mod 2 ^ 64)"
    by (subst mod_mult2_eq) (simp add: add.commute)
  also have "\<dots> = sha512_total (sha512_count (of_nat n) t)"
    using carry h unfolding q
    by (auto simp: t sha512_total_def sha512_count_def Let_def lo hi simp flip: h_def)
  finally show ?thesis by simp
qed

lemma sha512_total_inj:
  assumes "length t = 2" and "length u = 2" and "sha512_total t = sha512_total u"
  shows "t = u"
proof -
  obtain a b c d where tu: "t = [a, b]" "u = [c, d]"
    using assms(1,2) by (auto simp: numeral_eq_Suc length_Suc_conv)
  have "unat a < 2 ^ 64" "unat c < 2 ^ 64"
    using unat_bound [of a] unat_bound [of c] by simp_all
  then have "unat a = unat c \<and> unat b = unat d"
    using assms(3) unfolding sha512_total_def tu nth_Cons_0 nth_Cons_Suc One_nat_def
    by (intro digits_unique)
  then show ?thesis by (simp add: tu word_unat_eq_iff)
qed

section \<open>Well-formed contexts and the buffering loop\<close>

definition sha512_ok :: "sha512_ctx \<Rightarrow> bool" where
  "sha512_ok ctx \<longleftrightarrow> length (total64s ctx) = 2 \<and> length (hash512 ctx) = 8 \<and> length (wbuffer128 ctx) = 128"

definition sha512_ins :: "nat \<Rightarrow> bytes \<Rightarrow> sha512_ctx \<Rightarrow> sha512_ctx" where
  "sha512_ins p xs ctx = ctx\<lparr>wbuffer128 := write_at p xs (wbuffer128 ctx)\<rparr>"

interpretation sha512_buf: absorb_loop 128 sha512_ok sha512_ins sha512_process_block128 sha512_hash_loop
proof unfold_locales
  fix p :: nat and buf c
  show "sha512_hash_loop p buf c =
      (let remaining = min (128 - p) (length buf) in
       if p + remaining = 128
       then sha512_hash_loop 0 (drop remaining buf) (sha512_process_block128 (sha512_ins p (take remaining buf) c))
       else sha512_ins p (take remaining buf) c)"
    by (subst sha512_hash_loop.simps) (simp add: Let_def sha512_ins_def)
qed (auto simp: sha512_ins_def sha512_ok_def sha512_process_block128_def write_at_append len_simps)

lemma sha512_loop_total:
  "sha512_hash_loop p buf (ctx\<lparr>total64s := t\<rparr>) = (sha512_hash_loop p buf ctx)\<lparr>total64s := t\<rparr>"
proof (induction p buf ctx rule: sha512_hash_loop.induct)
  case (1 p buf ctx)
  have comm: "sha512_process_block128 (c\<lparr>total64s := t, wbuffer128 := w\<rparr>)
      = (sha512_process_block128 (c\<lparr>wbuffer128 := w\<rparr>))\<lparr>total64s := t\<rparr>" for c w
    by (simp add: sha512_process_block128_def)
  show ?case
    using "1" by (subst (1 2) sha512_hash_loop.simps) (auto simp: Let_def comm)
qed

lemma sha512_loop_total_simp [simp]: "total64s (sha512_hash_loop p buf ctx) = total64s ctx"
  using sha512_loop_total [of p buf "total64s ctx" ctx] by (cases "sha512_hash_loop p buf ctx") simp

lemma bufpos128: "unat ((t :: u64) AND 127) = unat t mod 128"
proof -
  have "t AND 127 = take_bit 7 t" by (simp add: take_bit_eq_mask mask_eq_exp_minus_1)
  then have "unat (t AND 127) = take_bit 7 (unat t)" by (simp only: unsigned_take_bit_eq)
  then show ?thesis by (simp add: take_bit_eq_mod)
qed

lemma sha512_total_mod: "unat (t ! 0) mod 128 = sha512_total t mod 128"
proof -
  have "(2 ^ 64 * unat (t ! 1)) mod 128 = 0" by (simp add: mod_mult_left_eq [symmetric, of "2 ^ 64"])
  then show ?thesis unfolding sha512_total_def by (simp add: mod_add_right_eq [symmetric] del: power_numeral)
qed

section \<open>Correctness of SHA-512\<close>

definition sha512_compress :: "u64 list \<Rightarrow> bytes \<Rightarrow> u64 list" where
  "sha512_compress h blk = fips_sha512 h (be_words 8 16 blk)"

definition sha512_iv :: "u64 list" where
  "sha512_iv = [0x6a09e667f3bcc908, 0xbb67ae8584caa73b, 0x3c6ef372fe94f82b, 0xa54ff53a5f1d36f1,
     0x510e527fade682d1, 0x9b05688c2b3e6c1f, 0x1f83d9abfb41bd6b, 0x5be0cd19137e2179]"

text \<open>The length field: the number of bits as a 128-bit big endian integer.\<close>

definition sha512_length_bytes :: "nat \<Rightarrow> bytes" where
  "sha512_length_bytes n = be_bytes 16 (of_nat (8 * n) :: 128 word)"

definition fips_sha512_digest :: "bytes \<Rightarrow> bytes" where
  "fips_sha512_digest msg = concat (map (be_bytes 8) (foldl sha512_compress sha512_iv
     (full_blocks 128 (msg @ md_pad 128 (length msg) (sha512_length_bytes (length msg))))))"

lemma sha512_begin_iv:
  "total64s (sha512_begin ctx) = [0, 0]" "hash512 (sha512_begin ctx) = sha512_iv"
  "wbuffer128 (sha512_begin ctx) = wbuffer128 ctx"
  by (simp_all add: sha512_begin_def sha512_iv_def init256_def init512_lo_def Let_def upt_rec push_bit_eq_mult)

definition absorbed512 :: "bytes \<Rightarrow> sha512_ctx \<Rightarrow> bool" where
  "absorbed512 d ctx \<longleftrightarrow> sha512_ok ctx \<and> sha512_total (total64s ctx) = length d mod 2 ^ 128
     \<and> take (length d mod 128) (wbuffer128 ctx) = rest_bytes 128 d
     \<and> hash512 ctx = foldl sha512_compress sha512_iv (full_blocks 128 d)"

lemma absorbed512_begin: "sha512_ok ctx \<Longrightarrow> absorbed512 [] (sha512_begin ctx)"
  by (simp add: absorbed512_def sha512_ok_def sha512_begin_iv sha512_total_def sha512_iv_def rest_bytes_def)

lemma sha512_process_compress:
  "length (wbuffer128 ctx) = 128 \<Longrightarrow>
    hash512 (sha512_process_block128 ctx) = sha512_compress (hash512 ctx) (wbuffer128 ctx)"
proof -
  assume "length (wbuffer128 ctx) = 128"
  then have "map bswap (read_words64 (wbuffer128 ctx)) = be_words 8 16 (wbuffer128 ctx)"
    by (simp add: read_words64_def be_words_def bswap_le_word)
  moreover have "length (read_words64 (wbuffer128 ctx)) = 16" by (simp add: read_words64_def)
  ultimately show ?thesis
    by (simp add: sha512_process_block128_def sha512_compress_def sha512_block_fips)
qed

lemma sha512_process_blocks:
  assumes "sha512_ok ctx" and "\<forall>blk \<in> set bs. length blk = 128"
  defines "c \<equiv> foldl (\<lambda>c blk. sha512_process_block128 (sha512_ins 0 blk c)) ctx bs"
  shows "sha512_ok c \<and> total64s c = total64s ctx \<and> hash512 c = foldl sha512_compress (hash512 ctx) bs"
  using assms(1,2) unfolding c_def
proof (induction bs arbitrary: ctx)
  case Nil
  then show ?case by simp
next
  case (Cons blk bs)
  let ?c = "sha512_process_block128 (sha512_ins 0 blk ctx)"
  have blk: "length blk = 128" using Cons.prems by simp
  have ins: "sha512_ins 0 blk ctx = ctx\<lparr>wbuffer128 := blk\<rparr>"
    using Cons.prems(1) blk by (simp add: sha512_ins_def sha512_ok_def write_at_full)
  have "sha512_ok ?c" "total64s ?c = total64s ctx"
    using Cons.prems(1) blk by (simp_all add: ins sha512_ok_def sha512_process_block128_def len_simps)
  moreover have "hash512 ?c = sha512_compress (hash512 ctx) blk"
    using sha512_process_compress [of "ctx\<lparr>wbuffer128 := blk\<rparr>"] blk by (simp add: ins)
  ultimately show ?case using Cons.IH [of ?c] Cons.prems(2) by simp
qed

text \<open>One update carries the counter and extends what has been absorbed.\<close>

lemma absorbed512_step:
  assumes "absorbed512 d ctx" and "length xs < 2 ^ 64"
  shows "absorbed512 (d @ xs) (sha512_hash ctx xs)"
proof -
  let ?r = "rest_bytes 128 d" and ?t = "sha512_count (of_nat (length xs)) (total64s ctx)"
  define c where "c = ctx\<lparr>total64s := ?t\<rparr>"
  define f where "f = foldl (\<lambda>c blk. sha512_process_block128 (sha512_ins 0 blk c)) c (full_blocks 128 (?r @ xs))"
  have lr: "length ?r = length d mod 128" by (simp add: length_rest_bytes)
  have "sha512_ok ctx" using assms(1) by (simp only: absorbed512_def)
  then have ok: "sha512_ok c" by (simp add: c_def sha512_ok_def sha512_count_def Let_def)
  have f: "sha512_ok f \<and> total64s f = ?t \<and> hash512 f = foldl sha512_compress (hash512 ctx) (full_blocks 128 (?r @ xs))"
  proof -
    have bl: "\<forall>blk \<in> set (full_blocks 128 (?r @ xs)). length blk = 128"
      by (blast dest: full_blocks_lengths)
    have "total64s c = ?t" "hash512 c = hash512 ctx" by (simp_all add: c_def)
    then show ?thesis using sha512_process_blocks [OF ok bl] by (simp only: f_def)
  qed
  have same: "sha512_ins 0 ?r c = c"
  proof -
    have "take (length d mod 128) (wbuffer128 ctx) = ?r" using assms(1) by (simp only: absorbed512_def)
    then have "write_at 0 ?r (wbuffer128 ctx) = wbuffer128 ctx"
      using write_at_same [of "length d mod 128" "wbuffer128 ctx"] by simp
    then show ?thesis by (simp add: sha512_ins_def c_def)
  qed
  have total: "sha512_total ?t = length (d @ xs) mod 2 ^ 128"
    using assms sha512_total_count [of "total64s ctx" "length xs"]
    by (simp add: absorbed512_def sha512_ok_def mod_add_left_eq)
  have "unat (total64s ctx ! 0) mod 128 = length d mod 2 ^ 128 mod 128"
    using assms(1) by (simp add: sha512_total_mod absorbed512_def)
  then have "unat (total64s ctx ! 0) mod 128 = length ?r"
    by (simp add: mod_mod_cancel lr)
  then have "sha512_hash ctx xs = sha512_hash_loop (length ?r) xs c"
    by (simp add: sha512_hash_def bufpos128 c_def)
  also have "\<dots> = sha512_ins 0 (rest_bytes 128 (?r @ xs)) f"
    using sha512_buf.loop_resume [OF ok same] lr by (simp add: f_def)
  finally have eq: "sha512_hash ctx xs = sha512_ins 0 (rest_bytes 128 (d @ xs)) f"
    by (simp add: rest_bytes_split [of 128 d xs])
  have "length (rest_bytes 128 (d @ xs)) = length (d @ xs) mod 128" by (simp only: length_rest_bytes)
  moreover from this have "sha512_ok (sha512_hash ctx xs)"
    unfolding eq using f by (intro sha512_buf.ok_ins) (simp_all add: less_imp_le)
  moreover have "sha512_total (total64s (sha512_hash ctx xs)) = length (d @ xs) mod 2 ^ 128"
    using f total by (simp add: eq sha512_ins_def)
  moreover have "hash512 (sha512_hash ctx xs) = foldl sha512_compress sha512_iv (full_blocks 128 (d @ xs))"
    using f assms(1) full_blocks_split [of 128 d xs] by (simp add: eq sha512_ins_def absorbed512_def)
  ultimately show ?thesis
    using f take_write_at [of 0 "wbuffer128 f" "rest_bytes 128 (d @ xs)"]
    unfolding absorbed512_def eq by (simp add: sha512_ins_def)
qed

lemma absorbed512_chunks:
  "absorbed512 d ctx \<Longrightarrow> \<forall>x \<in> set chunks. length x < 2 ^ 64 \<Longrightarrow>
    absorbed512 (d @ concat chunks) (foldl sha512_hash ctx chunks)"
proof (induction chunks arbitrary: d ctx)
  case Nil
  then show ?case by simp
next
  case (Cons x xs)
  then show ?case using absorbed512_step [of d ctx x] Cons.IH [of "d @ x" "sha512_hash ctx x"] by simp
qed

text \<open>The final blocks.\<close>

definition count_bytes128 :: "sha512_ctx \<Rightarrow> bytes" where
  "count_bytes128 ctx =
     be_bytes 8 (push_bit 3 (total64s ctx ! 1) OR drop_bit 61 (total64s ctx ! 0))
     @ be_bytes 8 (push_bit 3 (total64s ctx ! 0))"

lemma sha512_last_block:
  assumes "length (wbuffer128 ctx) = 128" and "p \<le> 112"
  shows "sha512_end_loop p ctx = sha512_process_block128
    (ctx\<lparr>wbuffer128 := take p (wbuffer128 ctx) @ replicate (112 - p) 0 @ count_bytes128 ctx\<rparr>)"
proof -
  let ?lo = "push_bit 3 (total64s ctx ! 0)"
  let ?hi = "push_bit 3 (total64s ctx ! 1) OR drop_bit 61 (total64s ctx ! 0)"
  have "write_at 112 (be_bytes 8 ?hi) (write_at 120 (be_bytes 8 ?lo) (write_at p (replicate (128 - p) 0) (wbuffer128 ctx)))
      = take p (wbuffer128 ctx) @ replicate (112 - p) 0 @ count_bytes128 ctx"
    using assms by (simp add: write_at_def count_bytes128_def min_def)
  then show ?thesis
    using assms by (subst sha512_end_loop.simps) (simp add: Let_def le_bytes_bswap)
qed

lemma sha512_two_blocks:
  assumes "length (wbuffer128 ctx) = 128" and "112 < p" and "p \<le> 128"
  shows "sha512_end_loop p ctx = sha512_end_loop 0 (sha512_process_block128
    (ctx\<lparr>wbuffer128 := take p (wbuffer128 ctx) @ replicate (128 - p) 0\<rparr>))"
  using assms by (subst sha512_end_loop.simps) (simp add: Let_def write_at_def)

lemma sha512_end_blocks:
  assumes "absorbed512 d ctx" and "lb = count_bytes128 ctx"
  shows "snd (sha512_end ctx) = concat (map (be_bytes 8) (foldl sha512_compress sha512_iv
    (full_blocks 128 (d @ md_pad 128 (length d) lb))))"
proof -
  let ?p = "length d mod 128" and ?r = "rest_bytes 128 d"
  let ?h = "foldl sha512_compress sha512_iv (full_blocks 128 d)"
  define c where "c = ctx\<lparr>wbuffer128 := (wbuffer128 ctx)[?p := 0x80]\<rparr>"
  have pl: "?p < 128" by simp
  have lr: "length ?r = ?p" by (simp add: length_rest_bytes)
  have "unat (total64s ctx ! 0) mod 128 = length d mod 2 ^ 128 mod 128"
    using assms(1) by (simp add: sha512_total_mod absorbed512_def)
  then have "unat (total64s ctx ! 0) mod 128 = ?p" by (simp add: mod_mod_cancel)
  then have fin: "snd (sha512_end ctx) = concat (map (be_bytes 8) (hash512 (sha512_end_loop (?p + 1) c)))"
    by (simp add: sha512_end_def bufpos128 c_def Let_def le_bytes_bswap comp_def)
  have ok: "sha512_ok ctx" using assms(1) by (simp only: absorbed512_def)
  have c: "length (wbuffer128 c) = 128" "hash512 c = ?h" "count_bytes128 c = lb"
    using assms ok by (simp_all add: c_def absorbed512_def sha512_ok_def count_bytes128_def)
  have tk: "take (?p + 1) (wbuffer128 c) = ?r @ [0x80]"
    using assms(1) ok pl by (simp add: c_def absorbed512_def sha512_ok_def take_Suc_conv_app_nth)
  have lb: "length lb = 16" using assms(2) by (simp add: count_bytes128_def)
  show ?thesis
  proof (cases "?p + 1 \<le> 112")
    case True
    let ?blk = "?r @ 0x80 # replicate (111 - ?p) 0 @ lb"
    have one: "full_blocks 128 (d @ md_pad 128 (length d) lb) = full_blocks 128 d @ [?blk]"
      using True lb md_pad_one_block [where d = d and B = 128 and lb = lb] by simp
    have blk: "length ?blk = 128" using True lr lb by simp
    have "sha512_end_loop (?p + 1) c = sha512_process_block128 (c\<lparr>wbuffer128 := ?blk\<rparr>)"
      using sha512_last_block [OF c(1) True] tk c(3) by simp
    then show ?thesis
      using sha512_process_compress [of "c\<lparr>wbuffer128 := ?blk\<rparr>"] c blk by (simp add: one fin)
  next
    case False
    let ?b1 = "?r @ 0x80 # replicate (127 - ?p) 0" and ?b2 = "replicate 112 0 @ lb"
    have two: "full_blocks 128 (d @ md_pad 128 (length d) lb) = full_blocks 128 d @ [?b1, ?b2]"
      using False pl lb md_pad_two_blocks [where d = d and B = 128 and lb = lb] by simp
    have b1: "length ?b1 = 128" and b2: "length ?b2 = 128" using pl lr lb by simp_all
    let ?c1 = "sha512_process_block128 (c\<lparr>wbuffer128 := ?b1\<rparr>)"
    have c1: "count_bytes128 ?c1 = lb" "length (wbuffer128 ?c1) = 128"
      using c(3) b1 by (simp_all add: count_bytes128_def sha512_process_block128_def)
    have "sha512_end_loop (?p + 1) c = sha512_end_loop 0 ?c1"
      using sha512_two_blocks [OF c(1), of "?p + 1"] False pl tk by simp
    also have "\<dots> = sha512_process_block128 (?c1\<lparr>wbuffer128 := ?b2\<rparr>)"
      using sha512_last_block [of ?c1 0] c1 by simp
    finally show ?thesis
      using sha512_process_compress [of "c\<lparr>wbuffer128 := ?b1\<rparr>"]
        sha512_process_compress [of "?c1\<lparr>wbuffer128 := ?b2\<rparr>"] c b1 b2
      by (simp add: two fin)
  qed
qed

text \<open>The two counter words, shifted left by three, are the 128-bit number of bits.\<close>

lemma be_bytes_16:
  "be_bytes 16 (w :: 128 word) = be_bytes 8 (ucast (drop_bit 64 w) :: u64) @ be_bytes 8 (ucast w :: u64)"
proof -
  have "le_bytes 16 w = le_bytes 8 (ucast w :: u64) @ le_bytes 8 (ucast (drop_bit 64 w) :: u64)"
  proof (rule nth_equalityI)
    fix i assume "i < length (le_bytes 16 w)"
    then have i: "i < 16" by simp
    show "le_bytes 16 w ! i = (le_bytes 8 (ucast w :: u64) @ le_bytes 8 (ucast (drop_bit 64 w) :: u64)) ! i"
    proof (rule bit_word_eqI)
      fix j :: nat assume "j < LENGTH(8)"
      then have j: "j < 8" by simp
      show "bit (le_bytes 16 w ! i) j =
          bit ((le_bytes 8 (ucast w :: u64) @ le_bytes 8 (ucast (drop_bit 64 w) :: u64)) ! i) j"
      proof (cases "i < 8")
        case True
        then have "8 * i + j < 64" using j by linarith
        then show ?thesis using True i j by (simp add: nth_append bit_le_bytes bit_simps)
      next
        case False
        then have "8 * (i - 8) + j < 64" and "64 + (8 * (i - 8) + j) = 8 * i + j" using i j by linarith+
        then have "bit w (64 + (8 * (i - 8) + j)) = bit w (8 * i + j)" by (simp only:)
        then show ?thesis using False i j \<open>8 * (i - 8) + j < 64\<close>
          by (simp add: nth_append bit_le_bytes bit_simps del: diff_mult_distrib2 right_diff_distrib')
      qed
    qed
  qed simp
  then show ?thesis by (simp add: be_bytes_def)
qed

lemma sha512_length_field:
  assumes "length t = 2" and "sha512_total t = n mod 2 ^ 128"
  shows "ucast (of_nat (8 * n) :: 128 word) = push_bit 3 (t ! 0)"
    and "ucast (drop_bit 64 (of_nat (8 * n) :: 128 word)) = push_bit 3 (t ! 1) OR drop_bit 61 (t ! 0)"
proof -
  define w where "w = (of_nat n :: 128 word)"
  have "unat w = unat (t ! 0) + 2 ^ 64 * unat (t ! 1)"
    using assms(2) by (simp add: w_def unat_of_nat sha512_total_def)
  moreover have "of_nat (unat w) = w" by (simp only: of_nat_unat ucast_id)
  ultimately have "w = of_nat (unat (t ! 0) + 2 ^ 64 * unat (t ! 1))" by (simp only:)
  also have "\<dots> = ucast (t ! 0) + push_bit 64 (ucast (t ! 1))"
    by (simp add: push_bit_eq_mult)
  also have "\<dots> = ucast (t ! 0) OR push_bit 64 (ucast (t ! 1))"
    by (rule disjunctive_add) (auto simp: bit_simps dest: bit_imp_le_length)
  finally have w: "w = ucast (t ! 0) OR push_bit 64 (ucast (t ! 1))" .
  have bits: "bit w i \<longleftrightarrow> (if i < 64 then bit (t ! 0) i else bit (t ! 1) (i - 64))" for i
    by (subst w) (auto simp: bit_simps dest: bit_imp_le_length)
  show "ucast (of_nat (8 * n) :: 128 word) = push_bit 3 (t ! 0)"
    unfolding push_bit_count [symmetric] w_def [symmetric] by (rule bit_word_eqI) (auto simp: bit_simps bits)
  show "ucast (drop_bit 64 (of_nat (8 * n) :: 128 word)) = push_bit 3 (t ! 1) OR drop_bit 61 (t ! 0)"
    unfolding push_bit_count [symmetric] w_def [symmetric] by (rule bit_word_eqI) (auto simp: bit_simps bits dest: bit_imp_le_length)
qed

lemma absorbed512_count_bytes:
  "absorbed512 d ctx \<Longrightarrow> count_bytes128 ctx = sha512_length_bytes (length d)"
  using sha512_length_field [of "total64s ctx" "length d"]
  by (simp only: absorbed512_def sha512_ok_def count_bytes128_def sha512_length_bytes_def be_bytes_16)

text \<open>
  C3. SHA-512: \<^verbatim>\<open>sha512_begin\<close>, \<^verbatim>\<open>sha512_hash\<close> on pieces that each fit
  \<^verbatim>\<open>size_t\<close> (with the carry into the second counter word), and \<^verbatim>\<open>sha512_end\<close>
  write the digest FIPS 180 defines for the whole message, whatever the context held and
  whatever the length of the message.
\<close>

theorem sha512_digest:
  assumes "sha512_ok ctx" and "\<forall>x \<in> set chunks. length x < 2 ^ 64"
  shows "snd (sha512_end (foldl sha512_hash (sha512_begin ctx) chunks)) = fips_sha512_digest (concat chunks)"
proof -
  have "absorbed512 (concat chunks) (foldl sha512_hash (sha512_begin ctx) chunks)"
    using absorbed512_chunks [OF absorbed512_begin [OF assms(1)] assms(2)] by simp
  then show ?thesis
    using sha512_end_blocks [OF _ refl] by (simp add: absorbed512_count_bytes fips_sha512_digest_def)
qed

theorem sha512_digest_witness:
  "sha512_ok \<lparr>total64s = [7, 9], hash512 = replicate 8 1, wbuffer128 = replicate 128 3\<rparr> \<and>
   snd (sha512_end (foldl sha512_hash
     (sha512_begin \<lparr>total64s = [7, 9], hash512 = replicate 8 1, wbuffer128 = replicate 128 3\<rparr>)
     [[0x61, 0x62], [], [0x63]])) = fips_sha512_digest [0x61, 0x62, 0x63]"
  using sha512_digest [of "\<lparr>total64s = [7, 9], hash512 = replicate 8 1, wbuffer128 = replicate 128 3\<rparr>"
    "[[0x61, 0x62], [], [0x63]]"]
  by (simp add: sha512_ok_def)

end
