(* ===== verification/Keccak.thy ===== *)
theory Keccak
  imports Prelude
begin

text \<open>
  The Keccak permutation of \<^verbatim>\<open>libbb/hash_md5_sha.c\<close>
  (\<^verbatim>\<open>sha3_process_block72\<close>, the native 64-bit version), with both bodies of its
  rho-pi step and both of its chi step (on 64-bit words, and on the 32-bit halves for targets with a
  32-bit \<^verbatim>\<open>long\<close>). It is shown to be Keccak-f[1600] of FIPS 202, whose round
  constants come from a shift register and whose rotations come from a walk over the lanes.
\<close>

section \<open>The code\<close>

definition rotl64 :: "u64 \<Rightarrow> nat \<Rightarrow> u64" where
  "rotl64 x n = push_bit n x OR drop_bit (64 - n) x"

definition IOTA_CONST :: "u16 list" where
  "IOTA_CONST = [
     0x0001, 0x8082, 0x808a, 0x8000, 0x808b, 0x0001, 0x8081, 0x8009,
     0x008a, 0x0088, 0x8009, 0x000a, 0x808b, 0x008b, 0x8089, 0x8003,
     0x8002, 0x0080, 0x800a, 0x000a, 0x8081, 0x8080, 0x0001, 0x8008]"

definition IOTA_CONST_bit63 :: u32 where
  "IOTA_CONST_bit63 = 0x3307dd00"

definition IOTA_CONST_bit31 :: u32 where
  "IOTA_CONST_bit31 = 0x16381b00"

definition ROT_CONST :: "nat list" where
  "ROT_CONST = [1, 3, 6, 10, 15, 21, 28, 36, 45, 55, 2, 14,
     27, 41, 56, 8, 25, 43, 62, 18, 39, 61, 20, 44]"

definition PI_LANE :: "nat list" where
  "PI_LANE = [10, 7, 11, 17, 18, 3, 5, 16, 8, 21, 24, 4,
     15, 23, 19, 13, 12, 2, 20, 14, 22, 9, 6, 1]"

text \<open>Theta: the column parities twice in a row, so that \<open>BC[x + 4]\<close> needs no modulus.\<close>

definition theta_BC :: "u64 list \<Rightarrow> u64 list" where
  "theta_BC state =
     (let BC = map (\<lambda>x. state ! x XOR state ! (x + 5) XOR state ! (x + 10) XOR state ! (x + 15)
                      XOR state ! (x + 20)) [0..<5]
      in BC @ BC)"

definition theta_column :: "u64 list \<Rightarrow> u64 list \<Rightarrow> nat \<Rightarrow> u64 list" where
  "theta_column BC state x =
     (let temp = BC ! (x + 4) XOR rotl64 (BC ! (x + 1)) 1
      in state[x := state ! x XOR temp,
               x + 5 := state ! (x + 5) XOR temp,
               x + 10 := state ! (x + 10) XOR temp,
               x + 15 := state ! (x + 15) XOR temp,
               x + 20 := state ! (x + 20) XOR temp])"

definition theta :: "u64 list \<Rightarrow> u64 list" where
  "theta state = foldl (theta_column (theta_BC state)) state [0..<5]"

text \<open>Rho and pi: \<^verbatim>\<open>SHA3_SMALL\<close> walks the cycle, the other body is unrolled in pairs.\<close>

definition RhoPi_step :: "u64 list \<times> u64 \<Rightarrow> nat \<Rightarrow> u64 list \<times> u64" where
  "RhoPi_step = (\<lambda>(state, t1) x.
     let t0 = state ! (PI_LANE ! x)
     in (state[PI_LANE ! x := rotl64 t1 (ROT_CONST ! x)], t0))"

definition rho_pi_small :: "u64 list \<Rightarrow> u64 list" where
  "rho_pi_small state = fst (foldl RhoPi_step (state, state ! 1) [0..<24])"

definition RhoPi_twice :: "u64 list \<times> u64 \<Rightarrow> nat \<Rightarrow> u64 list \<times> u64" where
  "RhoPi_twice = (\<lambda>(state, t1) x.
     let t0 = state ! (PI_LANE ! x);
         state = state[PI_LANE ! x := rotl64 t1 (ROT_CONST ! x)];
         t1 = state ! (PI_LANE ! (x + 1));
         state = state[PI_LANE ! (x + 1) := rotl64 t0 (ROT_CONST ! (x + 1))]
     in (state, t1))"

definition rho_pi_unrolled :: "u64 list \<Rightarrow> u64 list" where
  "rho_pi_unrolled state =
     fst (foldl RhoPi_twice (state, state ! 1) [0, 2, 4, 6, 8, 10, 12, 14, 16, 18, 20, 22])"

text \<open>Chi on one row of five words, in the order the code reads and writes them.\<close>

definition chi_row :: "u64 list \<Rightarrow> nat \<Rightarrow> u64 list" where
  "chi_row state x =
     (let BC0 = state ! (x + 0);
          BC1 = state ! (x + 1);
          BC2 = state ! (x + 2);
          state = state[x + 0 := BC0 XOR (NOT BC1 AND BC2)];
          BC3 = state ! (x + 3);
          state = state[x + 1 := BC1 XOR (NOT BC2 AND BC3)];
          BC4 = state ! (x + 4);
          state = state[x + 2 := BC2 XOR (NOT BC3 AND BC4)];
          state = state[x + 3 := BC3 XOR (NOT BC4 AND BC0)]
      in state[x + 4 := BC4 XOR (NOT BC0 AND BC1)])"

definition chi :: "u64 list \<Rightarrow> u64 list" where
  "chi state = foldl chi_row state [0, 5, 10, 15, 20]"

text \<open>
  Chi where \<^verbatim>\<open>long\<close> has 32 bits: \<open>s32\<close> are the halves of the words, low half
  first. \<open>x\<close> takes the values 0, 1, 10, 11, ... 41 in both of the loop's forms (with
  \<^verbatim>\<open>goto do_half\<close> and with the body written twice).
\<close>

definition halves :: "u64 list \<Rightarrow> u32 list" where
  "halves state = concat (map (\<lambda>w. [ucast w, ucast (drop_bit 32 w)]) state)"

definition chi32_row :: "u32 list \<Rightarrow> nat \<Rightarrow> u32 list" where
  "chi32_row s32 x =
     (let BC0 = s32 ! (x + 0 * 2);
          BC1 = s32 ! (x + 1 * 2);
          BC2 = s32 ! (x + 2 * 2);
          s32 = s32[x + 0 * 2 := BC0 XOR (NOT BC1 AND BC2)];
          BC3 = s32 ! (x + 3 * 2);
          s32 = s32[x + 1 * 2 := BC1 XOR (NOT BC2 AND BC3)];
          BC4 = s32 ! (x + 4 * 2);
          s32 = s32[x + 2 * 2 := BC2 XOR (NOT BC3 AND BC4)];
          s32 = s32[x + 3 * 2 := BC3 XOR (NOT BC4 AND BC0)]
      in s32[x + 4 * 2 := BC4 XOR (NOT BC0 AND BC1)])"

function chi32_loop :: "nat \<Rightarrow> u32 list \<Rightarrow> u32 list" where
  "chi32_loop x s32 =
     (if x \<le> 40 then
        let s32 = chi32_row s32 x;
            x = x + 1;
            s32 = chi32_row s32 x
        in chi32_loop (x + 9) s32
      else s32)"
  by pat_completeness auto
termination
  by (relation "measure (\<lambda>(x, s32). 41 - x)") auto

declare chi32_loop.simps [simp del]

definition iota_const :: "nat \<Rightarrow> u64" where
  "iota_const r = ucast (IOTA_CONST ! r)
     OR ucast (push_bit r IOTA_CONST_bit31 AND 0x80000000)
     OR push_bit 32 (ucast (push_bit r IOTA_CONST_bit63 AND 0x80000000))"

definition keccak_round :: "bool \<Rightarrow> u64 list \<Rightarrow> nat \<Rightarrow> u64 list" where
  "keccak_round small state r =
     (let state = theta state;
          state = (if small then rho_pi_small state else rho_pi_unrolled state);
          state = chi state
      in state[0 := state ! 0 XOR iota_const r])"

definition sha3_process_block72 :: "bool \<Rightarrow> u64 list \<Rightarrow> u64 list" where
  "sha3_process_block72 small state = foldl (keccak_round small) state [0..<24]"

section \<open>Keccak-f[1600] as FIPS 202 has it\<close>

text \<open>Lane \<open>A[x, y]\<close> of a state is its word \<open>x + 5 y\<close>.\<close>

definition lane :: "u64 list \<Rightarrow> nat \<Rightarrow> nat \<Rightarrow> u64" where
  "lane A x y = A ! (x mod 5 + 5 * (y mod 5))"

definition mk_state :: "(nat \<Rightarrow> nat \<Rightarrow> u64) \<Rightarrow> u64 list" where
  "mk_state f = map (\<lambda>i. f (i mod 5) (i div 5)) [0..<25]"

definition fips_C :: "u64 list \<Rightarrow> nat \<Rightarrow> u64" where
  "fips_C A x = lane A x 0 XOR lane A x 1 XOR lane A x 2 XOR lane A x 3 XOR lane A x 4"

definition fips_theta :: "u64 list \<Rightarrow> u64 list" where
  "fips_theta A = mk_state (\<lambda>x y. lane A x y XOR (fips_C A (x + 4) XOR rotl64 (fips_C A (x + 1)) 1))"

text \<open>
  Rho: the lane reached after \<open>t\<close> moves \<open>(x, y) \<mapsto> (y, 2 x + 3 y)\<close> from \<open>(1, 0)\<close> is
  rotated by \<open>(t + 1) (t + 2) / 2\<close>.
\<close>

fun rho_walk :: "nat \<Rightarrow> nat \<times> nat" where
  "rho_walk 0 = (1, 0)"
| "rho_walk (Suc t) = (case rho_walk t of (x, y) \<Rightarrow> (y, (2 * x + 3 * y) mod 5))"

definition rho_offset :: "nat \<Rightarrow> nat \<Rightarrow> nat" where
  "rho_offset x y =
     (case filter (\<lambda>t. rho_walk t = (x, y)) [0..<24] of
        [] \<Rightarrow> 0
      | t # ts \<Rightarrow> ((t + 1) * (t + 2) div 2) mod 64)"

definition fips_rho :: "u64 list \<Rightarrow> u64 list" where
  "fips_rho A = mk_state (\<lambda>x y. rotl64 (lane A x y) (rho_offset x y))"

definition fips_pi :: "u64 list \<Rightarrow> u64 list" where
  "fips_pi A = mk_state (\<lambda>x y. lane A (x + 3 * y) x)"

definition fips_chi :: "u64 list \<Rightarrow> u64 list" where
  "fips_chi A = mk_state (\<lambda>x y. lane A x y XOR (NOT (lane A (x + 1) y) AND lane A (x + 2) y))"

text \<open>
  The round constants: the bits of an eight-bit shift register with feedback \<open>0x71\<close>, at the
  positions \<open>2 ^ j - 1\<close>.
\<close>

definition lfsr_step :: "u8 \<Rightarrow> u8" where
  "lfsr_step R = (if bit R 7 then push_bit 1 R XOR 0x71 else push_bit 1 R)"

fun lfsr_bits :: "nat \<Rightarrow> u8 \<Rightarrow> bool list" where
  "lfsr_bits 0 R = []"
| "lfsr_bits (Suc n) R = bit R 0 # lfsr_bits n (lfsr_step R)"

definition fips_rc :: "bool list" where
  "fips_rc = lfsr_bits 168 1"

definition fips_RC :: "nat \<Rightarrow> u64" where
  "fips_RC r = foldl (\<lambda>c j. if fips_rc ! (j + 7 * r) then set_bit (2 ^ j - 1) c else c) 0 [0..<7]"

definition fips_round :: "u64 list \<Rightarrow> nat \<Rightarrow> u64 list" where
  "fips_round A r = (let A = fips_chi (fips_pi (fips_rho (fips_theta A))) in A[0 := A ! 0 XOR fips_RC r])"

definition keccak_f1600 :: "u64 list \<Rightarrow> u64 list" where
  "keccak_f1600 A = foldl fips_round A [0..<24]"

section \<open>The code is the standard\<close>

lemma upt_5: "[0..<5] = [0, 1, 2, 3, 4]"
  and upt_24: "[0..<24] = [0, 1, 2, 3, 4, 5, 6, 7, 8, 9, 10, 11, 12, 13, 14, 15, 16, 17, 18, 19, 20, 21, 22, 23]"
  and upt_25: "[0..<25] = [0, 1, 2, 3, 4, 5, 6, 7, 8, 9, 10, 11, 12, 13, 14, 15, 16, 17, 18, 19, 20, 21, 22, 23, 24]"
  by (simp_all add: upt_rec)

lemma state25: "length s = 25 \<Longrightarrow> s = [s ! 0, s ! 1, s ! 2, s ! 3, s ! 4, s ! 5, s ! 6, s ! 7, s ! 8, s ! 9, s ! 10, s ! 11, s ! 12, s ! 13, s ! 14, s ! 15, s ! 16, s ! 17, s ! 18, s ! 19, s ! 20, s ! 21, s ! 22, s ! 23, s ! 24]"
proof -
  assume "length s = 25"
  then have "s = map ((!) s) [0..<25]" using map_nth [of s] by simp
  then show ?thesis by (simp only: upt_25 list.map)
qed

lemma length_theta [simp]: "length (theta s) = length s"
proof -
  have "length (foldl (theta_column BC) s xs) = length s" for BC xs
    by (induction xs arbitrary: s) (simp_all add: theta_column_def Let_def)
  then show ?thesis by (simp add: theta_def)
qed

lemma rho_pi_variants: "rho_pi_unrolled s = rho_pi_small s"
proof -
  have "RhoPi_twice st x = RhoPi_step (RhoPi_step st x) (x + 1)" for st x
    by (simp add: RhoPi_twice_def RhoPi_step_def Let_def split: prod.split)
  then show ?thesis
    by (simp add: rho_pi_unrolled_def rho_pi_small_def upt_24)
qed

text \<open>The rotation of each lane, computed from the walk.\<close>

lemma rho_offsets:
  "rho_offset 0 0 = 0"
  "rho_offset (Suc 0) 0 = 1"
  "rho_offset 2 0 = 62"
  "rho_offset 3 0 = 28"
  "rho_offset 4 0 = 27"
  "rho_offset 0 (Suc 0) = 36"
  "rho_offset (Suc 0) (Suc 0) = 44"
  "rho_offset 2 (Suc 0) = 6"
  "rho_offset 3 (Suc 0) = 55"
  "rho_offset 4 (Suc 0) = 20"
  "rho_offset 0 2 = 3"
  "rho_offset (Suc 0) 2 = 10"
  "rho_offset 2 2 = 43"
  "rho_offset 3 2 = 25"
  "rho_offset 4 2 = 39"
  "rho_offset 0 3 = 41"
  "rho_offset (Suc 0) 3 = 45"
  "rho_offset 2 3 = 15"
  "rho_offset 3 3 = 21"
  "rho_offset 4 3 = 8"
  "rho_offset 0 4 = 18"
  "rho_offset (Suc 0) 4 = 2"
  "rho_offset 2 4 = 61"
  "rho_offset 3 4 = 56"
  "rho_offset 4 4 = 14"
  by code_simp+

lemma rotl64_0: "rotl64 x 0 = x"
  by (simp add: rotl64_def)

lemma theta_columns:
  "foldl (theta_column BC) [a0, a1, a2, a3, a4, a5, a6, a7, a8, a9, a10, a11, a12, a13, a14, a15, a16, a17, a18, a19, a20, a21, a22, a23, a24] [0..<5] = [a0 XOR (BC ! (0 + 4) XOR rotl64 (BC ! (0 + 1)) 1),
    a1 XOR (BC ! (1 + 4) XOR rotl64 (BC ! (1 + 1)) 1),
    a2 XOR (BC ! (2 + 4) XOR rotl64 (BC ! (2 + 1)) 1),
    a3 XOR (BC ! (3 + 4) XOR rotl64 (BC ! (3 + 1)) 1),
    a4 XOR (BC ! (4 + 4) XOR rotl64 (BC ! (4 + 1)) 1),
    a5 XOR (BC ! (0 + 4) XOR rotl64 (BC ! (0 + 1)) 1),
    a6 XOR (BC ! (1 + 4) XOR rotl64 (BC ! (1 + 1)) 1),
    a7 XOR (BC ! (2 + 4) XOR rotl64 (BC ! (2 + 1)) 1),
    a8 XOR (BC ! (3 + 4) XOR rotl64 (BC ! (3 + 1)) 1),
    a9 XOR (BC ! (4 + 4) XOR rotl64 (BC ! (4 + 1)) 1),
    a10 XOR (BC ! (0 + 4) XOR rotl64 (BC ! (0 + 1)) 1),
    a11 XOR (BC ! (1 + 4) XOR rotl64 (BC ! (1 + 1)) 1),
    a12 XOR (BC ! (2 + 4) XOR rotl64 (BC ! (2 + 1)) 1),
    a13 XOR (BC ! (3 + 4) XOR rotl64 (BC ! (3 + 1)) 1),
    a14 XOR (BC ! (4 + 4) XOR rotl64 (BC ! (4 + 1)) 1),
    a15 XOR (BC ! (0 + 4) XOR rotl64 (BC ! (0 + 1)) 1),
    a16 XOR (BC ! (1 + 4) XOR rotl64 (BC ! (1 + 1)) 1),
    a17 XOR (BC ! (2 + 4) XOR rotl64 (BC ! (2 + 1)) 1),
    a18 XOR (BC ! (3 + 4) XOR rotl64 (BC ! (3 + 1)) 1),
    a19 XOR (BC ! (4 + 4) XOR rotl64 (BC ! (4 + 1)) 1),
    a20 XOR (BC ! (0 + 4) XOR rotl64 (BC ! (0 + 1)) 1),
    a21 XOR (BC ! (1 + 4) XOR rotl64 (BC ! (1 + 1)) 1),
    a22 XOR (BC ! (2 + 4) XOR rotl64 (BC ! (2 + 1)) 1),
    a23 XOR (BC ! (3 + 4) XOR rotl64 (BC ! (3 + 1)) 1),
    a24 XOR (BC ! (4 + 4) XOR rotl64 (BC ! (4 + 1)) 1)]"
  by (simp add: theta_column_def Let_def upt_5)

lemma theta_fips:
  assumes "length s = 25"
  shows "theta s = fips_theta s"
proof -
  have BC: "theta_BC s = [fips_C s 0, fips_C s 1, fips_C s 2, fips_C s 3, fips_C s 4,
      fips_C s 5, fips_C s 6, fips_C s 7, fips_C s 8, fips_C s 9]"
    by (simp add: theta_BC_def fips_C_def lane_def Let_def upt_5)
  have "theta s = foldl (theta_column (theta_BC s)) [s ! 0, s ! 1, s ! 2, s ! 3, s ! 4, s ! 5, s ! 6, s ! 7, s ! 8, s ! 9, s ! 10, s ! 11, s ! 12, s ! 13, s ! 14, s ! 15, s ! 16, s ! 17, s ! 18, s ! 19, s ! 20, s ! 21, s ! 22, s ! 23, s ! 24] [0..<5]"
    using state25 [OF assms] by (simp add: theta_def)
  also have "\<dots> = fips_theta s"
    unfolding theta_columns BC
    by (simp add: fips_theta_def mk_state_def lane_def upt_25 numeral_2_eq_2 [symmetric])
  finally show ?thesis .
qed

lemma rho_pi_fips:
  assumes "length s = 25"
  shows "rho_pi_small s = fips_pi (fips_rho s)"
proof -
  have "rho_pi_small [s ! 0, s ! 1, s ! 2, s ! 3, s ! 4, s ! 5, s ! 6, s ! 7, s ! 8, s ! 9, s ! 10, s ! 11, s ! 12, s ! 13, s ! 14, s ! 15, s ! 16, s ! 17, s ! 18, s ! 19, s ! 20, s ! 21, s ! 22, s ! 23, s ! 24] = fips_pi (fips_rho s)"
    by (simp add: rho_pi_small_def RhoPi_step_def PI_LANE_def ROT_CONST_def fips_pi_def fips_rho_def
        mk_state_def lane_def upt_24 upt_25 rho_offsets rotl64_0)
  then show ?thesis using state25 [OF assms] by simp
qed

lemma chi_fips:
  assumes "length s = 25"
  shows "chi s = fips_chi s"
proof -
  have "chi [s ! 0, s ! 1, s ! 2, s ! 3, s ! 4, s ! 5, s ! 6, s ! 7, s ! 8, s ! 9, s ! 10, s ! 11, s ! 12, s ! 13, s ! 14, s ! 15, s ! 16, s ! 17, s ! 18, s ! 19, s ! 20, s ! 21, s ! 22, s ! 23, s ! 24] = fips_chi s"
    by (simp add: chi_def chi_row_def fips_chi_def mk_state_def lane_def upt_25 Let_def
        numeral_2_eq_2 [symmetric])
  then show ?thesis using state25 [OF assms] by simp
qed

lemma fips_rc_bits:
  "fips_rc = [True, False, False, False, False, False, False, False, True, False, True, True, False,
     False, False, True, True, True, True, False, True, False, False, False, False, True, True,
     True, True, True, True, True, True, False, False, True, False, False, False, False, True,
     False, True, False, False, True, True, True, True, True, False, True, False, True, False,
     True, False, True, True, True, False, False, False, False, False, True, True, False,
     False, False, True, False, True, False, True, True, False, False, True, True, False,
     False, True, False, True, True, True, True, True, True, False, True, True, True, True,
     False, False, True, True, False, True, True, True, False, True, True, True, False, False,
     True, False, True, False, True, False, False, True, False, True, False, False, False,
     True, False, False, True, False, True, True, False, True, False, False, False, True, True,
     False, False, True, True, True, False, False, True, True, True, True, False, False, False,
     True, True, False, True, True, False, False, False, False, True, False, False, False,
     True, False, True, True, True]"
  unfolding fips_rc_def by code_simp

text \<open>Truncation and taking the upper half commute with the bitwise operations.\<close>

definition chi_op :: "'a::len word \<Rightarrow> 'a word \<Rightarrow> 'a word \<Rightarrow> 'a word" where
  "chi_op a b c = a XOR (NOT b AND c)"

lemma half_ops:
  "(ucast (chi_op a b c) :: u32) = chi_op (ucast (a :: u64)) (ucast b) (ucast c)"
  "(ucast (drop_bit 32 (chi_op a b c)) :: u32) =
    chi_op (ucast (drop_bit 32 (a :: u64))) (ucast (drop_bit 32 b)) (ucast (drop_bit 32 c))"
  unfolding chi_op_def by (rule bit_word_eqI, auto simp: bit_simps)+

lemma chi32_row_op:
  "chi32_row s x = s[x := chi_op (s ! x) (s ! (x + 2)) (s ! (x + 4)),
     x + 2 := chi_op (s ! (x + 2)) (s ! (x + 4)) (s ! (x + 6)),
     x + 4 := chi_op (s ! (x + 4)) (s ! (x + 6)) (s ! (x + 8)),
     x + 6 := chi_op (s ! (x + 6)) (s ! (x + 8)) (s ! x),
     x + 8 := chi_op (s ! (x + 8)) (s ! x) (s ! (x + 2))]"
  by (simp add: chi32_row_def chi_op_def Let_def)

lemma chi_row_op:
  "chi_row s x = s[x := chi_op (s ! x) (s ! (x + 1)) (s ! (x + 2)),
     x + 1 := chi_op (s ! (x + 1)) (s ! (x + 2)) (s ! (x + 3)),
     x + 2 := chi_op (s ! (x + 2)) (s ! (x + 3)) (s ! (x + 4)),
     x + 3 := chi_op (s ! (x + 3)) (s ! (x + 4)) (s ! x),
     x + 4 := chi_op (s ! (x + 4)) (s ! x) (s ! (x + 1))]"
  by (simp add: chi_row_def chi_op_def Let_def)

lemma chi32_loop_rows:
  "chi32_loop 0 s = foldl chi32_row s [0, 1, 10, 11, 20, 21, 30, 31, 40, 41]"
  by (simp add: chi32_loop.simps Let_def del: One_nat_def)

lemma length_halves [simp]: "length (halves s) = 2 * length s"
  by (induction s) (simp_all add: halves_def)

lemma nth_halves:
  "k < length s \<Longrightarrow> halves s ! (2 * k) = ucast (s ! k)"
  "k < length s \<Longrightarrow> halves s ! Suc (2 * k) = ucast (drop_bit 32 (s ! k))"
proof -
  have "k < length s \<Longrightarrow> halves s ! (2 * k) = ucast (s ! k) \<and> halves s ! Suc (2 * k) = ucast (drop_bit 32 (s ! k))"
  proof (induction s arbitrary: k)
    case Nil
    then show ?case by simp
  next
    case (Cons w s)
    then show ?case by (cases k) (simp_all add: halves_def)
  qed
  then show "k < length s \<Longrightarrow> halves s ! (2 * k) = ucast (s ! k)"
    "k < length s \<Longrightarrow> halves s ! Suc (2 * k) = ucast (drop_bit 32 (s ! k))" by blast+
qed

text \<open>Two passes over the halves of a row are one over its words.\<close>

lemma chi32_row_halves:
  assumes "x + 4 < length s"
  shows "chi32_row (chi32_row (halves s) (2 * x)) (2 * x + 1) = halves (chi_row s x)"
proof (rule nth_equalityI)
  show "length (chi32_row (chi32_row (halves s) (2 * x)) (2 * x + 1)) = length (halves (chi_row s x))"
    by (simp add: chi32_row_op chi_row_op)
  fix i assume i: "i < length (chi32_row (chi32_row (halves s) (2 * x)) (2 * x + 1))"
  define k where "k = i div 2"
  have k: "k < length s" using i by (simp add: chi32_row_op k_def div_less_iff_less_mult mult.commute)
  have h: "halves s ! (2 * x + 2 * j) = ucast (s ! (x + j)) \<and> halves s ! Suc (2 * x + 2 * j) = ucast (drop_bit 32 (s ! (x + j)))"
    if "j \<le> 4" for j
    using that assms nth_halves [of "x + j" s] by (simp add: distrib_left)
  note hs = h [of 0] h [of 1] h [of 2] h [of 3] h [of 4]
  have len: "k < length (chi_row s x)" using k by (simp add: chi_row_op)
  have par: "Suc (2 * a) \<noteq> 2 * b" "2 * b \<noteq> Suc (2 * a)" for a b :: nat by presburger+
  note pars = par [of x k] par [of "x + 1" k] par [of "x + 2" k] par [of "x + 3" k] par [of "x + 4" k]
    par [of k x] par [of k "x + 1"] par [of k "x + 2"] par [of k "x + 3"] par [of k "x + 4"]
  consider "i = 2 * k" | "i = Suc (2 * k)" unfolding k_def by linarith
  then show "chi32_row (chi32_row (halves s) (2 * x)) (2 * x + 1) ! i = halves (chi_row s x) ! i"
  proof cases
    case 1
    then show ?thesis
      using k pars hs nth_halves(1) [OF k] nth_halves(1) [OF len] assms
      by (auto simp: chi32_row_op chi_row_op nth_list_update half_ops) 
  next
    case 2
    then show ?thesis
      using k pars hs nth_halves(2) [OF k] nth_halves(2) [OF len] assms
      by (auto simp: chi32_row_op chi_row_op nth_list_update half_ops) 
  qed
qed

lemma chi32_halves:
  assumes "length s = 25"
  shows "chi32_loop 0 (halves s) = halves (chi s)"
proof -
  have len: "length (chi_row s x) = length s" for s x by (simp add: chi_row_op)
  show ?thesis
    unfolding chi32_loop_rows chi_def foldl.simps
    using chi32_row_halves [of 0] chi32_row_halves [of 5] chi32_row_halves [of 10]
      chi32_row_halves [of 15] chi32_row_halves [of 20]
    by (simp add: len assms)
qed

lemma iota_fips: "r < 24 \<Longrightarrow> iota_const r = fips_RC r"
proof -
  assume "r < 24"
  moreover have "list_all (\<lambda>r. iota_const r = fips_RC r) [0..<24]"
    unfolding fips_RC_def fips_rc_bits by code_simp
  ultimately show ?thesis by (simp add: list_all_iff)
qed

lemma length_fips_steps [simp]:
  "length (fips_theta s) = 25" "length (fips_rho s) = 25" "length (fips_pi s) = 25"
  by (simp_all add: fips_theta_def fips_rho_def fips_pi_def mk_state_def)

lemma length_chi [simp]: "length (chi s) = length s"
  by (simp add: chi_def chi_row_def Let_def)

lemma length_rho_pi [simp]: "length (rho_pi_small s) = length s"
proof -
  have "length (fst (foldl RhoPi_step st xs)) = length (fst st)" for st xs
    by (induction xs arbitrary: st) (simp_all add: RhoPi_step_def Let_def split: prod.splits)
  then show ?thesis by (simp add: rho_pi_small_def)
qed

lemma keccak_round_fips:
  assumes "length s = 25" and "r < 24"
  shows "keccak_round small s r = fips_round s r"
  using assms theta_fips [of s] rho_pi_fips [of "theta s"] chi_fips [of "rho_pi_small (theta s)"]
  by (simp add: keccak_round_def fips_round_def rho_pi_variants iota_fips Let_def)

lemma length_keccak_round [simp]: "length (keccak_round small s r) = length s"
  by (simp add: keccak_round_def rho_pi_variants Let_def)

lemma length_sha3_process [simp]: "length (sha3_process_block72 small s) = length s"
proof -
  have "length (foldl (keccak_round small) s xs) = length s" for xs
    by (induction xs arbitrary: s) simp_all
  then show ?thesis by (simp add: sha3_process_block72_def)
qed

lemma sha3_process_fips:
  assumes "length s = 25"
  shows "sha3_process_block72 small s = keccak_f1600 s"
proof -
  have "length s = 25 \<Longrightarrow> \<forall>r \<in> set rs. r < 24 \<Longrightarrow> foldl (keccak_round small) s rs = foldl fips_round s rs"
    for rs and s :: "u64 list"
    by (induction rs arbitrary: s) (simp_all flip: keccak_round_fips [where small = small])
  then show ?thesis using assms by (simp add: sha3_process_block72_def keccak_f1600_def)
qed



end
