(* ===== verification/Hash_Sha3.thy ===== *)
theory Hash_Sha3
  imports Keccak Absorb "HOL-Library.Monad_Syntax"
begin

text \<open>
  The SHA-3 context of \<^verbatim>\<open>libbb/hash_md5_sha.c\<close>: \<^verbatim>\<open>sha3_begin\<close>, both
  bodies of \<^verbatim>\<open>sha3_hash\<close> (byte by byte with \<^verbatim>\<open>SHA3_SMALL\<close>, a word at a time
  otherwise) and \<^verbatim>\<open>sha3_end\<close>. The result is shown to be the sponge of FIPS 202 for every
  block size the callers can set.
\<close>

section \<open>Context and byte access\<close>

record sha3_ctx =
  state :: "u64 list"
  bytes_queued :: nat
  input_block_bytes :: nat

text \<open>\<^verbatim>\<open>buf[bufpos] ^= b\<close> with \<open>buf\<close> the state read as bytes, on a little endian machine.\<close>

definition xor_byte :: "nat \<Rightarrow> u8 \<Rightarrow> u64 list \<Rightarrow> u64 list" where
  "xor_byte bufpos b st = st[bufpos div 8 := st ! (bufpos div 8) XOR push_bit (8 * (bufpos mod 8)) (ucast b)]"

fun xor_bytes :: "nat \<Rightarrow> bytes \<Rightarrow> u64 list \<Rightarrow> u64 list" where
  "xor_bytes bufpos [] st = st"
| "xor_bytes bufpos (b # data) st = xor_bytes (bufpos + 1) data (xor_byte bufpos b st)"

section \<open>The operations\<close>

definition sha3_begin :: "sha3_ctx \<Rightarrow> sha3_ctx" where
  "sha3_begin ctx = \<lparr>state = replicate 25 0, bytes_queued = 0, input_block_bytes = (1600 - 512 * 2) div 8\<rparr>"

text \<open>
  The loop of the small body. It does not end when the block size is 0, so it is a partial
  function; it returns the context and the final \<open>bufpos\<close>.
\<close>

partial_function (option) sha3_hash_loop :: "nat \<Rightarrow> bytes \<Rightarrow> sha3_ctx \<Rightarrow> (nat \<times> sha3_ctx) option" where
  "sha3_hash_loop bufpos data ctx =
     (let remaining = min (input_block_bytes ctx - bufpos) (length data);
          ctx = ctx\<lparr>state := xor_bytes bufpos (take remaining data) (state ctx)\<rparr>;
          data = drop remaining data;
          bufpos = bufpos + remaining
      in if bufpos = input_block_bytes ctx
         then sha3_hash_loop 0 data (ctx\<lparr>state := sha3_process_block72 True (state ctx)\<rparr>)
         else Some (bufpos, ctx))"

definition sha3_hash :: "sha3_ctx \<Rightarrow> bytes \<Rightarrow> sha3_ctx option" where
  "sha3_hash ctx data = do {
     (bufpos, ctx) \<leftarrow> sha3_hash_loop (bytes_queued ctx) data ctx;
     Some (ctx\<lparr>bytes_queued := bufpos\<rparr>)
   }"

text \<open>
  The other body. First what is queued is continued: \<open>True\<close> is the jump to \<^verbatim>\<open>do_block\<close>.
\<close>

fun sha3_queue :: "nat \<Rightarrow> nat \<Rightarrow> bytes \<Rightarrow> u64 list \<Rightarrow> bool \<times> nat \<times> bytes \<times> u64 list" where
  "sha3_queue iblk bufpos [] st = (False, bufpos, [], st)"
| "sha3_queue iblk bufpos (b # data) st =
     (let st = xor_byte bufpos b st; bufpos = bufpos + 1
      in if bufpos = iblk then (True, 0, data, st) else sha3_queue iblk bufpos data st)"

text \<open>\<^verbatim>\<open>do ... while (--count)\<close>: one word XORed at a time.\<close>

fun xor_words :: "nat \<Rightarrow> nat \<Rightarrow> bytes \<Rightarrow> u64 list \<Rightarrow> u64 list" where
  "xor_words i 0 data st = st"
| "xor_words i (Suc count) data st =
     xor_words (i + 1) count (drop 8 data) (st[i := st ! i XOR le_word (take 8 data)])"

partial_function (option) sha3_blocks :: "nat \<Rightarrow> bytes \<Rightarrow> u64 list \<Rightarrow> (bytes \<times> u64 list) option" where
  "sha3_blocks iblk data st =
     (if iblk \<le> length data
      then sha3_blocks iblk (drop iblk data)
             (sha3_process_block72 False (xor_words 0 (iblk div 8) data st))
      else Some (data, st))"

definition sha3_hash_fast :: "sha3_ctx \<Rightarrow> bytes \<Rightarrow> sha3_ctx option" where
  "sha3_hash_fast ctx data =
     (let bufpos = bytes_queued ctx;
          iblk = input_block_bytes ctx;
          (full, bufpos, data, st) =
            (if bufpos \<noteq> 0 then sha3_queue iblk bufpos data (state ctx)
             else (False, bufpos, data, state ctx));
          st = (if full then sha3_process_block72 False st else st)
      in do {
           (data, st) \<leftarrow> sha3_blocks iblk data st;
           Some (ctx\<lparr>state := xor_bytes bufpos data st, bytes_queued := bufpos + length data\<rparr>)
         })"

definition sha3_end :: "sha3_ctx \<Rightarrow> sha3_ctx \<times> bytes" where
  "sha3_end ctx =
     (let st = xor_byte (bytes_queued ctx) 6 (state ctx);
          st = xor_byte (input_block_bytes ctx - 1) 0x80 st;
          st = sha3_process_block72 True st;
          ctx = ctx\<lparr>state := st\<rparr>
      in (ctx, take 64 (concat (map (le_bytes 8) st))))"

section \<open>The state as bytes\<close>

definition st_bytes :: "u64 list \<Rightarrow> bytes" where
  "st_bytes st = concat (map (le_bytes 8) st)"

lemma length_st_bytes [simp]: "length (st_bytes st) = 8 * length st"
  by (induction st) (simp_all add: st_bytes_def)

lemma nth_st_bytes: "i < 8 * length st \<Longrightarrow> st_bytes st ! i = le_bytes 8 (st ! (i div 8)) ! (i mod 8)"
proof (induction st arbitrary: i)
  case Nil
  then show ?case by simp
next
  case (Cons w st)
  show ?case
  proof (cases "i < 8")
    case True
    then show ?thesis by (simp add: st_bytes_def nth_append)
  next
    case False
    then have "i div 8 = Suc ((i - 8) div 8)" "i mod 8 = (i - 8) mod 8"
      by (auto simp: le_div_geq le_mod_geq)
    then show ?thesis
      using False Cons.prems Cons.IH [of "i - 8"] by (simp add: st_bytes_def nth_append)
  qed
qed

lemma st_bytes_inject:
  assumes "st_bytes s = st_bytes t" and "length s = length t"
  shows "s = t"
proof (rule nth_equalityI [OF assms(2)])
  fix i assume i: "i < length s"
  have "le_bytes 8 (s ! i) = le_bytes 8 (t ! i)"
  proof (rule nth_equalityI)
    fix j assume "j < length (le_bytes 8 (s ! i))"
    then have j: "j < 8" by simp
    then have b: "8 * i + j < 8 * length s" using i by linarith
    have "(8 * i + j) div 8 = i" "(8 * i + j) mod 8 = j" using j by simp_all
    then show "le_bytes 8 (s ! i) ! j = le_bytes 8 (t ! i) ! j"
      using nth_st_bytes [OF b] nth_st_bytes [of "8 * i + j" t] b assms by simp
  qed simp
  then have "le_word (le_bytes 8 (s ! i)) = (le_word (le_bytes 8 (t ! i)) :: u64)" by (simp only:)
  then show "s ! i = t ! i" by (simp add: le_word_le_bytes)
qed

lemma length_xor_byte [simp]: "length (xor_byte p b st) = length st"
  by (simp add: xor_byte_def)

lemma length_xor_bytes [simp]: "length (xor_bytes p bs st) = length st"
  by (induction bs arbitrary: p st) simp_all

text \<open>In terms of bytes, \<open>xor_byte\<close> changes one byte, \<open>xor_bytes\<close> a run of them.\<close>

lemma st_bytes_xor_byte:
  assumes "p < 8 * length st"
  shows "st_bytes (xor_byte p b st) = (st_bytes st)[p := st_bytes st ! p XOR b]"
proof (rule nth_equalityI)
  fix i assume "i < length (st_bytes (xor_byte p b st))"
  then have i: "i < 8 * length st" by simp
  have pd: "p div 8 < length st" using assms by (simp add: div_less_iff_less_mult mult.commute)
  have st': "st_bytes (xor_byte p b st) ! i = le_bytes 8 (xor_byte p b st ! (i div 8)) ! (i mod 8)"
    using i by (simp add: nth_st_bytes)
  show "st_bytes (xor_byte p b st) ! i = (st_bytes st)[p := st_bytes st ! p XOR b] ! i"
  proof (cases "i div 8 = p div 8")
    case False
    then have "i \<noteq> p" by auto
    then show ?thesis using False i by (simp add: st' xor_byte_def nth_st_bytes)
  next
    case True
    let ?w = "st ! (p div 8)"
    have "le_bytes 8 (?w XOR push_bit (8 * (p mod 8)) (ucast b)) ! (i mod 8) =
        (if i = p then le_bytes 8 ?w ! (p mod 8) XOR b else le_bytes 8 ?w ! (i mod 8))"
    proof (rule bit_word_eqI)
      fix j :: nat assume "j < LENGTH(8)"
      then have j: "j < 8" by simp
      have same: "i = p \<longleftrightarrow> i mod 8 = p mod 8" using True by (metis div_mult_mod_eq)
      have "8 * (i mod 8) + j < 64" using j mod_less_divisor [of 8 i] by linarith
      moreover have "8 * (p mod 8) \<le> 8 * (i mod 8) + j \<and> 8 * (i mod 8) + j - 8 * (p mod 8) < 8
          \<longleftrightarrow> i mod 8 = p mod 8" using j by linarith
      moreover have "bit b n \<Longrightarrow> n < 8" for n using bit_imp_le_length [of b n] by simp
      ultimately show "bit (le_bytes 8 (?w XOR push_bit (8 * (p mod 8)) (ucast b)) ! (i mod 8)) j =
          bit (if i = p then le_bytes 8 ?w ! (p mod 8) XOR b else le_bytes 8 ?w ! (i mod 8)) j"
        using j same by (auto simp: bit_le_bytes bit_simps)
    qed
    then show ?thesis using True i assms pd by (simp add: st' xor_byte_def nth_st_bytes)
  qed
qed simp

definition xor_at :: "nat \<Rightarrow> bytes \<Rightarrow> bytes \<Rightarrow> bytes" where
  "xor_at p bs s = take p s @ map2 (XOR) (take (length bs) (drop p s)) bs @ drop (p + length bs) s"

lemma nth_xor_at:
  "p + length bs \<le> length s \<Longrightarrow> i < length s \<Longrightarrow>
    xor_at p bs s ! i = (if p \<le> i \<and> i < p + length bs then s ! i XOR bs ! (i - p) else s ! i)"
  by (auto simp: xor_at_def nth_append min_def)

lemma length_xor_at: "p + length bs \<le> length s \<Longrightarrow> length (xor_at p bs s) = length s"
  by (simp add: xor_at_def)

lemma st_bytes_xor_bytes:
  "p + length bs \<le> 8 * length st \<Longrightarrow> st_bytes (xor_bytes p bs st) = xor_at p bs (st_bytes st)"
proof (induction bs arbitrary: p st)
  case Nil
  then show ?case by (simp add: xor_at_def)
next
  case (Cons b bs)
  show ?case
  proof (rule nth_equalityI)
    show "length (st_bytes (xor_bytes p (b # bs) st)) = length (xor_at p (b # bs) (st_bytes st))"
      using Cons.prems by (simp add: length_xor_at)
    fix i assume "i < length (st_bytes (xor_bytes p (b # bs) st))"
    then show "st_bytes (xor_bytes p (b # bs) st) ! i = xor_at p (b # bs) (st_bytes st) ! i"
      using Cons.prems Cons.IH [of "p + 1" "xor_byte p b st"]
      by (auto simp: nth_xor_at st_bytes_xor_byte nth_list_update)
  qed
qed

lemma xor_bytes_append: "xor_bytes p (xs @ ys) st = xor_bytes (p + length xs) ys (xor_bytes p xs st)"
  by (induction xs arbitrary: p st) simp_all

section \<open>The buffering loop\<close>

definition sha3_shape :: "nat \<Rightarrow> sha3_ctx \<Rightarrow> bool" where
  "sha3_shape B ctx \<longleftrightarrow> length (state ctx) = 25 \<and> input_block_bytes ctx = B"

definition sha3_ins :: "nat \<Rightarrow> bytes \<Rightarrow> sha3_ctx \<Rightarrow> sha3_ctx" where
  "sha3_ins p xs ctx = ctx\<lparr>state := xor_bytes p xs (state ctx)\<rparr>"

definition sha3_process :: "sha3_ctx \<Rightarrow> sha3_ctx" where
  "sha3_process ctx = ctx\<lparr>state := sha3_process_block72 True (state ctx)\<rparr>"

definition sha3_loop :: "nat \<Rightarrow> bytes \<Rightarrow> sha3_ctx \<Rightarrow> sha3_ctx" where
  "sha3_loop p data ctx = snd (the (sha3_hash_loop p data ctx))"

text \<open>With a positive block size the loop ends, with the queue position one expects.\<close>

lemma sha3_hash_loop_returns:
  "p < input_block_bytes ctx \<Longrightarrow> sha3_hash_loop p data ctx =
    Some ((p + length data) mod input_block_bytes ctx, sha3_loop p data ctx)"
proof (induction "length data" arbitrary: p data ctx rule: less_induct)
  case less
  let ?B = "input_block_bytes ctx"
  show ?case
  proof (cases "p + length data < ?B")
    case True
    then have "min (?B - p) (length data) = length data" by simp
    then show ?thesis
      using True by (simp add: sha3_loop_def sha3_hash_loop.simps [of p data ctx] Let_def)
  next
    case False
    let ?c = "sha3_process (sha3_ins p (take (?B - p) data) ctx)"
    have "min (?B - p) (length data) = ?B - p" using False by simp
    then have step: "sha3_hash_loop p data ctx = sha3_hash_loop 0 (drop (?B - p) data) ?c"
      using less.prems
      by (subst sha3_hash_loop.simps) (simp add: Let_def sha3_ins_def sha3_process_def)
    have "(p + length data) mod ?B = length (drop (?B - p) data) mod ?B"
      using False less.prems by (simp add: le_mod_geq add.commute)
    moreover have "length (drop (?B - p) data) < length data" using False less.prems by simp
    moreover have "0 < input_block_bytes ?c" "input_block_bytes ?c = ?B"
      using less.prems by (simp_all add: sha3_process_def sha3_ins_def)
    ultimately show ?thesis
      using less.hyps [of "drop (?B - p) data" 0 ?c] by (simp add: sha3_loop_def step)
  qed
qed

lemma sha3_absorb:
  assumes "0 < B"
  shows "absorb_loop B (sha3_shape B) sha3_ins sha3_process sha3_loop"
proof unfold_locales
  fix p :: nat and buf c
  assume "sha3_shape B c" and "p < B"
  then show "sha3_loop p buf c =
      (let remaining = min (B - p) (length buf) in
       if p + remaining = B
       then sha3_loop 0 (drop remaining buf) (sha3_process (sha3_ins p (take remaining buf) c))
       else sha3_ins p (take remaining buf) c)"
    unfolding sha3_loop_def
    by (subst sha3_hash_loop.simps) (simp add: Let_def sha3_ins_def sha3_process_def sha3_shape_def)
qed (auto simp: assms sha3_ins_def sha3_shape_def sha3_process_def xor_bytes_append)

interpretation sha3_72: absorb_loop 72 "sha3_shape 72" sha3_ins sha3_process sha3_loop
  by (rule sha3_absorb) simp

text \<open>The loop does not look at \<open>bytes_queued\<close>.\<close>

lemma sha3_ctx_commute:
  "ctx\<lparr>bytes_queued := k, state := s\<rparr> = ctx\<lparr>state := s, bytes_queued := k\<rparr>"
  by simp

lemma sha3_loop_queued:
  assumes "p < input_block_bytes ctx"
  shows "sha3_loop p data (ctx\<lparr>bytes_queued := q\<rparr>) = (sha3_loop p data ctx)\<lparr>bytes_queued := q\<rparr>"
  using assms
proof (induction "length data" arbitrary: p data ctx rule: less_induct)
  case less
  let ?B = "input_block_bytes ctx"
  show ?case
  proof (cases "p + length data < ?B")
    case True
    then have "min (?B - p) (length data) = length data" by simp
    then show ?thesis
      using True by (simp add: sha3_loop_def sha3_hash_loop.simps [of p data] Let_def)
  next
    case False
    let ?c = "sha3_process (sha3_ins p (take (?B - p) data) ctx)"
    have step: "sha3_hash_loop p data (ctx\<lparr>bytes_queued := k\<rparr>) = sha3_hash_loop 0 (drop (?B - p) data) (?c\<lparr>bytes_queued := k\<rparr>)" for k
    proof -
      have "min (?B - p) (length data) = ?B - p" using False by simp
      then show ?thesis
        using less.prems
        by (subst sha3_hash_loop.simps, simp add: Let_def sha3_ins_def sha3_process_def,
            simp only: sha3_ctx_commute)
    qed
    have "length (drop (?B - p) data) < length data" "0 < input_block_bytes ?c"
      using False less.prems by (simp_all add: sha3_process_def sha3_ins_def)
    then show ?thesis
      using less.hyps [of "drop (?B - p) data" 0 ?c] step [of q] step [of "bytes_queued ctx"]
      by (simp add: sha3_loop_def sha3_process_def sha3_ins_def)
  qed
qed

section \<open>Updates compose\<close>

definition sha3_good :: "sha3_ctx \<Rightarrow> bool" where
  "sha3_good ctx \<longleftrightarrow> length (state ctx) = 25 \<and> bytes_queued ctx < input_block_bytes ctx
     \<and> input_block_bytes ctx \<le> 200"

definition sha3_update :: "sha3_ctx \<Rightarrow> bytes \<Rightarrow> sha3_ctx" where
  "sha3_update ctx data = the (sha3_hash ctx data)"

lemma sha3_hash_eq:
  assumes "sha3_good ctx"
  shows "sha3_hash ctx data = Some ((sha3_loop (bytes_queued ctx) data ctx)
    \<lparr>bytes_queued := (bytes_queued ctx + length data) mod input_block_bytes ctx\<rparr>)"
  using assms by (simp add: sha3_hash_def sha3_good_def sha3_hash_loop_returns)

lemma sha3_update_eq:
  assumes "sha3_good ctx"
  shows "sha3_update ctx data = (sha3_loop (bytes_queued ctx) data ctx)
    \<lparr>bytes_queued := (bytes_queued ctx + length data) mod input_block_bytes ctx\<rparr>"
  using assms by (simp add: sha3_update_def sha3_hash_eq)

lemma sha3_loop_shape:
  assumes "sha3_good ctx"
  shows "sha3_shape (input_block_bytes ctx) (sha3_loop (bytes_queued ctx) data ctx)"
  using assms
  by (intro absorb_loop.ok_loop [OF sha3_absorb]) (auto simp: sha3_good_def sha3_shape_def)

lemma sha3_good_update: "sha3_good ctx \<Longrightarrow> sha3_good (sha3_update ctx data)"
  using sha3_loop_shape [of ctx data]
  by (simp add: sha3_update_eq) (simp add: sha3_good_def sha3_shape_def)

interpretation sha3_stream: stream_hash sha3_good sha3_update
proof unfold_locales
  fix c :: sha3_ctx
  assume good: "sha3_good c"
  then show "sha3_update c [] = c"
    by (simp add: sha3_update_eq)
      (simp add: sha3_good_def sha3_loop_def sha3_hash_loop.simps Let_def)
  fix xs ys
  let ?B = "input_block_bytes c" and ?p = "bytes_queued c"
  let ?c1 = "sha3_loop ?p xs c"
  have sh: "sha3_shape ?B c" and B: "0 < ?B" "?p < ?B"
    using good by (auto simp: sha3_good_def sha3_shape_def)
  have sh1: "sha3_shape ?B ?c1" using sha3_loop_shape [OF good] .
  have c1: "sha3_update c xs = ?c1\<lparr>bytes_queued := (?p + length xs) mod ?B\<rparr>"
    using good by (simp add: sha3_update_eq)
  have "sha3_update (sha3_update c xs) ys =
      (sha3_loop ((?p + length xs) mod ?B) ys ?c1)\<lparr>bytes_queued := (?p + length xs + length ys) mod ?B\<rparr>"
    using sha3_update_eq [OF sha3_good_update [OF good, of xs], of ys] sh1 B
    by (simp add: c1 sha3_loop_queued sha3_shape_def mod_add_left_eq)
  also have "\<dots> = sha3_update c (xs @ ys)"
    using good absorb_loop.loop_append [OF sha3_absorb [OF B(1)] sh B(2), of xs ys]
    by (simp add: sha3_update_eq add.assoc)
  finally show "sha3_update (sha3_update c xs) ys = sha3_update c (xs @ ys)" .
qed (rule sha3_good_update)

section \<open>The sponge of FIPS 202\<close>

text \<open>
  On a state of 200 bytes: XOR a block onto its front, permute. The padding is the suffix
  \<open>01\<close> of SHA-3 and the pattern \<open>10*1\<close>, in bytes.
\<close>

definition sponge_step :: "bytes \<Rightarrow> bytes \<Rightarrow> bytes" where
  "sponge_step s blk = st_bytes (keccak_f1600 (le_words 8 25 (xor_at 0 blk s)))"

definition sha3_pad :: "nat \<Rightarrow> nat \<Rightarrow> bytes" where
  "sha3_pad r n =
     (let q = r - n mod r in if q = 1 then [0x86] else [0x06] @ replicate (q - 2) 0 @ [0x80])"

definition fips_sponge :: "nat \<Rightarrow> bytes \<Rightarrow> bytes" where
  "fips_sponge r msg =
     foldl sponge_step (replicate 200 0) (full_blocks r (msg @ sha3_pad r (length msg)))"

lemma le_words_st_bytes:
  assumes "length st = 25"
  shows "le_words 8 25 (st_bytes st) = st"
proof (rule st_bytes_inject)
  show "st_bytes (le_words 8 25 (st_bytes st)) = st_bytes st"
  proof (rule nth_equalityI)
    fix i assume "i < length (st_bytes (le_words 8 25 (st_bytes st)))"
    then have i: "i < 200" by (simp add: le_words_def)
    then have d: "i div 8 < 25" by (simp add: div_less_iff_less_mult)
    let ?b = "take 8 (drop (8 * (i div 8)) (st_bytes st))"
    have len: "length ?b = 8" using d assms by simp
    have "st_bytes (le_words 8 25 (st_bytes st)) ! i = le_bytes 8 (le_word ?b :: u64) ! (i mod 8)"
      using i d by (simp add: nth_st_bytes le_words_def)
    also have "\<dots> = ?b ! (i mod 8)" using le_bytes_le_word [of ?b, where ?'a = 64] len by simp
    also have "\<dots> = st_bytes st ! i" using i assms by simp
    finally show "st_bytes (le_words 8 25 (st_bytes st)) ! i = st_bytes st ! i" .
  qed (simp add: assms le_words_def)
qed (simp add: assms le_words_def)

lemma sponge_step_code:
  assumes "length st = 25" and "length blk \<le> 200"
  shows "sponge_step (st_bytes st) blk = st_bytes (sha3_process_block72 small (xor_bytes 0 blk st))"
proof -
  have "le_words 8 25 (xor_at 0 blk (st_bytes st)) = xor_bytes 0 blk st"
    using le_words_st_bytes [of "xor_bytes 0 blk st"] assms by (simp add: st_bytes_xor_bytes)
  then show ?thesis using assms by (simp add: sponge_step_def sha3_process_fips)
qed

lemma xor_byte_zero: "xor_byte p 0 st = st"
  by (simp add: xor_byte_def)

lemma xor_bytes_zeros: "xor_bytes p (replicate n 0) st = st"
  by (induction n arbitrary: p) (simp_all add: xor_byte_zero)

lemma xor_byte_twice: "p < 8 * length st \<Longrightarrow> xor_byte p a (xor_byte p b st) = xor_byte p (a XOR b) st"
  by (rule st_bytes_inject) (simp_all add: st_bytes_xor_byte xor.assoc xor.commute)

text \<open>The two bytes \<^verbatim>\<open>sha3_end\<close> XORs are the padding of the last block.\<close>

lemma sha3_end_pad:
  assumes "p < r" and "r \<le> 8 * length st" and "n mod r = p"
  shows "xor_byte (r - 1) 0x80 (xor_byte p 6 st) = xor_bytes p (sha3_pad r n) st"
proof (cases "r - p = 1")
  case True
  then have "r - 1 = p" using assms by simp
  then show ?thesis using True assms by (simp add: sha3_pad_def xor_byte_twice)
next
  case False
  then have "p + 1 + (r - p - 2) = r - 1" using assms by simp
  then show ?thesis
    using False assms by (simp add: sha3_pad_def Let_def xor_bytes_append xor_bytes_zeros)
qed

lemma length_sha3_pad: "0 < r \<Longrightarrow> length (sha3_pad r n) = r - n mod r"
proof -
  assume "0 < r"
  then have "n mod r < r" by simp
  then show ?thesis by (auto simp: sha3_pad_def Let_def)
qed

lemma sha3_blocks_state:
  assumes "sha3_shape r ctx" and "r \<le> 200" and "\<forall>blk \<in> set bs. length blk = r"
  defines "c \<equiv> foldl (\<lambda>c blk. sha3_process (sha3_ins 0 blk c)) ctx bs"
  shows "sha3_shape r c \<and> st_bytes (state c) = foldl sponge_step (st_bytes (state ctx)) bs"
  using assms(1,3) unfolding c_def
proof (induction bs arbitrary: ctx)
  case Nil
  then show ?case by simp
next
  case (Cons blk bs)
  let ?c = "sha3_process (sha3_ins 0 blk ctx)"
  have "sha3_shape r ?c" using Cons.prems(1) by (simp add: sha3_shape_def sha3_process_def sha3_ins_def)
  moreover have "st_bytes (state ?c) = sponge_step (st_bytes (state ctx)) blk"
    using Cons.prems assms(2)
    by (simp add: sha3_process_def sha3_ins_def sha3_shape_def sponge_step_code [where small = True])
  ultimately show ?case using Cons.IH [of ?c] Cons.prems(2) by simp
qed

lemma st_bytes_zeros: "st_bytes (replicate n 0) = replicate (8 * n) 0"
  by (induction n) (simp_all add: st_bytes_def replicate_add [of 8, symmetric])

text \<open>What a caller does: begin, override the block size, update, end.\<close>

definition sha3_start :: "nat \<Rightarrow> sha3_ctx \<Rightarrow> sha3_ctx" where
  "sha3_start r ctx = (sha3_begin ctx)\<lparr>input_block_bytes := r\<rparr>"

lemma sha3_end_sponge:
  assumes "0 < r" and "r \<le> 200"
  shows "snd (sha3_end (sha3_update (sha3_start r ctx) msg)) = take 64 (fips_sponge r msg)"
proof -
  let ?s = "sha3_start r ctx" and ?p = "length msg mod r" and ?rest = "rest_bytes r msg"
  let ?pad = "sha3_pad r (length msg)"
  let ?f = "foldl (\<lambda>c blk. sha3_process (sha3_ins 0 blk c)) ?s (full_blocks r msg)"
  have good: "sha3_good ?s" and shape: "sha3_shape r ?s"
    using assms by (simp_all add: sha3_good_def sha3_shape_def sha3_start_def sha3_begin_def)
  have lr: "length ?rest = ?p" and pr: "?p < r" using assms by (simp_all add: length_rest_bytes)
  have "sha3_update ?s msg = (sha3_ins 0 ?rest ?f)\<lparr>bytes_queued := ?p\<rparr>"
    using good absorb_loop.loop_blocks [OF sha3_absorb shape] assms
    by (simp add: sha3_update_eq sha3_start_def sha3_begin_def)
  moreover have f: "sha3_shape r ?f \<and> st_bytes (state ?f) = foldl sponge_step (st_bytes (state ?s)) (full_blocks r msg)"
    using shape assms(2) by (intro sha3_blocks_state) (auto dest: full_blocks_lengths)
  moreover have "xor_byte (r - 1) 0x80 (xor_byte ?p 6 (xor_bytes 0 ?rest (state ?f))) = xor_bytes 0 (?rest @ ?pad) (state ?f)"
    using f assms pr sha3_end_pad [of ?p r "xor_bytes 0 ?rest (state ?f)" "length msg"] lr
    by (simp add: sha3_shape_def xor_bytes_append)
  ultimately have "snd (sha3_end (sha3_update ?s msg)) =
      take 64 (st_bytes (sha3_process_block72 True (xor_bytes 0 (?rest @ ?pad) (state ?f))))"
    by (simp add: sha3_end_def sha3_ins_def sha3_shape_def st_bytes_def Let_def)
  also have "\<dots> = take 64 (foldl sponge_step (st_bytes (state ?s)) (full_blocks r msg @ [?rest @ ?pad]))"
    using f lr pr assms sponge_step_code [of "state ?f" "?rest @ ?pad" True]
    by (simp add: sha3_shape_def length_sha3_pad)
  also have "full_blocks r msg @ [?rest @ ?pad] = full_blocks r (msg @ ?pad)"
    using assms lr pr full_blocks_split [of r msg ?pad] full_blocks_Cons [of r "?rest @ ?pad" "[]"]
    by (simp add: length_sha3_pad)
  also have "st_bytes (state ?s) = replicate 200 0"
    by (simp add: sha3_start_def sha3_begin_def st_bytes_zeros)
  finally show ?thesis by (simp add: fips_sponge_def)
qed

lemma sha3_hash_all:
  assumes "sha3_good ctx"
  shows "foldl (\<lambda>c x. Option.bind c (\<lambda>c. sha3_hash c x)) (Some ctx) chunks = Some (foldl sha3_update ctx chunks)"
  using assms
proof (induction chunks arbitrary: ctx)
  case Nil
  then show ?case by simp
next
  case (Cons x xs)
  have "sha3_hash ctx x = Some (sha3_update ctx x)"
    using Cons.prems by (simp add: sha3_update_def sha3_hash_eq)
  then show ?case using Cons sha3_good_update [of ctx x] by simp
qed

text \<open>
  C5. \<^verbatim>\<open>sha3_begin\<close> (with the block size a caller puts in), any sequence of
  \<^verbatim>\<open>sha3_hash\<close> calls, \<^verbatim>\<open>sha3_end\<close>: every call returns, and the 64 bytes
  written are the start of the state of the FIPS 202 sponge over the concatenated message.
\<close>

theorem sha3_digest:
  assumes "0 < r" and "r \<le> 200"
  shows "map_option (\<lambda>c. snd (sha3_end c))
      (foldl (\<lambda>c x. Option.bind c (\<lambda>c. sha3_hash c x)) (Some ((sha3_begin ctx)\<lparr>input_block_bytes := r\<rparr>)) chunks)
    = Some (take 64 (fips_sponge r (concat chunks)))"
proof -
  have good: "sha3_good (sha3_start r ctx)"
    using assms by (simp add: sha3_good_def sha3_start_def sha3_begin_def)
  then show ?thesis
    using sha3_end_sponge [OF assms, of ctx "concat chunks"] sha3_stream.updates_concat [OF good, of chunks]
    by (simp add: sha3_hash_all flip: sha3_start_def)
qed

theorem sha3_digest_witness:
  "map_option (\<lambda>c. snd (sha3_end c))
      (foldl (\<lambda>c x. Option.bind c (\<lambda>c. sha3_hash c x))
        (Some ((sha3_begin \<lparr>state = [], bytes_queued = 3, input_block_bytes = 0\<rparr>)\<lparr>input_block_bytes := 136\<rparr>)) [[1], [2, 3]])
    = Some (take 64 (fips_sponge 136 [1, 2, 3]))"
  using sha3_digest [of 136 "\<lparr>state = [], bytes_queued = 3, input_block_bytes = 0\<rparr>" "[[1], [2, 3]]"] by simp

section \<open>The word-wise body\<close>

lemma xor_words_bytes:
  "8 * n \<le> length data \<Longrightarrow> i + n \<le> length st \<Longrightarrow>
    xor_words i n data st = xor_bytes (8 * i) (take (8 * n) data) st"
proof (induction n arbitrary: i data st)
  case 0
  then show ?case by simp
next
  case (Suc n)
  let ?b = "take 8 data"
  have lb: "length ?b = 8" using Suc.prems by simp
  have "st[i := st ! i XOR le_word ?b] = xor_bytes (8 * i) ?b st"
  proof (rule st_bytes_inject)
    show "st_bytes (st[i := st ! i XOR le_word ?b]) = st_bytes (xor_bytes (8 * i) ?b st)"
    proof (rule nth_equalityI)
      fix k assume "k < length (st_bytes (st[i := st ! i XOR le_word ?b]))"
      then have k: "k < 8 * length st" by simp
      have d: "k div 8 = i \<longleftrightarrow> 8 * i \<le> k \<and> k < 8 * i + 8" by auto
      have x: "j < 8 \<Longrightarrow> le_bytes 8 (w XOR v) ! j = le_bytes 8 w ! j XOR le_bytes 8 v ! j" for j and w v :: u64
        by (rule bit_word_eqI) (simp add: bit_le_bytes bit_simps)
      have "le_bytes 8 (le_word ?b :: u64) = ?b" using le_bytes_le_word [of ?b, where ?'a = 64] lb by simp
      moreover have "8 * i \<le> k \<Longrightarrow> k < 8 * i + 8 \<Longrightarrow> k mod 8 = k - 8 * i"
        using d by (metis minus_mult_div_eq_mod)
      ultimately show "st_bytes (st[i := st ! i XOR le_word ?b]) ! k = st_bytes (xor_bytes (8 * i) ?b st) ! k"
        using k d lb Suc.prems
        by (auto simp: nth_st_bytes st_bytes_xor_bytes nth_xor_at nth_list_update x)
    qed simp
  qed simp
  then have "xor_words i (Suc n) data st = xor_words (i + 1) n (drop 8 data) (xor_bytes (8 * i) ?b st)"
    by simp
  also have "\<dots> = xor_bytes (8 * (i + 1)) (take (8 * n) (drop 8 data)) (xor_bytes (8 * i) ?b st)"
    using Suc.prems by (intro Suc.IH) simp_all
  also have "\<dots> = xor_bytes (8 * i) (?b @ take (8 * n) (drop 8 data)) st"
    using lb by (simp add: xor_bytes_append add.commute)
  also have "?b @ take (8 * n) (drop 8 data) = take (8 * Suc n) data"
    using take_add [of 8 "8 * n" data] by simp
  finally show ?case .
qed

lemma sha3_blocks_fold:
  assumes "0 < r" and "8 dvd r" and "r \<le> 200"
  shows "length st = 25 \<Longrightarrow> sha3_blocks r data st =
    Some (rest_bytes r data, foldl (\<lambda>s blk. sha3_process_block72 True (xor_bytes 0 blk s)) st (full_blocks r data))"
proof (induction "length data" arbitrary: data st rule: less_induct)
  case less
  show ?case
  proof (cases "r \<le> length data")
    case False
    then show ?thesis by (simp add: sha3_blocks.simps rest_bytes_short)
  next
    case True
    obtain k where k: "r = 8 * k" using assms(2) by (rule dvdE)
    let ?st = "sha3_process_block72 True (xor_bytes 0 (take r data) st)"
    have "sha3_process_block72 False (xor_words 0 (r div 8) data st) = ?st"
      using xor_words_bytes [of k data 0 st] True less.prems assms(3) k
      by (simp add: sha3_process_fips)
    then have "sha3_blocks r data st = sha3_blocks r (drop r data) ?st"
      using True by (simp add: sha3_blocks.simps [of r data])
    also have "\<dots> = Some (rest_bytes r (drop r data),
        foldl (\<lambda>s blk. sha3_process_block72 True (xor_bytes 0 blk s)) ?st (full_blocks r (drop r data)))"
      using True assms(1) less.prems by (intro less.hyps) auto
    finally show ?thesis
      using True assms(1) full_blocks_Cons [of r "take r data" "drop r data"] rest_bytes_Cons [of r "take r data" "drop r data"]
      by simp
  qed
qed

lemma sha3_queue_fill:
  "p < r \<Longrightarrow> sha3_queue r p data st =
    (if p + length data < r then (False, p + length data, [], xor_bytes p data st)
     else (True, 0, drop (r - p) data, xor_bytes p (take (r - p) data) st))"
proof (induction data arbitrary: p st)
  case Nil
  then show ?case by simp
next
  case (Cons b data)
  show ?case
  proof (cases "p + 1 = r")
    case True
    then have "r - p = 1" by simp
    then show ?thesis using True by simp
  next
    case False
    then have "p + 1 < r" and "r - p = Suc (r - Suc p)" using Cons.prems by simp_all
    then show ?thesis using False Cons.IH [of "p + 1" "xor_byte p b st"] by simp
  qed
qed

lemma sha3_fold_state:
  "foldl (\<lambda>c blk. sha3_process (sha3_ins 0 blk c)) c bs =
    c\<lparr>state := foldl (\<lambda>s blk. sha3_process_block72 True (xor_bytes 0 blk s)) (state c) bs\<rparr>"
  by (induction bs arbitrary: c) (simp_all add: sha3_process_def sha3_ins_def)

text \<open>
  C6. The two bodies of \<^verbatim>\<open>sha3_hash\<close> do the same to a context whose block size is a
  multiple of the word size, as the ones of all SHA-3 functions are, whatever is queued.
\<close>

theorem sha3_hash_variants:
  assumes "sha3_good ctx" and "8 dvd input_block_bytes ctx"
  shows "sha3_hash_fast ctx data = sha3_hash ctx data"
proof -
  let ?B = "input_block_bytes ctx" and ?p = "bytes_queued ctx" and ?s = "state ctx"
  let ?abs = "\<lambda>s. foldl (\<lambda>s blk. sha3_process_block72 True (xor_bytes 0 blk s)) s"
  have B: "0 < ?B" "?B \<le> 200" "?p < ?B" "length ?s = 25" using assms(1) by (simp_all add: sha3_good_def)
  have shape: "sha3_shape ?B ctx" using B by (simp add: sha3_shape_def)
  have pf: "length s = 25 \<Longrightarrow> sha3_process_block72 False s = sha3_process_block72 True s" for s
    by (simp add: sha3_process_fips)
  note loop = absorb_loop.loop_blocks [OF sha3_absorb [OF B(1)]]
  note blocks = sha3_blocks_fold [OF B(1) assms(2) B(2)]
  show ?thesis
  proof (cases "?p + length data < ?B")
    case short: True
    then have "sha3_loop ?p data ctx = sha3_ins ?p data ctx"
      using absorb_loop.loop_short [OF sha3_absorb [OF B(1)] shape] by simp
    moreover have "sha3_hash_fast ctx data =
        Some (ctx\<lparr>state := xor_bytes ?p data ?s, bytes_queued := ?p + length data\<rparr>)"
      using short B by (simp add: sha3_hash_fast_def sha3_queue_fill blocks rest_bytes_short Let_def)
    ultimately show ?thesis
      using assms(1) short by (simp add: sha3_hash_eq sha3_ins_def)
  next
    case False
    define blk rest where "blk = take (?B - ?p) data" and "rest = drop (?B - ?p) data"
    have data: "data = blk @ rest" "?p + length blk = ?B" using False B by (simp_all add: blk_def rest_def)
    let ?c = "sha3_process (sha3_ins ?p blk ctx)"
    have shape': "sha3_shape ?B ?c" using shape by (simp add: sha3_shape_def sha3_process_def sha3_ins_def)
    have q: "(?p + length data) mod ?B = length (rest_bytes ?B rest)"
      using data by (metis add.assoc length_append length_rest_bytes mod_add_self1)
    have "sha3_loop ?p data ctx = sha3_loop 0 rest ?c"
      using absorb_loop.loop_fill [OF sha3_absorb [OF B(1)] shape B(3) data(2), of rest] data(1) by simp
    also have "\<dots> = ctx\<lparr>state := xor_bytes 0 (rest_bytes ?B rest) (?abs (state ?c) (full_blocks ?B rest))\<rparr>"
      by (simp add: loop [OF shape'] sha3_fold_state) (simp add: sha3_ins_def sha3_process_def)
    finally have small: "sha3_loop ?p data ctx =
        ctx\<lparr>state := xor_bytes 0 (rest_bytes ?B rest) (?abs (state ?c) (full_blocks ?B rest))\<rparr>" .
    have "sha3_hash_fast ctx data = Some (ctx\<lparr>state := xor_bytes 0 (rest_bytes ?B rest) (?abs (state ?c) (full_blocks ?B rest)),
        bytes_queued := length (rest_bytes ?B rest)\<rparr>)"
    proof (cases "?p = 0")
      case True
      then have "full_blocks ?B data = blk # full_blocks ?B rest" "rest_bytes ?B data = rest_bytes ?B rest"
        using data B full_blocks_Cons [of ?B blk rest] rest_bytes_Cons [of ?B blk rest] by simp_all
      then show ?thesis
        using True B by (simp add: sha3_hash_fast_def blocks Let_def sha3_process_def sha3_ins_def)
    next
      case queued: False
      have "sha3_queue ?B ?p data ?s = (True, 0, rest, xor_bytes ?p blk ?s)"
        using False B by (simp add: sha3_queue_fill blk_def rest_def)
      then show ?thesis
        using queued B by (simp add: sha3_hash_fast_def blocks Let_def sha3_process_def sha3_ins_def pf)
    qed
    then show ?thesis
      using assms(1) small q by (simp add: sha3_hash_eq)
  qed
qed

theorem sha3_hash_variants_witness:
  "sha3_good \<lparr>state = replicate 25 1, bytes_queued = 70, input_block_bytes = 72\<rparr> \<and>
   sha3_hash_fast \<lparr>state = replicate 25 1, bytes_queued = 70, input_block_bytes = 72\<rparr> [1, 2, 3]
    = sha3_hash \<lparr>state = replicate 25 1, bytes_queued = 70, input_block_bytes = 72\<rparr> [1, 2, 3]"
proof -
  have good: "sha3_good \<lparr>state = replicate 25 1, bytes_queued = 70, input_block_bytes = 72\<rparr>"
    by (simp add: sha3_good_def)
  then show ?thesis using sha3_hash_variants [OF good, of "[1, 2, 3]"] by simp
qed

end
