(* ===== verification/Hash_Sum.thy ===== *)
theory Hash_Sum
  imports Hash_Stream512 Hash_Sha3
begin

text \<open>
  The applets \<^verbatim>\<open>md5sum\<close>, \<^verbatim>\<open>sha1sum\<close>, \<^verbatim>\<open>sha256sum\<close>,
  \<^verbatim>\<open>sha512sum\<close> and \<^verbatim>\<open>sha3sum\<close> of
  \<^verbatim>\<open>coreutils/md5_sha1_sum.c\<close>: choosing the algorithm, reading the file in pieces, the
  hex output and the check mode. Text is a list of bytes. What a read returns and what memory held
  before are inputs of the model.
\<close>

section \<open>Hexadecimal output\<close>

definition bb_hexdigits_upcase :: bytes where
  "bb_hexdigits_upcase = ascii ''0123456789ABCDEF''"

fun bin2hex :: "bytes \<Rightarrow> bytes" where
  "bin2hex [] = []"
| "bin2hex (c # cp) =
     (0x20 OR bb_hexdigits_upcase ! unat (drop_bit 4 c))
     # (0x20 OR bb_hexdigits_upcase ! unat (c AND 0xf))
     # bin2hex cp"

section \<open>Hashing one file\<close>

datatype hash_algo = HASH_MD5 | HASH_SHA1 | HASH_SHA256 | HASH_SHA3 | HASH_SHA512

text \<open>\<^verbatim>\<open>applet_name[3]\<close> selects the algorithm; the last branch cannot be reached.\<close>

definition algo_of_char :: "char \<Rightarrow> hash_algo option" where
  "algo_of_char c =
     (if c = CHR ''s'' then Some HASH_MD5
      else if c = CHR ''1'' then Some HASH_SHA1
      else if c = CHR ''2'' then Some HASH_SHA256
      else if c = CHR ''5'' then Some HASH_SHA512
      else if c = CHR ''3'' then Some HASH_SHA3
      else None)"

text \<open>The memory \<^verbatim>\<open>hash_file\<close> gets uninitialised: the context union and the buffer.\<close>

record hash_mem =
  m_md5 :: md5_ctx
  m_sha512 :: sha512_ctx
  m_sha3 :: sha3_ctx
  in_buf :: bytes

datatype hash_context = Ctx_md5 md5_ctx | Ctx_sha512 sha512_ctx | Ctx_sha3 sha3_ctx

text \<open>Begin: the initialised context and \<open>hash_len\<close>, or \<open>None\<close> for a bad \<^verbatim>\<open>-a\<close>.\<close>

definition hash_select :: "hash_algo \<Rightarrow> u32 \<Rightarrow> hash_mem \<Rightarrow> (hash_context \<times> nat) option" where
  "hash_select algo sha3_width mem =
     (case algo of
        HASH_MD5 \<Rightarrow> Some (Ctx_md5 (md5_begin (m_md5 mem)), 16)
      | HASH_SHA1 \<Rightarrow> Some (Ctx_md5 (sha1_begin (m_md5 mem)), 20)
      | HASH_SHA256 \<Rightarrow> Some (Ctx_md5 (sha256_begin (m_md5 mem)), 32)
      | HASH_SHA512 \<Rightarrow> Some (Ctx_sha512 (sha512_begin (m_sha512 mem)), 64)
      | HASH_SHA3 \<Rightarrow>
          (let ctx = sha3_begin (m_sha3 mem)
           in if 1600 div 2 \<le> sha3_width \<or> sha3_width = 0 \<or> sha3_width AND 0x1f \<noteq> 0 then None
              else let sha3_width = sha3_width div 4
                   in Some (Ctx_sha3 (ctx\<lparr>input_block_bytes := unat (1600 div 8 - sha3_width)\<rparr>),
                            unat (sha3_width div 2))))"

fun hash_update :: "hash_context \<Rightarrow> bytes \<Rightarrow> hash_context option" where
  "hash_update (Ctx_md5 c) buf = Some (Ctx_md5 (md5_hash c buf))"
| "hash_update (Ctx_sha512 c) buf = Some (Ctx_sha512 (sha512_hash c buf))"
| "hash_update (Ctx_sha3 c) buf = map_option Ctx_sha3 (sha3_hash c buf)"

fun hash_final :: "hash_algo \<Rightarrow> hash_context \<Rightarrow> bytes" where
  "hash_final HASH_MD5 (Ctx_md5 c) = snd (md5_end c)"
| "hash_final _ (Ctx_md5 c) = snd (sha1_end c)"
| "hash_final _ (Ctx_sha512 c) = snd (sha512_end c)"
| "hash_final _ (Ctx_sha3 c) = snd (sha3_end c)"

text \<open>
  A file as the reads see it: whether it opens, the bytes of each successful \<open>safe_read\<close>, and
  whether the read after them fails or is the end of file.
\<close>

record source =
  opens :: bool
  reads :: "bytes list"
  read_fails :: bool

fun read_loop :: "hash_context \<Rightarrow> bytes \<Rightarrow> bytes list \<Rightarrow> (hash_context \<times> bytes) option" where
  "read_loop ctx buf [] = Some (ctx, buf)"
| "read_loop ctx buf (r # rs) =
     (let buf = write_at 0 r buf
      in do {
           ctx \<leftarrow> hash_update ctx (take (length r) buf);
           read_loop ctx buf rs
         })"

datatype file_result = Null | Died | Hex_value bytes

definition hash_file :: "hash_algo \<Rightarrow> u32 \<Rightarrow> hash_mem \<Rightarrow> source \<Rightarrow> file_result option" where
  "hash_file algo sha3_width mem src =
     (if \<not> opens src then Some Null
      else case hash_select algo sha3_width mem of
             None \<Rightarrow> Some Died
           | Some (ctx, hash_len) \<Rightarrow> do {
               (ctx, buf) \<leftarrow> read_loop ctx (in_buf mem) (reads src);
               (if read_fails src then Some Null
                else Some (Hex_value (bin2hex (take hash_len (write_at 0 (hash_final algo ctx) buf)))))
             })"

section \<open>The applet\<close>

datatype sum_msg =
    Sum_line bytes bytes
  | Line_ok bytes
  | Line_failed bytes
  | Invalid_format
  | Warn_failed nat nat
  | No_lines bytes

text \<open>
  \<^verbatim>\<open>strstr\<close>: the length of the text before the first occurrence of the needle.
\<close>

fun strstr :: "bytes \<Rightarrow> bytes \<Rightarrow> nat option" where
  "strstr [] needle = (if needle = [] then Some 0 else None)"
| "strstr (c # s) needle =
     (if take (length needle) (c # s) = needle then Some 0 else map_option Suc (strstr s needle))"

record check_state =
  failure :: bool
  count_total :: nat
  count_failed :: nat
  out :: "sum_msg list"

text \<open>One line of a check file. \<open>None\<close> inside the result is the exit of a bad \<^verbatim>\<open>-a\<close>.\<close>

definition check_line :: "bool \<Rightarrow> bool \<Rightarrow> (bytes \<Rightarrow> file_result option) \<Rightarrow> bytes \<Rightarrow> check_state \<Rightarrow> check_state option option" where
  "check_line silent warn hf line st =
     (let st = st\<lparr>count_total := count_total st + 1\<rparr>;
          filename_ptr = strstr line (ascii ''  '');
          filename_ptr = (if filename_ptr = None then strstr line (ascii '' *'') else filename_ptr)
      in case filename_ptr of
           None \<Rightarrow> Some (Some (st\<lparr>out := out st @ (if warn then [Invalid_format] else []),
             count_failed := count_failed st + 1, failure := True\<rparr>))
         | Some p \<Rightarrow>
             (let filename = drop (p + 2) line; line = take p line
              in do {
                   r \<leftarrow> hf filename;
                   Some (if r = Died then None
                         else if r = Hex_value line
                         then Some (st\<lparr>out := out st @ (if silent then [] else [Line_ok filename])\<rparr>)
                         else Some (st\<lparr>out := out st @ (if silent then [] else [Line_failed filename]),
                                count_failed := count_failed st + 1, failure := True\<rparr>))
                 }))"

fun check_lines :: "bool \<Rightarrow> bool \<Rightarrow> (bytes \<Rightarrow> file_result option) \<Rightarrow> bytes list \<Rightarrow> check_state \<Rightarrow> check_state option option" where
  "check_lines silent warn hf [] st = Some (Some st)"
| "check_lines silent warn hf (line # lines) st = do {
     r \<leftarrow> check_line silent warn hf line st;
     (case r of None \<Rightarrow> Some None | Some st \<Rightarrow> check_lines silent warn hf lines st)
   }"

text \<open>The check of one list of checksums, and the plain mode, on one argument.\<close>

definition check_file :: "bool \<Rightarrow> bool \<Rightarrow> (bytes \<Rightarrow> file_result option) \<Rightarrow> bytes \<Rightarrow> bytes list
    \<Rightarrow> bool \<times> sum_msg list \<Rightarrow> (bool \<times> sum_msg list) option option" where
  "check_file silent warn hf name lines res = do {
     r \<leftarrow> check_lines silent warn hf lines
       \<lparr>failure = fst res, count_total = 0, count_failed = 0, out = snd res\<rparr>;
     Some (map_option (\<lambda>st.
       (failure st \<or> count_total st = 0,
        out st @ (if count_failed st \<noteq> 0 \<and> \<not> silent then [Warn_failed (count_failed st) (count_total st)] else [])
          @ (if count_total st = 0 then [No_lines name] else []))) r)
   }"

definition sum_file :: "(bytes \<Rightarrow> file_result option) \<Rightarrow> bytes \<Rightarrow> bool \<times> sum_msg list
    \<Rightarrow> (bool \<times> sum_msg list) option option" where
  "sum_file hf name res = do {
     r \<leftarrow> hf name;
     Some (case r of
             Died \<Rightarrow> None
           | Null \<Rightarrow> Some (True, snd res)
           | Hex_value v \<Rightarrow> Some (fst res, snd res @ [Sum_line v name]))
   }"

fun sum_args :: "bool \<Rightarrow> bool \<Rightarrow> bool \<Rightarrow> (bytes \<Rightarrow> file_result option) \<Rightarrow> (bytes \<Rightarrow> bytes list) \<Rightarrow> bytes list
    \<Rightarrow> bool \<times> sum_msg list \<Rightarrow> (bool \<times> sum_msg list) option option" where
  "sum_args check silent warn hf lines_of [] res = Some (Some res)"
| "sum_args check silent warn hf lines_of (a # args) res = do {
     r \<leftarrow> (if check then check_file silent warn hf a (lines_of a) res else sum_file hf a res);
     (case r of None \<Rightarrow> Some None | Some res \<Rightarrow> sum_args check silent warn hf lines_of args res)
   }"

definition md5_sha1_sum_main :: "bool \<Rightarrow> bool \<Rightarrow> bool \<Rightarrow> (bytes \<Rightarrow> file_result option) \<Rightarrow> (bytes \<Rightarrow> bytes list)
    \<Rightarrow> bytes list \<Rightarrow> (bool \<times> sum_msg list) option option" where
  "md5_sha1_sum_main check silent warn hf lines_of argv =
     sum_args check silent warn hf lines_of (if argv = [] then [ascii ''-''] else argv) (False, [])"

section \<open>The digest of a file\<close>

text \<open>What each applet should print for the bytes of a file.\<close>

fun file_digest :: "hash_algo \<Rightarrow> u32 \<Rightarrow> bytes \<Rightarrow> bytes" where
  "file_digest HASH_MD5 w msg = std_digest Md5_process_block64 msg"
| "file_digest HASH_SHA1 w msg = std_digest Sha1_process_block64 msg"
| "file_digest HASH_SHA256 w msg = std_digest Sha256_process_block64 msg"
| "file_digest HASH_SHA512 w msg = fips_sha512_digest msg"
| "file_digest HASH_SHA3 w msg = take (unat w div 8) (fips_sponge (200 - unat w div 4) msg)"

definition mem_ok :: "hash_mem \<Rightarrow> bool" where
  "mem_ok mem \<longleftrightarrow> md5_ok (m_md5 mem) \<and> sha512_ok (m_sha512 mem) \<and> length (in_buf mem) = 4096"

definition read_ok :: "source \<Rightarrow> bool" where
  "read_ok src \<longleftrightarrow> opens src \<and> \<not> read_fails src \<and> list_all (\<lambda>r. length r \<le> 4096) (reads src)"

definition sha3_width_ok :: "u32 \<Rightarrow> bool" where
  "sha3_width_ok w \<longleftrightarrow> w < 800 \<and> w \<noteq> 0 \<and> w AND 0x1f = 0"

text \<open>The buffer keeps its size, and the updates see exactly the bytes that were read.\<close>

lemma read_loop_updates:
  "length buf = 4096 \<Longrightarrow> list_all (\<lambda>r. length r \<le> 4096) rs \<Longrightarrow>
    \<exists>buf'. length buf' = 4096 \<and> read_loop ctx buf rs =
      map_option (\<lambda>c. (c, buf')) (foldl (\<lambda>c r. Option.bind c (\<lambda>c. hash_update c r)) (Some ctx) rs)"
proof (induction rs arbitrary: ctx buf)
  case Nil
  then show ?case by simp
next
  case (Cons r rs)
  let ?buf = "write_at 0 r buf"
  have none: "foldl (\<lambda>c r. Option.bind c (\<lambda>c. hash_update c r)) None rs = None" by (induction rs) simp_all
  have buf: "length ?buf = 4096" "take (length r) ?buf = r"
    using Cons.prems take_write_at [of 0 buf r] by (simp_all add: length_write_at)
  show ?case
  proof (cases "hash_update ctx r")
    case None
    then show ?thesis using buf none by (intro exI [of _ ?buf]) simp
  next
    case (Some c)
    then show ?thesis using Cons.IH [OF buf(1), of c] Cons.prems buf by simp
  qed
qed

lemma fold_update_md5:
  "foldl (\<lambda>c r. Option.bind c (\<lambda>c. hash_update c r)) (Some (Ctx_md5 c)) rs = Some (Ctx_md5 (foldl md5_hash c rs))"
  by (induction rs arbitrary: c) simp_all

lemma fold_update_sha512:
  "foldl (\<lambda>c r. Option.bind c (\<lambda>c. hash_update c r)) (Some (Ctx_sha512 c)) rs = Some (Ctx_sha512 (foldl sha512_hash c rs))"
  by (induction rs arbitrary: c) simp_all

lemma fold_update_sha3:
  "sha3_good c \<Longrightarrow> foldl (\<lambda>c r. Option.bind c (\<lambda>c. hash_update c r)) (Some (Ctx_sha3 c)) rs
    = Some (Ctx_sha3 (foldl sha3_update c rs))"
proof (induction rs arbitrary: c)
  case (Cons r rs)
  have "sha3_hash c r = Some (sha3_update c r)"
    using Cons.prems by (simp add: sha3_update_def sha3_hash_eq)
  then show ?case using Cons sha3_good_update [of c r] by simp
qed simp

lemma length_foldl_compress: "length (foldl (std_compress fn) h bs) = length h"
  by (induction bs arbitrary: h) (simp_all add: length_std_compress)

lemma length_concat_bytes:
  "length (concat (map (le_bytes k) ws)) = k * length ws" "length (concat (map (be_bytes k) ws)) = k * length ws"
  by (induction ws) simp_all

lemma length_std_digest:
  "length (std_digest Md5_process_block64 msg) = 16"
  "length (std_digest Sha1_process_block64 msg) = 20"
  "length (std_digest Sha256_process_block64 msg) = 32"
  by (simp_all add: std_digest_def length_concat_bytes length_foldl_compress)

lemma length_sha512_digest: "length (fips_sha512_digest msg) = 64"
proof -
  have "length (foldl sha512_compress h bs) = length h" for h bs
    by (induction bs arbitrary: h) (simp_all add: sha512_compress_def len_simps)
  then show ?thesis by (simp add: fips_sha512_digest_def length_concat_bytes sha512_iv_def)
qed

lemma sha3_width_bounds:
  assumes "sha3_width_ok w"
  shows "32 \<le> unat w" and "unat w < 800"
    and "unat (1600 div 8 - w div 4) = 200 - unat w div 4" and "unat (w div 4 div 2) = unat w div 8"
proof -
  show lt: "unat w < 800" using assms by (simp add: sha3_width_ok_def word_less_nat_alt)
  have "w AND 0x1f = take_bit 5 w" by (simp add: take_bit_eq_mask mask_eq_exp_minus_1)
  then have "take_bit 5 (unat w) = 0"
    using assms by (simp add: sha3_width_ok_def flip: unsigned_take_bit_eq)
  then have "32 dvd unat w" by (simp add: take_bit_eq_mod mod_eq_0_iff_dvd)
  moreover have "0 < unat w" using assms by (simp add: sha3_width_ok_def unat_gt_0)
  ultimately show "32 \<le> unat w" by (rule dvd_imp_le)
  have q: "unat (w div 4) = unat w div 4" by (simp add: unat_div_distrib)
  have "w div 4 \<le> 200" using lt by (simp add: word_le_nat_alt q)
  then show "unat (1600 div 8 - w div 4) = 200 - unat w div 4"
    using unat_sub [of "w div 4" 200] by (simp add: q)
  show "unat (w div 4 div 2) = unat w div 8"
    by (simp add: unat_div_distrib div_mult2_eq [symmetric])
qed

lemma sha3_select:
  assumes "sha3_width_ok w"
  shows "hash_select HASH_SHA3 w mem = Some (Ctx_sha3 (sha3_start (200 - unat w div 4) (m_sha3 mem)), unat w div 8)"
  using assms sha3_width_bounds [OF assms]
  by (simp add: hash_select_def sha3_start_def sha3_width_ok_def Let_def not_le)

lemma sha3_start_good:
  assumes "sha3_width_ok w"
  shows "sha3_good (sha3_start (200 - unat w div 4) c)"
    and "snd (sha3_end (foldl sha3_update (sha3_start (200 - unat w div 4) c) rs))
      = take 64 (fips_sponge (200 - unat w div 4) (concat rs))"
proof -
  let ?r = "200 - unat w div 4"
  have r: "0 < ?r" "?r \<le> 200" using sha3_width_bounds [OF assms] by auto
  show good: "sha3_good (sha3_start ?r c)"
    using r by (simp add: sha3_good_def sha3_start_def sha3_begin_def)
  show "snd (sha3_end (foldl sha3_update (sha3_start ?r c) rs)) = take 64 (fips_sponge ?r (concat rs))"
    using sha3_end_sponge [OF r] sha3_stream.updates_concat [OF good] by simp
qed

lemma length_fips_sponge: "length (take 64 (fips_sponge r msg)) = 64"
proof -
  have "length (foldl sponge_step s bs) = 200" if "length s = 200" for s bs
    using that
  proof (induction bs arbitrary: s)
    case (Cons b bs)
    have "length (keccak_f1600 st) = 25" if "length st = 25" for st
      using that sha3_process_fips [of st True] length_sha3_process [of True st] by simp
    then show ?case using Cons by (simp add: sponge_step_def le_words_def)
  qed simp
  then show ?thesis by (simp add: fips_sponge_def)
qed

text \<open>What is in the first \<open>hash_len\<close> bytes of the buffer after the final function.\<close>

lemma hash_file_run:
  assumes mem: "mem_ok mem" and src: "read_ok src"
    and sel: "hash_select algo w mem = Some (ctx, n)"
    and upd: "foldl (\<lambda>c r. Option.bind c (\<lambda>c. hash_update c r)) (Some ctx) (reads src) = Some ctx'"
  shows "\<exists>buf. length buf = 4096 \<and> (reads src = [] \<longrightarrow> buf = in_buf mem) \<and>
    hash_file algo w mem src = Some (Hex_value (bin2hex (take n (write_at 0 (hash_final algo ctx') buf))))"
proof -
  have len: "length (in_buf mem) = 4096" "list_all (\<lambda>r. length r \<le> 4096) (reads src)"
    using mem src by (simp_all add: mem_ok_def read_ok_def)
  obtain buf where "length buf = 4096" "reads src = [] \<longrightarrow> buf = in_buf mem"
      "read_loop ctx (in_buf mem) (reads src) = Some (ctx', buf)"
    using read_loop_updates [OF len, of ctx] len(1) upd by (cases "reads src") auto
  then show ?thesis using src sel by (intro exI [of _ buf]) (simp add: hash_file_def read_ok_def)
qed

lemma hash_file_digest:
  assumes "mem_ok mem" and "read_ok src" and "hash_select algo w mem = Some (ctx, n)"
    and "foldl (\<lambda>c r. Option.bind c (\<lambda>c. hash_update c r)) (Some ctx) (reads src) = Some ctx'"
    and "hash_final algo ctx' = d" and "n \<le> length d"
  shows "hash_file algo w mem src = Some (Hex_value (bin2hex (take n d)))"
proof -
  have "take n (write_at 0 d buf) = take n d" for buf
    using assms(6) by (simp add: write_at_def)
  then show ?thesis using hash_file_run [OF assms(1-4)] assms(5) by auto
qed

text \<open>
  C7. However the reads cut the file into pieces of at most 4096 bytes, and whatever memory held
  before, the applets print the standard's digest of the file's bytes: MD5, SHA-1, SHA-256,
  SHA-512, and SHA-3 with every admitted width up to 512 bits.
\<close>

theorem hash_file_correct:
  assumes "mem_ok mem" and "read_ok src" and "algo = HASH_SHA3 \<Longrightarrow> sha3_width_ok w \<and> w \<le> 512"
  shows "hash_file algo w mem src = Some (Hex_value (bin2hex (file_digest algo w (concat (reads src)))))"
proof -
  have md5: "md5_ok (m_md5 mem)" and sha512: "sha512_ok (m_sha512 mem)" using assms(1) by (simp_all add: mem_ok_def)
  have small: "\<forall>x \<in> set (reads src). length x < 2 ^ 64"
    using assms(2) by (auto simp: read_ok_def list_all_iff)
  note dig = hash_digest [OF md5, of _ "reads src"] sha512_digest [OF sha512 small]
  note run = hash_file_digest [OF assms(1,2)]
  show ?thesis
  proof (cases algo)
    case HASH_SHA3
    then have w: "sha3_width_ok w" "unat w div 8 \<le> 64" using assms(3) div_le_mono [of "unat w" 512 8] by (simp_all add: word_le_nat_alt)
    show ?thesis
      using run [OF sha3_select [OF w(1)], of "Ctx_sha3 (foldl sha3_update (sha3_start (200 - unat w div 4) (m_sha3 mem)) (reads src))"]
        HASH_SHA3 w fold_update_sha3 [OF sha3_start_good(1) [OF w(1)]] sha3_start_good(2) [OF w(1)]
        length_fips_sponge by (simp add: min_def)
  qed (use run dig(1) [of Md5_process_block64] dig(1) [of Sha1_process_block64] dig(1) [of Sha256_process_block64]
      dig(2) in \<open>simp_all add: hash_select_def fold_update_md5 fold_update_sha512 length_std_digest length_sha512_digest\<close>)
qed

definition mem0 :: "u8 \<Rightarrow> hash_mem" where
  "mem0 junk = \<lparr>m_md5 = ctx0,
     m_sha512 = \<lparr>total64s = [0, 0], hash512 = replicate 8 0, wbuffer128 = replicate 128 0\<rparr>,
     m_sha3 = \<lparr>state = [], bytes_queued = 0, input_block_bytes = 0\<rparr>, in_buf = replicate 4096 junk\<rparr>"

lemma mem0_ok: "mem_ok (mem0 junk)"
  by (simp add: mem_ok_def mem0_def md5_ok_def ctx0_def sha512_ok_def)

theorem hash_file_correct_witness:
  "hash_file HASH_SHA3 224 (mem0 5) \<lparr>opens = True, reads = [[1, 2], [3]], read_fails = False\<rparr>
    = Some (Hex_value (bin2hex (file_digest HASH_SHA3 224 [1, 2, 3])))"
  using hash_file_correct [of "mem0 5" "\<lparr>opens = True, reads = [[1, 2], [3]], read_fails = False\<rparr>" HASH_SHA3 224]
  by (simp add: mem0_ok read_ok_def sha3_width_ok_def)

section \<open>Hexadecimal text is faithful\<close>

lemma bb_hexdigits_upcase_code [code]:
  "bb_hexdigits_upcase = [0x30, 0x31, 0x32, 0x33, 0x34, 0x35, 0x36, 0x37, 0x38, 0x39,
    0x41, 0x42, 0x43, 0x44, 0x45, 0x46]"
  by (simp add: bb_hexdigits_upcase_def ascii_def of_char_def)

definition hex_digit :: "u8 \<Rightarrow> u8" where
  "hex_digit n = 0x20 OR bb_hexdigits_upcase ! unat n"

lemma hex_digits: "map (\<lambda>i. hex_digit (of_nat i)) [0..<16] = ascii ''0123456789abcdef''"
  by (simp add: hex_digit_def bb_hexdigits_upcase_code ascii_def of_char_def upt_rec)

lemma nibbles:
  fixes c :: u8
  shows "unat (drop_bit 4 c) < 16" and "unat (c AND 0xf) < 16"
proof -
  have "unat (drop_bit 4 c) = unat c div 16" by (simp add: drop_bit_eq_div unat_div_distrib)
  then show "unat (drop_bit 4 c) < 16" using unat_bound [of c] by (simp add: div_less_iff_less_mult)
  have "c AND 0xf = take_bit 4 c" by (simp add: take_bit_eq_mask mask_eq_exp_minus_1)
  then have "unat (c AND 0xf) = take_bit 4 (unat c)" by (simp only: unsigned_take_bit_eq)
  then show "unat (c AND 0xf) < 16" by (simp add: take_bit_eq_mod)
qed

lemma nth_hex_digits: "unat n < 16 \<Longrightarrow> hex_digit n = ascii ''0123456789abcdef'' ! unat n"
  by (simp flip: hex_digits)

lemma hex_digit_inject:
  assumes "unat m < 16" and "unat n < 16" and "hex_digit m = hex_digit n"
  shows "m = n"
proof -
  have "distinct (ascii ''0123456789abcdef'')" by (simp add: ascii_def of_char_def)
  moreover have "length (ascii ''0123456789abcdef'') = 16" by (simp add: ascii_def)
  ultimately show ?thesis
    using assms nth_eq_iff_index_eq [of "ascii ''0123456789abcdef''" "unat m" "unat n"]
    by (simp add: nth_hex_digits word_unat_eq_iff)
qed

lemma bin2hex_digits: "bin2hex (c # cp) = hex_digit (drop_bit 4 c) # hex_digit (c AND 0xf) # bin2hex cp"
  by (simp add: hex_digit_def)

lemma bin2hex_inject: "bin2hex a = bin2hex b \<Longrightarrow> a = b"
proof (induction a arbitrary: b)
  case Nil
  then show ?case by (cases b) (simp_all del: bin2hex.simps(2) add: bin2hex_digits)
next
  case (Cons c a)
  then obtain d b' where b: "b = d # b'" by (cases b) (auto simp del: bin2hex.simps(2) simp: bin2hex_digits)
  then have "drop_bit 4 c = drop_bit 4 d" and lo: "c AND 0xf = d AND 0xf" and "a = b'"
    using Cons hex_digit_inject [OF nibbles(1) nibbles(1)] hex_digit_inject [OF nibbles(2) nibbles(2)]
    by (simp_all del: bin2hex.simps(2) add: bin2hex_digits)
  moreover have "c = d"
  proof (rule bit_word_eqI)
    fix i assume i: "i < LENGTH(8)"
    show "bit c i = bit d i"
    proof (cases "i < 4")
      case True
      have "(0xf :: u8) = mask 4" by (simp add: mask_eq_exp_minus_1)
      then have "take_bit 4 c = take_bit 4 d" using lo by (simp add: take_bit_eq_mask)
      then have "bit (take_bit 4 c) i = bit (take_bit 4 d) i" by simp
      then show ?thesis using True by (simp add: bit_simps)
    next
      case False
      have "bit (drop_bit 4 c) (i - 4) = bit (drop_bit 4 d) (i - 4)" using \<open>drop_bit 4 c = drop_bit 4 d\<close> by simp
      then show ?thesis using False by (simp add: bit_simps)
    qed
  qed
  ultimately show ?case using b by simp
qed

lemma bin2hex_no_space: "x \<in> set (bin2hex d) \<Longrightarrow> x \<noteq> 0x20"
proof (induction d)
  case (Cons c d)
  have "0x20 \<notin> set (ascii ''0123456789abcdef'')" by (simp add: ascii_def of_char_def)
  moreover have "hex_digit n \<in> set (ascii ''0123456789abcdef'')" if "unat n < 16" for n
  proof -
    have "ascii ''0123456789abcdef'' ! unat n \<in> set (ascii ''0123456789abcdef'')"
      using that by (intro nth_mem) (simp add: ascii_def)
    then show ?thesis using that by (simp only: nth_hex_digits)
  qed
  ultimately show ?case
    using Cons nibbles by (auto simp del: bin2hex.simps(2) simp: bin2hex_digits)
qed simp

section \<open>The check mode accepts what the plain mode prints\<close>

lemma strstr_first:
  "a \<notin> set v \<Longrightarrow> strstr (v @ (a # ns) @ rest) (a # ns) = Some (length v)"
proof (induction v)
  case Nil
  then show ?case by simp
next
  case (Cons x v)
  then have "take (length (a # ns)) (x # v @ (a # ns) @ rest) \<noteq> a # ns" by auto
  then show ?case using Cons by simp
qed

text \<open>
  C8. The check mode reads back a line of the plain mode, \<^verbatim>\<open>"%s  %s"\<close> with a hash in
  hex and any file name: it hashes exactly that file, and reports OK if and only if the file's
  hash is the one on the line.
\<close>

theorem check_line_roundtrip:
  "check_line silent warn hf (bin2hex d @ ascii ''  '' @ name) st =
    Option.bind (hf name) (\<lambda>r. Some (
      if r = Died then None
      else if r = Hex_value (bin2hex d)
      then Some (st\<lparr>count_total := count_total st + 1,
        out := out st @ (if silent then [] else [Line_ok name])\<rparr>)
      else Some (st\<lparr>count_total := count_total st + 1,
        out := out st @ (if silent then [] else [Line_failed name]),
        count_failed := count_failed st + 1, failure := True\<rparr>)))"
proof -
  have sp: "ascii ''  '' = [0x20, 0x20]" by (simp add: ascii_def of_char_def)
  have "0x20 \<notin> set (bin2hex d)" using bin2hex_no_space by blast
  then have "strstr (bin2hex d @ ascii ''  '' @ name) (ascii ''  '') = Some (length (bin2hex d))"
    using strstr_first [of "0x20" "bin2hex d" "[0x20]" name] by (simp add: sp)
  moreover have "drop (length (bin2hex d) + 2) (bin2hex d @ ascii ''  '' @ name) = name"
    by (simp add: sp)
  ultimately show ?thesis
    by (cases "hf name"; cases silent) (simp_all add: check_line_def Let_def)
qed

text \<open>
  C9. \<^verbatim>\<open>sha3sum -a\<close> with a width above 512 prints more bytes than the final function
  writes: the rest is what memory or the file left in the read buffer. Already for an empty file
  two runs that differ only in uninitialised memory print different hashes.
\<close>

theorem sha3_width_leak:
  "hash_file HASH_SHA3 544 (mem0 0) \<lparr>opens = True, reads = [], read_fails = False\<rparr>
    \<noteq> hash_file HASH_SHA3 544 (mem0 1) \<lparr>opens = True, reads = [], read_fails = False\<rparr>"
proof -
  let ?src = "\<lparr>opens = True, reads = [], read_fails = False\<rparr>"
  have w: "sha3_width_ok 544" by (simp add: sha3_width_ok_def)
  have u: "unat (544 :: u32) = 544" by simp
  let ?d = "take 64 (fips_sponge 64 [])"
  have len: "length ?d = 64" by (rule length_fips_sponge)
  have run: "hash_file HASH_SHA3 544 (mem0 junk) ?src =
      Some (Hex_value (bin2hex (take 68 (write_at 0 ?d (replicate 4096 junk)))))" for junk
    using hash_file_run [OF mem0_ok [of junk] _ sha3_select [OF w], where src = ?src
        and ctx' = "Ctx_sha3 (sha3_start 64 (m_sha3 (mem0 junk)))"]
      sha3_start_good(2) [OF w, of "m_sha3 (mem0 junk)" "[]"]
    by (auto simp: read_ok_def mem0_def)
  have "take 68 (write_at 0 ?d (replicate 4096 junk)) ! 67 = junk" for junk :: u8
    using len by (simp add: write_at_def nth_append)
  then have "take 68 (write_at 0 ?d (replicate 4096 0)) \<noteq> take 68 (write_at 0 ?d (replicate 4096 (1::u8)))"
    by (metis zero_neq_one)
  then show ?thesis using bin2hex_inject by (auto simp: run)
qed

end
