(* ===== verification/Aes.thy ===== *)
theory Aes
  imports Prelude
begin

text \<open>
  AES as \<^verbatim>\<open>networking/tls_aes.c\<close> has it: the state is sixteen
  \<^verbatim>\<open>unsigned\<close> values holding bytes, column after column; the round keys are words. The
  cipher is shown to be the one of FIPS 197 (with the field arithmetic of GF(2^8) written out), the
  decryption to be its inverse.
\<close>

section \<open>Tables and the key schedule\<close>

definition sbox :: "u8 list" where
  "sbox = [
     0x63, 0x7c, 0x77, 0x7b, 0xf2, 0x6b, 0x6f, 0xc5, 0x30, 0x01, 0x67, 0x2b, 0xfe, 0xd7, 0xab, 0x76,
     0xca, 0x82, 0xc9, 0x7d, 0xfa, 0x59, 0x47, 0xf0, 0xad, 0xd4, 0xa2, 0xaf, 0x9c, 0xa4, 0x72, 0xc0,
     0xb7, 0xfd, 0x93, 0x26, 0x36, 0x3f, 0xf7, 0xcc, 0x34, 0xa5, 0xe5, 0xf1, 0x71, 0xd8, 0x31, 0x15,
     0x04, 0xc7, 0x23, 0xc3, 0x18, 0x96, 0x05, 0x9a, 0x07, 0x12, 0x80, 0xe2, 0xeb, 0x27, 0xb2, 0x75,
     0x09, 0x83, 0x2c, 0x1a, 0x1b, 0x6e, 0x5a, 0xa0, 0x52, 0x3b, 0xd6, 0xb3, 0x29, 0xe3, 0x2f, 0x84,
     0x53, 0xd1, 0x00, 0xed, 0x20, 0xfc, 0xb1, 0x5b, 0x6a, 0xcb, 0xbe, 0x39, 0x4a, 0x4c, 0x58, 0xcf,
     0xd0, 0xef, 0xaa, 0xfb, 0x43, 0x4d, 0x33, 0x85, 0x45, 0xf9, 0x02, 0x7f, 0x50, 0x3c, 0x9f, 0xa8,
     0x51, 0xa3, 0x40, 0x8f, 0x92, 0x9d, 0x38, 0xf5, 0xbc, 0xb6, 0xda, 0x21, 0x10, 0xff, 0xf3, 0xd2,
     0xcd, 0x0c, 0x13, 0xec, 0x5f, 0x97, 0x44, 0x17, 0xc4, 0xa7, 0x7e, 0x3d, 0x64, 0x5d, 0x19, 0x73,
     0x60, 0x81, 0x4f, 0xdc, 0x22, 0x2a, 0x90, 0x88, 0x46, 0xee, 0xb8, 0x14, 0xde, 0x5e, 0x0b, 0xdb,
     0xe0, 0x32, 0x3a, 0x0a, 0x49, 0x06, 0x24, 0x5c, 0xc2, 0xd3, 0xac, 0x62, 0x91, 0x95, 0xe4, 0x79,
     0xe7, 0xc8, 0x37, 0x6d, 0x8d, 0xd5, 0x4e, 0xa9, 0x6c, 0x56, 0xf4, 0xea, 0x65, 0x7a, 0xae, 0x08,
     0xba, 0x78, 0x25, 0x2e, 0x1c, 0xa6, 0xb4, 0xc6, 0xe8, 0xdd, 0x74, 0x1f, 0x4b, 0xbd, 0x8b, 0x8a,
     0x70, 0x3e, 0xb5, 0x66, 0x48, 0x03, 0xf6, 0x0e, 0x61, 0x35, 0x57, 0xb9, 0x86, 0xc1, 0x1d, 0x9e,
     0xe1, 0xf8, 0x98, 0x11, 0x69, 0xd9, 0x8e, 0x94, 0x9b, 0x1e, 0x87, 0xe9, 0xce, 0x55, 0x28, 0xdf,
     0x8c, 0xa1, 0x89, 0x0d, 0xbf, 0xe6, 0x42, 0x68, 0x41, 0x99, 0x2d, 0x0f, 0xb0, 0x54, 0xbb, 0x16]"

definition rsbox :: "u8 list" where
  "rsbox = [
     0x52, 0x09, 0x6a, 0xd5, 0x30, 0x36, 0xa5, 0x38, 0xbf, 0x40, 0xa3, 0x9e, 0x81, 0xf3, 0xd7, 0xfb,
     0x7c, 0xe3, 0x39, 0x82, 0x9b, 0x2f, 0xff, 0x87, 0x34, 0x8e, 0x43, 0x44, 0xc4, 0xde, 0xe9, 0xcb,
     0x54, 0x7b, 0x94, 0x32, 0xa6, 0xc2, 0x23, 0x3d, 0xee, 0x4c, 0x95, 0x0b, 0x42, 0xfa, 0xc3, 0x4e,
     0x08, 0x2e, 0xa1, 0x66, 0x28, 0xd9, 0x24, 0xb2, 0x76, 0x5b, 0xa2, 0x49, 0x6d, 0x8b, 0xd1, 0x25,
     0x72, 0xf8, 0xf6, 0x64, 0x86, 0x68, 0x98, 0x16, 0xd4, 0xa4, 0x5c, 0xcc, 0x5d, 0x65, 0xb6, 0x92,
     0x6c, 0x70, 0x48, 0x50, 0xfd, 0xed, 0xb9, 0xda, 0x5e, 0x15, 0x46, 0x57, 0xa7, 0x8d, 0x9d, 0x84,
     0x90, 0xd8, 0xab, 0x00, 0x8c, 0xbc, 0xd3, 0x0a, 0xf7, 0xe4, 0x58, 0x05, 0xb8, 0xb3, 0x45, 0x06,
     0xd0, 0x2c, 0x1e, 0x8f, 0xca, 0x3f, 0x0f, 0x02, 0xc1, 0xaf, 0xbd, 0x03, 0x01, 0x13, 0x8a, 0x6b,
     0x3a, 0x91, 0x11, 0x41, 0x4f, 0x67, 0xdc, 0xea, 0x97, 0xf2, 0xcf, 0xce, 0xf0, 0xb4, 0xe6, 0x73,
     0x96, 0xac, 0x74, 0x22, 0xe7, 0xad, 0x35, 0x85, 0xe2, 0xf9, 0x37, 0xe8, 0x1c, 0x75, 0xdf, 0x6e,
     0x47, 0xf1, 0x1a, 0x71, 0x1d, 0x29, 0xc5, 0x89, 0x6f, 0xb7, 0x62, 0x0e, 0xaa, 0x18, 0xbe, 0x1b,
     0xfc, 0x56, 0x3e, 0x4b, 0xc6, 0xd2, 0x79, 0x20, 0x9a, 0xdb, 0xc0, 0xfe, 0x78, 0xcd, 0x5a, 0xf4,
     0x1f, 0xdd, 0xa8, 0x33, 0x88, 0x07, 0xc7, 0x31, 0xb1, 0x12, 0x10, 0x59, 0x27, 0x80, 0xec, 0x5f,
     0x60, 0x51, 0x7f, 0xa9, 0x19, 0xb5, 0x4a, 0x0d, 0x2d, 0xe5, 0x7a, 0x9f, 0x93, 0xc9, 0x9c, 0xef,
     0xa0, 0xe0, 0x3b, 0x4d, 0xae, 0x2a, 0xf5, 0xb0, 0xc8, 0xeb, 0xbb, 0x3c, 0x83, 0x53, 0x99, 0x61,
     0x17, 0x2b, 0x04, 0x7e, 0xba, 0x77, 0xd6, 0x26, 0xe1, 0x69, 0x14, 0x63, 0x55, 0x21, 0x0c, 0x7d]"

definition Subword :: "u32 \<Rightarrow> u32" where
  "Subword x =
     push_bit 24 (ucast (sbox ! unat (drop_bit 24 x)))
     OR push_bit 16 (ucast (sbox ! unat (drop_bit 16 x AND 255)))
     OR push_bit 8 (ucast (sbox ! unat (drop_bit 8 x AND 255)))
     OR ucast (sbox ! unat (x AND 255))"

definition Rcon :: "u8 list" where
  "Rcon = [0x01, 0x02, 0x04, 0x08, 0x10, 0x20, 0x40, 0x80, 0x1b, 0x36]"

text \<open>
  The loop that appends the words \<open>i, \<dots>\<close> of the schedule; \<open>n\<close> words are still to be made.
\<close>

fun KeyExpansion_loop :: "nat \<Rightarrow> nat \<Rightarrow> nat \<Rightarrow> nat \<Rightarrow> u32 list \<Rightarrow> u32 list" where
  "KeyExpansion_loop words_key 0 j k RoundKey = RoundKey"
| "KeyExpansion_loop words_key (Suc n) j k RoundKey =
     (let i = length RoundKey;
          tempa = RoundKey ! (i - 1);
          tempa = (if j = 0
                   then let tempa = push_bit 8 tempa OR drop_bit 24 tempa;
                            tempa = Subword tempa
                        in tempa XOR push_bit 24 (ucast (Rcon ! k))
                   else if words_key > 6 \<and> j = 4 then Subword tempa
                   else tempa);
          RoundKey = RoundKey @ [RoundKey ! (i - words_key) XOR tempa];
          j = j + 1
      in if j = words_key then KeyExpansion_loop words_key n 0 (k + 1) RoundKey
         else KeyExpansion_loop words_key n j k RoundKey)"

text \<open>The words it writes, and the number of rounds it returns.\<close>

definition KeyExpansion :: "bytes \<Rightarrow> nat \<Rightarrow> u32 list \<times> u32" where
  "KeyExpansion key key_len =
     (let words_key = key_len div 4;
          rounds = 6 + key_len div 4;
          words_RoundKey = 28 + key_len;
          RoundKey = map (\<lambda>i. be_word (take 4 (drop (4 * i) key))) [0..<words_key]
      in (KeyExpansion_loop words_key (words_RoundKey - words_key) 0 0 RoundKey, of_nat rounds))"

section \<open>The steps of a round\<close>

definition AddRoundKey_column :: "u32 list \<Rightarrow> u32 list \<Rightarrow> nat \<Rightarrow> u32 list" where
  "AddRoundKey_column RoundKeys astate i =
     (let n = RoundKeys ! (i div 4)
      in astate[i + 0 := astate ! (i + 0) XOR drop_bit 24 n,
                i + 1 := astate ! (i + 1) XOR (drop_bit 16 n AND 255),
                i + 2 := astate ! (i + 2) XOR (drop_bit 8 n AND 255),
                i + 3 := astate ! (i + 3) XOR (n AND 255)])"

definition AddRoundKey :: "u32 list \<Rightarrow> u32 list \<Rightarrow> u32 list" where
  "AddRoundKey astate RoundKeys = foldl (AddRoundKey_column RoundKeys) astate [0, 4, 8, 12]"

definition SubBytes :: "u32 list \<Rightarrow> u32 list" where
  "SubBytes astate = map (\<lambda>x. ucast (sbox ! unat x)) astate"

definition ASTATE :: "nat \<Rightarrow> nat \<Rightarrow> nat" where
  "ASTATE col row = col * 4 + row"

definition ShiftRows :: "u32 list \<Rightarrow> u32 list" where
  "ShiftRows a0 =
     (let v = a0 ! ASTATE 0 1;
          a = a0[ASTATE 0 1 := a0 ! ASTATE 1 1];
          a = a[ASTATE 1 1 := a ! ASTATE 2 1];
          a = a[ASTATE 2 1 := a ! ASTATE 3 1];
          a = a[ASTATE 3 1 := v];
          v = a ! ASTATE 0 2; a = a[ASTATE 0 2 := a ! ASTATE 2 2]; a = a[ASTATE 2 2 := v];
          v = a ! ASTATE 1 2; a = a[ASTATE 1 2 := a ! ASTATE 3 2]; a = a[ASTATE 3 2 := v];
          v = a ! ASTATE 3 3;
          a = a[ASTATE 3 3 := a ! ASTATE 2 3];
          a = a[ASTATE 2 3 := a ! ASTATE 1 3];
          a = a[ASTATE 1 3 := a ! ASTATE 0 3]
      in a[ASTATE 0 3 := v])"

text \<open>The reduction \<^verbatim>\<open>x ^ ((-(int)(x >> 8)) & 0x11b)\<close> of a nine-bit value.\<close>

definition reduce9 :: "u32 \<Rightarrow> u32" where
  "reduce9 x = x XOR (- drop_bit 8 x AND 0x11b)"

definition MixColumns_column :: "u32 list \<Rightarrow> nat \<Rightarrow> u32 list" where
  "MixColumns_column astate i =
     (let a = astate ! (i + 0);
          b = astate ! (i + 1);
          c = astate ! (i + 2);
          d = astate ! (i + 3);
          x = push_bit 1 a XOR b XOR push_bit 1 b XOR c XOR d;
          y = a XOR push_bit 1 b XOR c XOR push_bit 1 c XOR d;
          z = a XOR b XOR push_bit 1 c XOR d XOR push_bit 1 d;
          t = a XOR push_bit 1 a XOR b XOR c XOR push_bit 1 d
      in astate[i + 0 := reduce9 x, i + 1 := reduce9 y, i + 2 := reduce9 z, i + 3 := reduce9 t])"

definition MixColumns :: "u32 list \<Rightarrow> u32 list" where
  "MixColumns astate = foldl MixColumns_column astate [0, 4, 8, 12]"

definition InvSubBytes :: "u32 list \<Rightarrow> u32 list" where
  "InvSubBytes astate = map (\<lambda>x. ucast (rsbox ! unat x)) astate"

definition InvShiftRows :: "u32 list \<Rightarrow> u32 list" where
  "InvShiftRows a0 =
     (let v = a0 ! ASTATE 3 1;
          a = a0[ASTATE 3 1 := a0 ! ASTATE 2 1];
          a = a[ASTATE 2 1 := a ! ASTATE 1 1];
          a = a[ASTATE 1 1 := a ! ASTATE 0 1];
          a = a[ASTATE 0 1 := v];
          v = a ! ASTATE 0 2; a = a[ASTATE 0 2 := a ! ASTATE 2 2]; a = a[ASTATE 2 2 := v];
          v = a ! ASTATE 1 2; a = a[ASTATE 1 2 := a ! ASTATE 3 2]; a = a[ASTATE 3 2 := v];
          v = a ! ASTATE 0 3;
          a = a[ASTATE 0 3 := a ! ASTATE 1 3];
          a = a[ASTATE 1 3 := a ! ASTATE 2 3];
          a = a[ASTATE 2 3 := a ! ASTATE 3 3]
      in a[ASTATE 3 3 := v])"

definition Multiply :: "u32 \<Rightarrow> u32" where
  "Multiply x =
     (let y = drop_bit 8 x
      in (x XOR y XOR push_bit 1 y XOR push_bit 3 y XOR push_bit 4 y) AND 255)"

definition InvMixColumns_column :: "u32 list \<Rightarrow> nat \<Rightarrow> u32 list" where
  "InvMixColumns_column astate i =
     (let a = astate ! (i + 0);
          b = astate ! (i + 1);
          c = astate ! (i + 2);
          d = astate ! (i + 3);
          x = push_bit 1 a XOR push_bit 2 a XOR push_bit 3 a XOR b XOR push_bit 1 b XOR push_bit 3 b
              XOR c XOR push_bit 2 c XOR push_bit 3 c XOR d XOR push_bit 3 d;
          y = a XOR push_bit 3 a XOR push_bit 1 b XOR push_bit 2 b XOR push_bit 3 b
              XOR c XOR push_bit 1 c XOR push_bit 3 c XOR d XOR push_bit 2 d XOR push_bit 3 d;
          z = a XOR push_bit 2 a XOR push_bit 3 a XOR b XOR push_bit 3 b
              XOR push_bit 1 c XOR push_bit 2 c XOR push_bit 3 c XOR d XOR push_bit 1 d XOR push_bit 3 d;
          t = a XOR push_bit 1 a XOR push_bit 3 a XOR b XOR push_bit 2 b XOR push_bit 3 b
              XOR c XOR push_bit 3 c XOR push_bit 1 d XOR push_bit 2 d XOR push_bit 3 d
      in astate[i + 0 := Multiply x, i + 1 := Multiply y, i + 2 := Multiply z, i + 3 := Multiply t])"

definition InvMixColumns :: "u32 list \<Rightarrow> u32 list" where
  "InvMixColumns astate = foldl InvMixColumns_column astate [0, 4, 8, 12]"

section \<open>The ciphers\<close>

record tls_aes =
  key :: "u32 list"
  rounds :: u32

text \<open>
  The loops count \<^verbatim>\<open>--rounds == 0\<close>: \<open>n\<close> is the value after the decrement, so that
  \<open>rounds = 0\<close> would wrap around to \<open>2 ^ 32 - 1\<close> as in C. \<open>RoundKey\<close> is the array from
  the pointer on in the encryption, and the offset of the pointer in the decryption.
\<close>

fun aes_encrypt_loop :: "nat \<Rightarrow> u32 list \<Rightarrow> u32 list \<Rightarrow> u32 list" where
  "aes_encrypt_loop n RoundKey astate =
     (let astate = AddRoundKey astate RoundKey;
          RoundKey = drop 4 RoundKey;
          astate = SubBytes astate;
          astate = ShiftRows astate
      in case n of
           0 \<Rightarrow> AddRoundKey astate RoundKey
         | Suc m \<Rightarrow> aes_encrypt_loop m RoundKey (MixColumns astate))"

definition aes_encrypt_1 :: "tls_aes \<Rightarrow> u32 list \<Rightarrow> u32 list" where
  "aes_encrypt_1 aes astate = aes_encrypt_loop (unat (rounds aes - 1)) (key aes) astate"

fun aes_decrypt_loop :: "u32 list \<Rightarrow> nat \<Rightarrow> nat \<Rightarrow> u32 list \<Rightarrow> u32 list" where
  "aes_decrypt_loop keys n pos astate =
     (let astate = InvShiftRows astate;
          astate = InvSubBytes astate;
          pos = pos - 4;
          astate = AddRoundKey astate (drop pos keys)
      in case n of
           0 \<Rightarrow> astate
         | Suc m \<Rightarrow> aes_decrypt_loop keys m pos (InvMixColumns astate))"

definition aes_decrypt_1 :: "tls_aes \<Rightarrow> u32 list \<Rightarrow> u32 list" where
  "aes_decrypt_1 aes astate =
     (let pos = unat (rounds aes) * 4;
          astate = AddRoundKey astate (drop pos (key aes))
      in aes_decrypt_loop (key aes) (unat (rounds aes - 1)) pos astate)"

declare aes_encrypt_loop.simps [simp del] aes_decrypt_loop.simps [simp del]

definition aes_setkey :: "tls_aes \<Rightarrow> bytes \<Rightarrow> nat \<Rightarrow> tls_aes" where
  "aes_setkey aes k key_len =
     (case KeyExpansion k key_len of (w, r) \<Rightarrow> aes\<lparr>key := write_at 0 w (key aes), rounds := r\<rparr>)"

definition aes_encrypt_one_block :: "tls_aes \<Rightarrow> bytes \<Rightarrow> bytes" where
  "aes_encrypt_one_block aes pt =
     (let astate = map (\<lambda>i. ucast (pt ! i)) [0..<16];
          astate = aes_encrypt_1 aes astate
      in map (\<lambda>i. ucast (astate ! i)) [0..<16])"

definition aes_decrypt_one_block :: "tls_aes \<Rightarrow> bytes \<Rightarrow> bytes" where
  "aes_decrypt_one_block aes ct =
     (let astate = map (\<lambda>i. ucast (ct ! i)) [0..<16];
          astate = aes_decrypt_1 aes astate
      in map (\<lambda>i. ucast (astate ! i)) [0..<16])"

text \<open>
  CBC. A length that is no multiple of the block size makes the C code run off the buffer (its
  counter wraps around): \<open>None\<close>.
\<close>

fun aes_cbc_encrypt :: "tls_aes \<Rightarrow> bytes \<Rightarrow> bytes \<Rightarrow> bytes option" where
  "aes_cbc_encrypt aes iv2 data =
     (if data = [] then Some []
      else if length data < 16 then None
      else let astate = map (\<lambda>i. ucast (data ! i XOR iv2 ! i)) [0..<16];
               astate = aes_encrypt_1 aes astate;
               ct = map (\<lambda>i. ucast (astate ! i)) [0..<16]
           in map_option ((@) ct) (aes_cbc_encrypt aes ct (drop 16 data)))"

fun aes_cbc_decrypt :: "tls_aes \<Rightarrow> bytes \<Rightarrow> bytes \<Rightarrow> bytes option" where
  "aes_cbc_decrypt aes ivbuf data =
     (if data = [] then Some []
      else if length data < 16 then None
      else let ivnext = take 16 data;
               astate = map (\<lambda>i. ucast (data ! i)) [0..<16];
               astate = aes_decrypt_1 aes astate;
               pt = map (\<lambda>i. ucast (astate ! i) XOR ivbuf ! i) [0..<16]
           in map_option ((@) pt) (aes_cbc_decrypt aes ivnext (drop 16 data)))"

declare aes_cbc_encrypt.simps [simp del] aes_cbc_decrypt.simps [simp del]

section \<open>The field and the standard's steps, on bytes\<close>

definition xtime :: "u8 \<Rightarrow> u8" where
  "xtime a = push_bit 1 a XOR (if bit a 7 then 0x1b else 0)"

definition gf_mul :: "u8 \<Rightarrow> u8 \<Rightarrow> u8" where
  "gf_mul a b = foldl (\<lambda>r i. if bit a i then r XOR (xtime ^^ i) b else r) 0 [0..<8]"

definition fips_AddRoundKey :: "u32 list \<Rightarrow> bytes \<Rightarrow> bytes" where
  "fips_AddRoundKey w s = map2 (XOR) s (concat (map (be_bytes 4) (take 4 w)))"

definition fips_SubBytes :: "bytes \<Rightarrow> bytes" where
  "fips_SubBytes s = map (\<lambda>b. sbox ! unat b) s"

text \<open>Row \<open>r\<close>, column \<open>c\<close> of a state is its byte \<open>r + 4 c\<close>.\<close>

definition fips_ShiftRows :: "bytes \<Rightarrow> bytes" where
  "fips_ShiftRows s = map (\<lambda>i. s ! (i mod 4 + 4 * ((i div 4 + i mod 4) mod 4))) [0..<16]"

definition column_mul :: "u8 \<Rightarrow> u8 \<Rightarrow> u8 \<Rightarrow> u8 \<Rightarrow> bytes \<Rightarrow> bytes" where
  "column_mul k0 k1 k2 k3 s = map (\<lambda>i. let c = 4 * (i div 4); r = i mod 4
     in gf_mul k0 (s ! (c + r)) XOR gf_mul k1 (s ! (c + (r + 1) mod 4))
        XOR gf_mul k2 (s ! (c + (r + 2) mod 4)) XOR gf_mul k3 (s ! (c + (r + 3) mod 4))) [0..<16]"

definition fips_MixColumns :: "bytes \<Rightarrow> bytes" where
  "fips_MixColumns = column_mul 2 3 1 1"

definition fips_InvShiftRows :: "bytes \<Rightarrow> bytes" where
  "fips_InvShiftRows s = map (\<lambda>i. s ! (i mod 4 + 4 * ((i div 4 + 4 - i mod 4) mod 4))) [0..<16]"

definition fips_InvSubBytes :: "bytes \<Rightarrow> bytes" where
  "fips_InvSubBytes s = map (\<lambda>b. rsbox ! unat b) s"

definition fips_InvMixColumns :: "bytes \<Rightarrow> bytes" where
  "fips_InvMixColumns = column_mul 0xe 0xb 0xd 0x9"

section \<open>The steps on words are the standard's steps on bytes\<close>

abbreviation up :: "bytes \<Rightarrow> u32 list" where
  "up s \<equiv> map ucast s"

lemma upt_16: "[0..<16] = [0, 1, 2, 3, 4, 5, 6, 7, 8, 9, 10, 11, 12, 13, 14, 15]"
  by (simp add: upt_rec)

lemma state16: "length s = 16 \<Longrightarrow> s = [s ! 0, s ! 1, s ! 2, s ! 3, s ! 4, s ! 5, s ! 6, s ! 7, s ! 8, s ! 9, s ! 10, s ! 11, s ! 12, s ! 13, s ! 14, s ! 15]"
proof -
  assume "length s = 16"
  then have "s = map ((!) s) [0..<16]" using map_nth [of s] by simp
  then show ?thesis by (simp only: upt_16 list.map)
qed

lemma xor_cancel_left [simp]: "x XOR (x XOR y) = (y :: 'a::len word)"
  by (simp flip: xor.assoc)

lemma xtime_xor: "xtime (a XOR b) = xtime a XOR xtime b"
  by (rule bit_word_eqI) (auto simp: xtime_def bit_simps)

lemma gf_consts:
  "gf_mul 1 a = a" "gf_mul 2 a = xtime a" "gf_mul 3 a = a XOR xtime a"
  "gf_mul 9 a = a XOR xtime (xtime (xtime a))"
  "gf_mul 0xb a = a XOR xtime a XOR xtime (xtime (xtime a))"
  "gf_mul 0xd a = a XOR xtime (xtime a) XOR xtime (xtime (xtime a))"
  "gf_mul 0xe a = xtime a XOR xtime (xtime a) XOR xtime (xtime (xtime a))"
  by (simp_all add: gf_mul_def upt_rec numeral_eq_Suc xor.assoc)

lemma unat_up [simp]: "unat (ucast (x :: u8) :: u32) = unat x"
proof -
  have "unat x < 2 ^ 32" using unat_bound [of x] by simp
  then show ?thesis by (simp only: unsigned_ucast_eq) (simp add: take_bit_nat_eq_self)
qed

lemma SubBytes_up: "SubBytes (up s) = up (fips_SubBytes s)"
  by (simp add: SubBytes_def fips_SubBytes_def)

lemma InvSubBytes_up: "InvSubBytes (up s) = up (fips_InvSubBytes s)"
  by (simp add: InvSubBytes_def fips_InvSubBytes_def)

lemma state16E:
  assumes "length s = 16"
  obtains a0 a1 a2 a3 a4 a5 a6 a7 a8 a9 a10 a11 a12 a13 a14 a15 where "s = [a0, a1, a2, a3, a4, a5, a6, a7, a8, a9, a10, a11, a12, a13, a14, a15]"
  using state16 [OF assms] by (rule that)

lemma ShiftRows_up:
  assumes "length s = 16"
  shows "ShiftRows (up s) = up (fips_ShiftRows s)"
  using assms by (elim state16E) (simp add: ShiftRows_def ASTATE_def fips_ShiftRows_def upt_16 Let_def)

lemma InvShiftRows_up:
  assumes "length s = 16"
  shows "InvShiftRows (up s) = up (fips_InvShiftRows s)"
  using assms by (elim state16E) (simp add: InvShiftRows_def ASTATE_def fips_InvShiftRows_def upt_16 Let_def)

lemma ucast_xor: "(ucast (a XOR b) :: 'b::len word) = ucast (a :: 'a::len word) XOR ucast b"
  by (rule bit_word_eqI) (auto simp: bit_simps dest: bit_imp_le_length)

text \<open>The bytes of a round key word, as the code extracts them.\<close>

lemma word_bytes:
  "ucast (be_bytes 4 (n :: u32) ! 0) = drop_bit 24 n"
  "ucast (be_bytes 4 n ! 1) = drop_bit 16 n AND (255 :: u32)"
  "ucast (be_bytes 4 n ! 2) = drop_bit 8 n AND (255 :: u32)"
  "ucast (be_bytes 4 n ! 3) = n AND (255 :: u32)"
proof -
  have m: "(255 :: u32) = mask 8" by (simp add: mask_eq_exp_minus_1)
  have b: "be_bytes 4 n = [ucast (drop_bit 24 n), ucast (drop_bit 16 n), ucast (drop_bit 8 n), ucast n]"
    by (simp add: be_bytes_def le_bytes_def upt_rec)
  show "ucast (be_bytes 4 n ! 0) = drop_bit 24 n"
    unfolding b by (rule bit_word_eqI) (auto simp: bit_simps dest: bit_imp_le_length)
  show "ucast (be_bytes 4 n ! 1) = drop_bit 16 n AND (255 :: u32)"
    unfolding b m by (rule bit_word_eqI) (auto simp: bit_simps dest: bit_imp_le_length)
  show "ucast (be_bytes 4 n ! 2) = drop_bit 8 n AND (255 :: u32)"
    unfolding b m by (rule bit_word_eqI) (auto simp: bit_simps dest: bit_imp_le_length)
  show "ucast (be_bytes 4 n ! 3) = n AND (255 :: u32)"
    unfolding b m by (rule bit_word_eqI) (auto simp: bit_simps dest: bit_imp_le_length)
qed

lemma word_bytesE:
  obtains b0 b1 b2 b3 where "be_bytes 4 (n :: u32) = [b0, b1, b2, b3]"
    and "ucast b0 = drop_bit 24 n" and "ucast b1 = drop_bit 16 n AND (255 :: u32)"
    and "ucast b2 = drop_bit 8 n AND (255 :: u32)" and "ucast b3 = n AND (255 :: u32)"
proof (rule that)
  show "be_bytes 4 n = [be_bytes 4 n ! 0, be_bytes 4 n ! 1, be_bytes 4 n ! 2, be_bytes 4 n ! 3]"
    by (rule nth_equalityI) (auto simp: less_Suc_eq numeral_eq_Suc)
qed (rule word_bytes)+

lemma AddRoundKey_up:
  assumes "length s = 16" and "4 \<le> length w"
  shows "AddRoundKey (up s) w = up (fips_AddRoundKey w s)"
proof -
  obtain w0 w1 w2 w3 ws where w: "w = w0 # w1 # w2 # w3 # ws"
    using assms(2) by (auto simp: numeral_eq_Suc Suc_le_length_iff)
  show ?thesis
    by (rule state16E [OF assms(1)], rule word_bytesE [of w0], rule word_bytesE [of w1], rule word_bytesE [of w2],
        rule word_bytesE [of w3])
      (simp add: w AddRoundKey_def fips_AddRoundKey_def AddRoundKey_column_def Let_def ucast_xor)
qed

text \<open>The reductions: \<open>reduce9\<close> of nine-bit values and \<open>Multiply\<close> are additive.\<close>

lemma reduce9_bits:
  assumes "take_bit 9 x = x"
  shows "reduce9 x = x XOR (if bit x 8 then 0x11b else 0)"
proof -
  have "bit (take_bit 9 x) i \<longleftrightarrow> i < 9 \<and> bit x i" for i by (simp add: bit_simps)
  then have hi: "bit x i \<Longrightarrow> i < 9" for i using assms by metis
  have "drop_bit 8 x = of_bool (bit x 8)"
  proof (rule bit_word_eqI)
    fix i assume "i < LENGTH(32)"
    show "bit (drop_bit 8 x) i = bit (of_bool (bit x 8) :: u32) i"
      using hi [of "8 + i"] by (cases "i = 0") (auto simp: bit_simps)
  qed
  then show ?thesis by (simp add: reduce9_def)
qed

lemma reduce9_xor:
  assumes "take_bit 9 x = x" and "take_bit 9 y = y"
  shows "reduce9 (x XOR y) = reduce9 x XOR reduce9 y"
proof -
  have "take_bit 9 (x XOR y) = x XOR y" using assms by simp
  then show ?thesis using assms by (simp add: reduce9_bits bit_simps ac_simps)
qed

lemma reduce9_byte:
  "take_bit 9 (ucast (a :: u8)) = (ucast a :: u32)"
  "take_bit 9 (push_bit 1 (ucast (a :: u8))) = (push_bit 1 (ucast a) :: u32)"
  "reduce9 (ucast a) = ucast a"
  "reduce9 (push_bit 1 (ucast a)) = ucast (xtime a)"
proof -
  have k: "take_bit 9 (push_bit k (ucast a)) = (push_bit k (ucast a) :: u32)" if "k \<le> 1" for k
    using that by (intro bit_word_eqI) (auto simp: bit_simps dest: bit_imp_le_length)
  show t: "take_bit 9 (ucast a) = (ucast a :: u32)" "take_bit 9 (push_bit 1 (ucast a)) = (push_bit 1 (ucast a) :: u32)"
    using k [of 0] k [of 1] by simp_all
  show "reduce9 (ucast a) = ucast a"
    using t(1) by (simp add: reduce9_bits) (auto simp: bit_simps dest: bit_imp_le_length)
  show "reduce9 (push_bit 1 (ucast a)) = ucast (xtime a)"
    by (rule u8_all [where P = "\<lambda>a. reduce9 (push_bit 1 (ucast a)) = ucast (xtime a)"]) code_simp
qed

lemma Multiply_xor: "Multiply (x XOR y) = Multiply x XOR Multiply y"
  by (simp only: Multiply_def Let_def drop_bit_xor push_bit_xor bit.conj_xor_distrib2 [symmetric])
    (simp only: ac_simps)

lemma Multiply_byte:
  "Multiply (ucast (a :: u8)) = ucast a"
  "Multiply (push_bit 1 (ucast a)) = ucast (xtime a)"
  "Multiply (push_bit 2 (ucast a)) = ucast (xtime (xtime a))"
  "Multiply (push_bit 3 (ucast a)) = ucast (xtime (xtime (xtime a)))"
proof -
  have red: "Multiply (push_bit k (reduce9 y)) = Multiply (push_bit k y)" if "take_bit 9 y = y" and "k \<le> 2" for k y
  proof -
    have "k = 0 \<or> k = 1 \<or> k = 2" using that(2) by auto
    moreover have "Multiply (push_bit 0 0x11b) = 0" "Multiply (push_bit 1 0x11b) = 0" "Multiply (push_bit 2 0x11b) = 0"
      by code_simp+
    ultimately have "Multiply (push_bit k 0x11b) = 0" by auto
    then show ?thesis
      unfolding reduce9_bits [OF that(1)] by (cases "bit y 8") (simp_all only: if_True if_False
          push_bit_xor Multiply_xor xor.right_neutral)
  qed
  have base: "Multiply (ucast b) = ucast b" for b :: u8
  proof -
    have d: "drop_bit 8 (ucast b :: u32) = 0"
      by (rule bit_word_eqI) (auto simp: bit_simps dest: bit_imp_le_length)
    have m: "(255 :: u32) = mask 8" by (simp add: mask_eq_exp_minus_1)
    have "ucast b AND (255 :: u32) = ucast b"
      unfolding m by (rule bit_word_eqI) (auto simp: bit_simps dest: bit_imp_le_length)
    then show ?thesis by (simp add: Multiply_def d)
  qed
  have one: "Multiply (push_bit 1 (ucast b)) = ucast (xtime b)" for b :: u8
    using red [OF reduce9_byte(2), of 0 b] base [of "xtime b"] by (simp only: reduce9_byte(4) push_bit_0_id id_apply)
  have step: "Multiply (push_bit (k + 1) (ucast b)) = Multiply (push_bit k (ucast (xtime b)))" if "k \<le> 2" for k and b :: u8
    using red [OF reduce9_byte(2) that, of b] by (simp only: reduce9_byte(4) push_bit_push_bit)
  show "Multiply (ucast (a :: u8)) = ucast a" "Multiply (push_bit 1 (ucast a)) = ucast (xtime a)"
    by (rule base, rule one)
  show two: "Multiply (push_bit 2 (ucast a)) = ucast (xtime (xtime a))"
    using step [of 1 a] one [of "xtime a"] by (simp only: one_add_one)
  show "Multiply (push_bit 3 (ucast a)) = ucast (xtime (xtime (xtime a)))"
    using step [of 2 a] step [of 1 "xtime a"] one [of "xtime (xtime a)"]
    by (simp only: one_add_one numeral_plus_one semiring_norm)
qed

text \<open>A column of the code's state, after each of the two steps.\<close>

definition mix1 :: "u8 \<Rightarrow> u8 \<Rightarrow> u8 \<Rightarrow> u8 \<Rightarrow> u8" where
  "mix1 a b c d = gf_mul 2 a XOR gf_mul 3 b XOR gf_mul 1 c XOR gf_mul 1 d"

definition inv1 :: "u8 \<Rightarrow> u8 \<Rightarrow> u8 \<Rightarrow> u8 \<Rightarrow> u8" where
  "inv1 a b c d = gf_mul 0xe a XOR gf_mul 0xb b XOR gf_mul 0xd c XOR gf_mul 0x9 d"

lemma mix1_code:
  fixes a b c d :: u8
  defines "A \<equiv> ucast a :: u32" and "B \<equiv> ucast b :: u32" and "C \<equiv> ucast c :: u32" and "D \<equiv> ucast d :: u32"
  shows "reduce9 (push_bit 1 A XOR B XOR push_bit 1 B XOR C XOR D) = ucast (mix1 a b c d)"
    and "reduce9 (A XOR push_bit 1 B XOR C XOR push_bit 1 C XOR D) = ucast (mix1 b c d a)"
    and "reduce9 (A XOR B XOR push_bit 1 C XOR D XOR push_bit 1 D) = ucast (mix1 c d a b)"
    and "reduce9 (A XOR push_bit 1 A XOR B XOR C XOR push_bit 1 D) = ucast (mix1 d a b c)"
  unfolding A_def B_def C_def D_def
  by (simp_all only: reduce9_xor reduce9_byte take_bit_xor mix1_def gf_consts ucast_xor ac_simps)

lemma inv1_code:
  fixes a b c d :: u8
  defines "A \<equiv> ucast a :: u32" and "B \<equiv> ucast b :: u32" and "C \<equiv> ucast c :: u32" and "D \<equiv> ucast d :: u32"
  shows "Multiply (push_bit 1 A XOR push_bit 2 A XOR push_bit 3 A XOR B XOR push_bit 1 B XOR push_bit 3 B
      XOR C XOR push_bit 2 C XOR push_bit 3 C XOR D XOR push_bit 3 D) = ucast (inv1 a b c d)"
    and "Multiply (A XOR push_bit 3 A XOR push_bit 1 B XOR push_bit 2 B XOR push_bit 3 B
      XOR C XOR push_bit 1 C XOR push_bit 3 C XOR D XOR push_bit 2 D XOR push_bit 3 D) = ucast (inv1 b c d a)"
    and "Multiply (A XOR push_bit 2 A XOR push_bit 3 A XOR B XOR push_bit 3 B
      XOR push_bit 1 C XOR push_bit 2 C XOR push_bit 3 C XOR D XOR push_bit 1 D XOR push_bit 3 D) = ucast (inv1 c d a b)"
    and "Multiply (A XOR push_bit 1 A XOR push_bit 3 A XOR B XOR push_bit 2 B XOR push_bit 3 B
      XOR C XOR push_bit 3 C XOR push_bit 1 D XOR push_bit 2 D XOR push_bit 3 D) = ucast (inv1 d a b c)"
  unfolding A_def B_def C_def D_def
  by (simp_all only: Multiply_xor Multiply_byte inv1_def gf_consts ucast_xor ac_simps)

definition mix_col :: "(u8 \<Rightarrow> u8 \<Rightarrow> u8 \<Rightarrow> u8 \<Rightarrow> u8) \<Rightarrow> bytes \<Rightarrow> nat \<Rightarrow> bytes" where
  "mix_col f s i = s[i + 0 := f (s ! (i + 0)) (s ! (i + 1)) (s ! (i + 2)) (s ! (i + 3)),
     i + 1 := f (s ! (i + 1)) (s ! (i + 2)) (s ! (i + 3)) (s ! (i + 0)),
     i + 2 := f (s ! (i + 2)) (s ! (i + 3)) (s ! (i + 0)) (s ! (i + 1)),
     i + 3 := f (s ! (i + 3)) (s ! (i + 0)) (s ! (i + 1)) (s ! (i + 2))]"

lemma column_up:
  assumes "i + 3 < length s"
  shows "MixColumns_column (up s) i = up (mix_col mix1 s i)"
    and "InvMixColumns_column (up s) i = up (mix_col inv1 s i)"
proof -
  have n: "i + 0 < length s" "i + 1 < length s" "i + 2 < length s" "i + 3 < length s" using assms by simp_all
  show "MixColumns_column (up s) i = up (mix_col mix1 s i)"
    unfolding MixColumns_column_def Let_def nth_map [OF n(1)] nth_map [OF n(2)] nth_map [OF n(3)]
      nth_map [OF n(4)] mix1_code mix_col_def map_update by (rule refl)
  show "InvMixColumns_column (up s) i = up (mix_col inv1 s i)"
    unfolding InvMixColumns_column_def Let_def nth_map [OF n(1)] nth_map [OF n(2)] nth_map [OF n(3)]
      nth_map [OF n(4)] inv1_code mix_col_def map_update by (rule refl)
qed

lemma length_mix_col [simp]: "length (mix_col f s i) = length s"
  by (simp add: mix_col_def)

lemma columns_up:
  assumes "length s = 16"
  shows "MixColumns (up s) = up (foldl (mix_col mix1) s [0, 4, 8, 12])"
    and "InvMixColumns (up s) = up (foldl (mix_col inv1) s [0, 4, 8, 12])"
  using assms by (simp_all add: MixColumns_def InvMixColumns_def column_up)

lemma mix_cols:
  assumes "length s = 16" and "f = (\<lambda>a b c d. gf_mul k0 a XOR gf_mul k1 b XOR gf_mul k2 c XOR gf_mul k3 d)"
  shows "foldl (mix_col f) s [0, 4, 8, 12] = column_mul k0 k1 k2 k3 s"
  by (rule state16E [OF assms(1)])
    (simp add: mix_col_def column_mul_def upt_16 Let_def assms(2))

lemma fips_mix_cols:
  assumes "length s = 16"
  shows "fips_MixColumns s = foldl (mix_col mix1) s [0, 4, 8, 12]"
    and "fips_InvMixColumns s = foldl (mix_col inv1) s [0, 4, 8, 12]"
  unfolding fips_MixColumns_def fips_InvMixColumns_def
  by (rule mix_cols [OF assms, symmetric], simp add: mix1_def [abs_def] inv1_def [abs_def])+

lemma MixColumns_up: "length s = 16 \<Longrightarrow> MixColumns (up s) = up (fips_MixColumns s)"
  by (simp only: columns_up fips_mix_cols)

lemma InvMixColumns_up: "length s = 16 \<Longrightarrow> InvMixColumns (up s) = up (fips_InvMixColumns s)"
  by (simp only: columns_up fips_mix_cols)

section \<open>The steps are invertible\<close>

lemma inv1_mix1: "inv1 (mix1 a b c d) (mix1 b c d a) (mix1 c d a b) (mix1 d a b c) = a"
  by (simp add: inv1_def mix1_def gf_consts xtime_xor ac_simps)

lemma length_fips [simp]:
  "length (fips_SubBytes s) = length s" "length (fips_ShiftRows s) = 16" "length (fips_MixColumns s) = 16"
  "length (fips_InvSubBytes s) = length s" "length (fips_InvShiftRows s) = 16" "length (fips_InvMixColumns s) = 16"
  by (simp_all add: fips_SubBytes_def fips_ShiftRows_def fips_MixColumns_def fips_InvSubBytes_def
      fips_InvShiftRows_def fips_InvMixColumns_def column_mul_def)

lemma length_fips_AddRoundKey [simp]:
  "length s = 16 \<Longrightarrow> 4 \<le> length w \<Longrightarrow> length (fips_AddRoundKey w s) = 16"
  by (simp add: fips_AddRoundKey_def length_concat comp_def sum_list_triv min_def)

lemma inv_SubBytes: "fips_InvSubBytes (fips_SubBytes s) = s"
proof -
  have "rsbox ! unat (sbox ! unat b) = b" for b :: u8
    by (rule u8_all [where P = "\<lambda>b. rsbox ! unat (sbox ! unat b) = b"]) code_simp
  then show ?thesis by (simp add: fips_InvSubBytes_def fips_SubBytes_def comp_def)
qed

lemma inv_ShiftRows: "length s = 16 \<Longrightarrow> fips_InvShiftRows (fips_ShiftRows s) = s"
  by (erule state16E) (simp add: fips_InvShiftRows_def fips_ShiftRows_def upt_16)

lemma inv_AddRoundKey:
  assumes "length s = 16" and "4 \<le> length w"
  shows "fips_AddRoundKey w (fips_AddRoundKey w s) = s"
  by (rule nth_equalityI)
    (use assms in \<open>simp_all add: fips_AddRoundKey_def length_concat comp_def sum_list_triv xor.assoc\<close>)

lemma inv_MixColumns:
  assumes "length s = 16"
  shows "fips_InvMixColumns (fips_MixColumns s) = s"
proof -
  have "fips_InvMixColumns (fips_MixColumns s) = foldl (mix_col inv1) (fips_MixColumns s) [0, 4, 8, 12]"
    by (rule fips_mix_cols(2)) simp
  also have "\<dots> = s"
    unfolding fips_mix_cols(1) [OF assms]
    by (rule state16E [OF assms]) (simp add: mix_col_def inv1_mix1)
  finally show ?thesis .
qed

section \<open>The cipher of FIPS 197\<close>

text \<open>
  Round keys are taken from the word list \<open>w\<close>, four at a time; \<open>Nr\<close> is the number of rounds.
\<close>

definition round_key :: "u32 list \<Rightarrow> nat \<Rightarrow> u32 list" where
  "round_key w r = drop (4 * r) w"

fun fips_rounds :: "u32 list \<Rightarrow> nat \<Rightarrow> bytes \<Rightarrow> bytes" where
  "fips_rounds w 0 s = fips_AddRoundKey (round_key w 0) s"
| "fips_rounds w (Suc r) s =
     fips_AddRoundKey (round_key w (Suc r)) (fips_MixColumns (fips_ShiftRows (fips_SubBytes (fips_rounds w r s))))"

definition fips_Cipher :: "nat \<Rightarrow> u32 list \<Rightarrow> bytes \<Rightarrow> bytes" where
  "fips_Cipher Nr w s =
     fips_AddRoundKey (round_key w Nr) (fips_ShiftRows (fips_SubBytes (fips_rounds w (Nr - 1) s)))"

lemma length_fips_rounds [simp]:
  "length s = 16 \<Longrightarrow> 4 * (r + 1) \<le> length w \<Longrightarrow> length (fips_rounds w r s) = 16"
  by (induction r) (simp_all add: round_key_def)

text \<open>The loop, entered with the round key of the state it is given.\<close>

lemma encrypt_loop_fips:
  assumes "length s = 16" and "n + r + 2 \<le> length w div 4"
  shows "aes_encrypt_loop n (drop (4 * r) w)
      (up (if r = 0 then s else fips_MixColumns (fips_ShiftRows (fips_SubBytes (fips_rounds w (r - 1) s)))))
    = up (fips_Cipher (n + r + 1) w s)"
  using assms(2)
proof (induction n arbitrary: r)
  case (0 r)
  have len: "4 * (r + 1) \<le> length w" "4 * (r + 2) \<le> length w" using "0" by simp_all
  let ?t = "if r = 0 then s else fips_MixColumns (fips_ShiftRows (fips_SubBytes (fips_rounds w (r - 1) s)))"
  have t: "length ?t = 16" using assms(1) by simp
  have add: "fips_AddRoundKey (drop (4 * r) w) ?t = fips_rounds w r s"
    by (cases r) (simp_all add: round_key_def)
  have "aes_encrypt_loop 0 (drop (4 * r) w) (up ?t)
      = AddRoundKey (ShiftRows (SubBytes (AddRoundKey (up ?t) (drop (4 * r) w)))) (drop 4 (drop (4 * r) w))"
    by (simp add: aes_encrypt_loop.simps [of 0] Let_def)
  then show ?case
    using t len assms(1) add
    by (simp add: AddRoundKey_up SubBytes_up ShiftRows_up fips_Cipher_def round_key_def add.commute)
next
  case (Suc n r)
  have len: "4 * (r + 1) \<le> length w" using Suc.prems by simp
  let ?t = "if r = 0 then s else fips_MixColumns (fips_ShiftRows (fips_SubBytes (fips_rounds w (r - 1) s)))"
  have t: "length ?t = 16" using assms(1) by simp
  have add: "fips_AddRoundKey (drop (4 * r) w) ?t = fips_rounds w r s"
    by (cases r) (simp_all add: round_key_def)
  have "aes_encrypt_loop (Suc n) (drop (4 * r) w) (up ?t)
      = aes_encrypt_loop n (drop (4 * (r + 1)) w)
          (MixColumns (ShiftRows (SubBytes (AddRoundKey (up ?t) (drop (4 * r) w)))))"
    by (simp add: aes_encrypt_loop.simps [of "Suc n"] Let_def add.commute)
  also have "\<dots> = aes_encrypt_loop n (drop (4 * (r + 1)) w)
      (up (fips_MixColumns (fips_ShiftRows (fips_SubBytes (fips_rounds w r s)))))"
    using t len assms(1) add by (simp add: AddRoundKey_up SubBytes_up ShiftRows_up MixColumns_up)
  finally show ?case using Suc.IH [of "r + 1"] Suc.prems by simp
qed

text \<open>Key arrays and round counts as the key schedule leaves them.\<close>

definition aes_ok :: "tls_aes \<Rightarrow> bool" where
  "aes_ok aes \<longleftrightarrow> length (key aes) = 60 \<and> 1 \<le> rounds aes \<and> rounds aes \<le> 14"

lemma aes_ok_rounds:
  assumes "aes_ok aes"
  shows "unat (rounds aes - 1) = unat (rounds aes) - 1" and "1 \<le> unat (rounds aes)" and "unat (rounds aes) \<le> 14"
proof -
  show "1 \<le> unat (rounds aes)" "unat (rounds aes) \<le> 14"
    using assms by (simp_all add: aes_ok_def word_le_nat_alt)
  show "unat (rounds aes - 1) = unat (rounds aes) - 1"
    using assms unat_sub [of 1 "rounds aes"] by (simp add: aes_ok_def)
qed

lemma aes_encrypt_1_fips:
  assumes "aes_ok aes" and "length s = 16"
  shows "aes_encrypt_1 aes (up s) = up (fips_Cipher (unat (rounds aes)) (key aes) s)"
  using encrypt_loop_fips [OF assms(2), of "unat (rounds aes) - 1" 0 "key aes"] aes_ok_rounds [OF assms(1)] assms(1)
  by (simp add: aes_encrypt_1_def aes_ok_def)

text \<open>The decryption loop undoes the rounds, the last first.\<close>

lemma decrypt_loop_fips:
  assumes "length s = 16" and "n + 2 \<le> length w div 4"
  shows "aes_decrypt_loop w n (4 * (n + 1)) (up (fips_ShiftRows (fips_SubBytes (fips_rounds w n s)))) = up s"
  using assms(2)
proof (induction n)
  case 0
  have "4 \<le> length w" using "0" by simp
  then show ?case
    using assms(1)
    by (simp add: aes_decrypt_loop.simps [of w 0] Let_def InvShiftRows_up InvSubBytes_up inv_ShiftRows
        inv_SubBytes AddRoundKey_up round_key_def inv_AddRoundKey)
next
  case (Suc n)
  have len: "4 * (n + 2) \<le> length w" using Suc.prems by simp
  let ?u = "fips_MixColumns (fips_ShiftRows (fips_SubBytes (fips_rounds w n s)))"
  have "aes_decrypt_loop w (Suc n) (4 * (Suc n + 1)) (up (fips_ShiftRows (fips_SubBytes (fips_rounds w (Suc n) s))))
      = aes_decrypt_loop w n (4 * (n + 1)) (InvMixColumns (AddRoundKey (up (fips_rounds w (Suc n) s)) (drop (4 * (n + 1)) w)))"
    using assms(1) len
    by (simp add: aes_decrypt_loop.simps [of w "Suc n"] Let_def InvShiftRows_up InvSubBytes_up inv_ShiftRows
        inv_SubBytes del: fips_rounds.simps)
  also have "AddRoundKey (up (fips_rounds w (Suc n) s)) (drop (4 * (n + 1)) w) = up ?u"
    using assms(1) len by (simp add: AddRoundKey_up round_key_def inv_AddRoundKey)
  also have "InvMixColumns (up ?u) = up (fips_ShiftRows (fips_SubBytes (fips_rounds w n s)))"
    by (simp add: InvMixColumns_up inv_MixColumns)
  finally show ?case using Suc.IH Suc.prems by simp
qed

lemma aes_decrypt_encrypt_1:
  assumes "aes_ok aes" and "length s = 16"
  shows "aes_decrypt_1 aes (aes_encrypt_1 aes (up s)) = up s"
proof -
  let ?n = "unat (rounds aes)" and ?w = "key aes"
  have n: "1 \<le> ?n" "?n \<le> 14" and w: "length ?w = 60" using aes_ok_rounds [OF assms(1)] assms(1) by (simp_all add: aes_ok_def)
  have len: "length (fips_rounds ?w (?n - 1) s) = 16" using n w assms(2) by simp
  have "aes_decrypt_1 aes (up (fips_Cipher ?n ?w s))
      = aes_decrypt_loop ?w (?n - 1) (4 * ?n) (up (fips_ShiftRows (fips_SubBytes (fips_rounds ?w (?n - 1) s))))"
    using n w len
    by (simp add: aes_decrypt_1_def Let_def fips_Cipher_def round_key_def AddRoundKey_up inv_AddRoundKey
        aes_ok_rounds(1) [OF assms(1)] mult.commute)
  also have "\<dots> = up s"
    using decrypt_loop_fips [OF assms(2), of "?n - 1" ?w] n w by simp
  finally show ?thesis by (simp add: aes_encrypt_1_fips [OF assms])
qed

section \<open>The key schedule\<close>

definition SubWord_fips :: "u32 \<Rightarrow> u32" where
  "SubWord_fips x = be_word (map (\<lambda>b. sbox ! unat b) (be_bytes 4 x))"

definition RotWord_fips :: "u32 \<Rightarrow> u32" where
  "RotWord_fips x = (case be_bytes 4 x of a # bs \<Rightarrow> be_word (bs @ [a]) | [] \<Rightarrow> 0)"

definition Rcon_fips :: "nat \<Rightarrow> u32" where
  "Rcon_fips i = push_bit 24 (ucast ((xtime ^^ (i - 1)) 1))"

function fips_w :: "bytes \<Rightarrow> nat \<Rightarrow> nat \<Rightarrow> u32" where
  "fips_w k Nk i =
     (if i < Nk \<or> Nk = 0 then be_word (take 4 (drop (4 * i) k))
      else fips_w k Nk (i - Nk) XOR
        (let temp = fips_w k Nk (i - 1)
         in if i mod Nk = 0 then SubWord_fips (RotWord_fips temp) XOR Rcon_fips (i div Nk)
            else if Nk > 6 \<and> i mod Nk = 4 then SubWord_fips temp
            else temp))"
  by pat_completeness auto
termination
  by (relation "measure (\<lambda>(k, Nk, i). i)") auto

declare fips_w.simps [simp del]

lemma Subword_fips: "Subword x = SubWord_fips x"
proof -
  obtain b0 b1 b2 b3 where b: "be_bytes 4 x = [b0, b1, b2, b3]"
    and u: "ucast b0 = drop_bit 24 x" "ucast b1 = drop_bit 16 x AND (255 :: u32)"
      "ucast b2 = drop_bit 8 x AND (255 :: u32)" "ucast b3 = x AND (255 :: u32)"
    by (rule word_bytesE)
  have be: "(be_word [a, b, c, d] :: u32) = push_bit 24 (ucast a) OR push_bit 16 (ucast b) OR push_bit 8 (ucast c) OR ucast d"
    for a b c d :: u8
    by (simp add: be_word_def push_bit_or push_bit_push_bit or.assoc [symmetric])
      (simp add: ac_simps)
  have "unat (drop_bit 24 x) = unat b0" "unat (drop_bit 16 x AND 255) = unat b1"
    "unat (drop_bit 8 x AND 255) = unat b2" "unat (x AND 255) = unat b3"
    by (simp_all flip: u)
  then show ?thesis by (simp add: Subword_def SubWord_fips_def b be)
qed

lemma RotWord_fips: "push_bit 8 x OR drop_bit 24 x = RotWord_fips x"
proof -
  have b: "be_bytes 4 x = [ucast (drop_bit 24 x), ucast (drop_bit 16 x), ucast (drop_bit 8 x), ucast x]"
    by (simp add: be_bytes_def le_bytes_def upt_rec)
  show ?thesis
    unfolding RotWord_fips_def b
    by (rule bit_word_eqI)
      (auto simp: be_word_def bit_le_word_Cons bit_simps simp del: le_word.simps dest: bit_imp_le_length)
qed

lemma Rcon_code:
  assumes "k < 10"
  shows "push_bit 24 (ucast (Rcon ! k)) = Rcon_fips (k + 1)"
proof -
  have "list_all (\<lambda>k. Rcon ! k = (xtime ^^ k) 1) [0..<10]" by code_simp
  then show ?thesis using assms by (simp add: list_all_iff Rcon_fips_def)
qed

text \<open>With the words so far in place, the loop appends the rest of the schedule.\<close>

lemma KeyExpansion_loop_fips:
  assumes "0 < Nk" and "i + n \<le> 11 * Nk"
  shows "Nk \<le> i \<Longrightarrow> j = i mod Nk \<Longrightarrow> c = i div Nk - 1 \<Longrightarrow>
    KeyExpansion_loop Nk n j c (map (fips_w k Nk) [0..<i]) = map (fips_w k Nk) [0..<i + n]"
  using assms(2)
proof (induction n arbitrary: i j c)
  case 0
  then show ?case by simp
next
  case (Suc n i j c)
  let ?rk = "map (fips_w k Nk) [0..<i]"
  have i: "0 < i" "i - 1 < i" "i - Nk < i" using Suc.prems assms(1) by auto
  have div: "1 \<le> i div Nk" using Suc.prems(1) assms(1) by (simp add: Suc_leI div_greater_zero_iff)
  have c: "c < 10"
  proof -
    have "i < 11 * Nk" using Suc.prems by simp
    then have "i div Nk < 11" by (simp add: less_mult_imp_div_less)
    then show ?thesis using Suc.prems(3) div by simp
  qed
  have last: "?rk ! (i - 1) = fips_w k Nk (i - 1)" "?rk ! (i - Nk) = fips_w k Nk (i - Nk)" using i by simp_all
  have new: "?rk ! (i - Nk) XOR (if j = 0
        then Subword (push_bit 8 (?rk ! (i - 1)) OR drop_bit 24 (?rk ! (i - 1))) XOR push_bit 24 (ucast (Rcon ! c))
        else if Nk > 6 \<and> j = 4 then Subword (?rk ! (i - 1)) else ?rk ! (i - 1)) = fips_w k Nk i"
    using Suc.prems assms(1) div Rcon_code [OF c]
    by (subst fips_w.simps [of k Nk i]) (simp add: last RotWord_fips Subword_fips Let_def)
  have rk: "?rk @ [fips_w k Nk i] = map (fips_w k Nk) [0..<Suc i]" by simp
  have step: "KeyExpansion_loop Nk (Suc n) j c ?rk =
      (if j + 1 = Nk then KeyExpansion_loop Nk n 0 (c + 1) (map (fips_w k Nk) [0..<Suc i])
       else KeyExpansion_loop Nk n (j + 1) c (map (fips_w k Nk) [0..<Suc i]))"
    unfolding KeyExpansion_loop.simps Let_def length_map length_upt diff_zero new rk by (rule refl)
  show ?case
  proof (cases "j + 1 = Nk")
    case True
    then have m: "Suc i mod Nk = 0" using Suc.prems(2) by (simp add: mod_Suc)
    then have "Suc i div Nk = Suc (i div Nk)" by (simp add: div_Suc)
    then have "KeyExpansion_loop Nk n 0 (c + 1) (map (fips_w k Nk) [0..<Suc i]) = map (fips_w k Nk) [0..<Suc i + n]"
      using Suc.prems div m by (intro Suc.IH) simp_all
    then show ?thesis using step True by simp
  next
    case False
    then have m: "Suc i mod Nk = j + 1" using Suc.prems(2) by (simp add: mod_Suc)
    then have "Suc i div Nk = i div Nk" by (simp add: div_Suc)
    then have "KeyExpansion_loop Nk n (j + 1) c (map (fips_w k Nk) [0..<Suc i]) = map (fips_w k Nk) [0..<Suc i + n]"
      using Suc.prems div m by (intro Suc.IH) simp_all
    then show ?thesis using step False by simp
  qed
qed

lemma KeyExpansion_fips:
  assumes "key_len \<in> {16, 24, 32}"
  shows "KeyExpansion k key_len =
    (map (fips_w k (key_len div 4)) [0..<28 + key_len], of_nat (6 + key_len div 4))"
proof -
  let ?Nk = "key_len div 4"
  have nk: "0 < ?Nk" "?Nk \<le> 28 + key_len" "28 + key_len \<le> 11 * ?Nk" using assms by auto
  have start: "map (\<lambda>i. be_word (take 4 (drop (4 * i) k))) [0..<?Nk] = map (fips_w k ?Nk) [0..<?Nk]"
    by (simp add: fips_w.simps)
  show ?thesis
    using KeyExpansion_loop_fips [of ?Nk ?Nk "28 + key_len - ?Nk" 0 0 k] nk
    by (simp add: KeyExpansion_def Let_def start)
qed

lemma fips_Cipher_prefix:
  assumes "length w = 4 * (Nr + 1)" and "0 < Nr"
  shows "fips_Cipher Nr (w @ rest) s = fips_Cipher Nr w s"
proof -
  have add: "fips_AddRoundKey (round_key (w @ rest) r) = fips_AddRoundKey (round_key w r)" if "r \<le> Nr" for r
  proof
    fix s show "fips_AddRoundKey (round_key (w @ rest) r) s = fips_AddRoundKey (round_key w r) s"
      using assms that by (simp add: fips_AddRoundKey_def round_key_def)
  qed
  have "r \<le> Nr \<Longrightarrow> fips_rounds (w @ rest) r s = fips_rounds w r s" for r
    by (induction r) (simp_all add: add)
  then show ?thesis by (simp add: fips_Cipher_def add)
qed

lemma ucast_down_up [simp]: "ucast (ucast (x :: u8) :: u32) = x"
  by (rule bit_word_eqI) (auto simp: bit_simps)

lemma down_up: "length b = 16 \<Longrightarrow> map (\<lambda>i. ucast (up b ! i)) [0..<16] = (b :: bytes)"
  by (rule nth_equalityI) simp_all

lemma load_up: "length b = 16 \<Longrightarrow> map (\<lambda>i. ucast (b ! i)) [0..<16] = up (b :: bytes)"
  by (rule nth_equalityI) simp_all

lemma length_fips_Cipher:
  assumes "aes_ok aes" and "length b = 16"
  shows "length (fips_Cipher (unat (rounds aes)) (key aes) b) = 16"
proof -
  have "4 * (unat (rounds aes) + 1) \<le> length (key aes)"
    using aes_ok_rounds [OF assms(1)] assms(1) by (simp add: aes_ok_def)
  then show ?thesis using assms(2) aes_ok_rounds [OF assms(1)]
    by (simp add: fips_Cipher_def round_key_def)
qed

lemma one_block_fips:
  assumes "aes_ok aes" and "length b = 16"
  shows "aes_encrypt_one_block aes b = fips_Cipher (unat (rounds aes)) (key aes) b"
  using length_fips_Cipher [OF assms]
  by (simp add: aes_encrypt_one_block_def Let_def load_up [OF assms(2)] aes_encrypt_1_fips [OF assms] down_up)

lemma aes_setkey_ok:
  assumes "key_len \<in> {16, 24, 32}" and "length (key aes) = 60"
  shows "aes_ok (aes_setkey aes k key_len)"
  using assms by (auto simp: aes_setkey_def KeyExpansion_fips aes_ok_def length_write_at)

text \<open>
  C10. \<^verbatim>\<open>aes_setkey\<close> and \<^verbatim>\<open>aes_encrypt_one_block\<close> are the key
  expansion and the cipher of FIPS 197 for keys of 128, 192 and 256 bits, whatever the context held.
\<close>

theorem aes_block_fips:
  assumes "key_len \<in> {16, 24, 32}" and "length (key aes) = 60" and "length b = 16"
  shows "aes_encrypt_one_block (aes_setkey aes k key_len) b =
    fips_Cipher (key_len div 4 + 6) (map (fips_w k (key_len div 4)) [0..<4 * (key_len div 4 + 7)]) b"
proof -
  let ?w = "map (fips_w k (key_len div 4)) [0..<28 + key_len]"
  have "aes_encrypt_one_block (aes_setkey aes k key_len) b =
      fips_Cipher (6 + key_len div 4) (?w @ drop (28 + key_len) (key aes)) b"
    using one_block_fips [OF aes_setkey_ok [OF assms(1,2), of k] assms(3)] assms(1)
    by (auto simp: aes_setkey_def KeyExpansion_fips write_at_def)
  moreover have "length ?w = 4 * (6 + key_len div 4 + 1)" "28 + key_len = 4 * (key_len div 4 + 7)"
    using assms(1) by auto
  ultimately show ?thesis by (simp add: fips_Cipher_prefix add.commute)
qed

theorem aes_block_fips_witness:
  "aes_encrypt_one_block (aes_setkey \<lparr>key = replicate 60 0, rounds = 0\<rparr> (replicate 32 7) 32) (replicate 16 1) =
    fips_Cipher 14 (map (fips_w (replicate 32 7) 8) [0..<60]) (replicate 16 1)"
  using aes_block_fips [of 32 "\<lparr>key = replicate 60 0, rounds = 0\<rparr>" "replicate 16 1" "replicate 32 7"] by simp

section \<open>Cipher block chaining over any block cipher\<close>

primrec cbc_blocks :: "(bytes \<Rightarrow> bytes) \<Rightarrow> bytes \<Rightarrow> bytes list \<Rightarrow> bytes list" where
  "cbc_blocks E iv [] = []"
| "cbc_blocks E iv (b # bs) = (let c = E (map2 (XOR) b iv) in c # cbc_blocks E c bs)"

primrec cbc_unblocks :: "(bytes \<Rightarrow> bytes) \<Rightarrow> bytes \<Rightarrow> bytes list \<Rightarrow> bytes list" where
  "cbc_unblocks D iv [] = []"
| "cbc_unblocks D iv (c # cs) = map2 (XOR) (D c) iv # cbc_unblocks D c cs"

text \<open>What the chaining needs of the block cipher, for keys that are \<open>ok\<close>.\<close>

locale block_cipher =
  fixes ok :: "'k \<Rightarrow> bool"
    and enc :: "'k \<Rightarrow> bytes \<Rightarrow> bytes"
    and dec :: "'k \<Rightarrow> bytes \<Rightarrow> bytes"
  assumes length_enc: "ok k \<Longrightarrow> length b = 16 \<Longrightarrow> length (enc k b) = 16"
    and dec_enc: "ok k \<Longrightarrow> length b = 16 \<Longrightarrow> dec k (enc k b) = b"
begin

lemma xor_twice: "length a = length b \<Longrightarrow> map2 (XOR) (map2 (XOR) a b) b = (a :: bytes)"
  by (induction a b rule: list_induct2) (simp_all add: xor.assoc)

lemma cbc_lengths:
  "ok k \<Longrightarrow> length iv = 16 \<Longrightarrow> \<forall>b \<in> set bs. length b = 16 \<Longrightarrow> \<forall>c \<in> set (cbc_blocks (enc k) iv bs). length c = 16"
proof (induction bs arbitrary: iv)
  case (Cons b bs)
  have "length (enc k (map2 (XOR) b iv)) = 16" using Cons.prems by (intro length_enc) simp_all
  moreover from this have "\<forall>c \<in> set (cbc_blocks (enc k) (enc k (map2 (XOR) b iv)) bs). length c = 16"
    using Cons.prems by (intro Cons.IH) simp_all
  ultimately show ?case by (simp add: Let_def)
qed simp

lemma cbc_roundtrip:
  "ok k \<Longrightarrow> length iv = 16 \<Longrightarrow> \<forall>b \<in> set bs. length b = 16 \<Longrightarrow>
    cbc_unblocks (dec k) iv (cbc_blocks (enc k) iv bs) = bs"
  by (induction bs arbitrary: iv) (simp_all add: Let_def length_enc dec_enc xor_twice)

end

interpretation aes_cipher: block_cipher aes_ok aes_encrypt_one_block aes_decrypt_one_block
proof unfold_locales
  fix aes :: tls_aes and b :: bytes
  assume ok: "aes_ok aes" and b: "length b = 16"
  show "length (aes_encrypt_one_block aes b) = 16" by (simp add: aes_encrypt_one_block_def Let_def)
  have "up (aes_encrypt_one_block aes b) = aes_encrypt_1 aes (up b)"
    by (simp add: one_block_fips [OF ok b] aes_encrypt_1_fips [OF ok b])
  then show "aes_decrypt_one_block aes (aes_encrypt_one_block aes b) = b"
    using length_fips_Cipher [OF ok b] b
    by (simp add: aes_decrypt_one_block_def Let_def load_up one_block_fips [OF ok b]
        aes_encrypt_1_fips [OF ok b, symmetric] aes_decrypt_encrypt_1 [OF ok b] down_up)
qed

text \<open>The CBC loops do exactly this, block by block, and stop only at whole blocks.\<close>

lemma cbc_encrypt_blocks:
  assumes "aes_ok aes"
  shows "length iv = 16 \<Longrightarrow> aes_cbc_encrypt aes iv data =
    (if 16 dvd length data then Some (concat (cbc_blocks (aes_encrypt_one_block aes) iv (full_blocks 16 data))) else None)"
proof (induction "length data" arbitrary: iv data rule: less_induct)
  case less
  consider "data = []" | "0 < length data \<and> length data < 16" | "16 \<le> length data" by fastforce
  then show ?case
  proof cases
    case 1
    then show ?thesis by (simp add: aes_cbc_encrypt.simps)
  next
    case 2
    then have "\<not> 16 dvd length data" by (auto dest: dvd_imp_le)
    then show ?thesis using 2 by (simp add: aes_cbc_encrypt.simps [of aes iv data])
  next
    case 3
    let ?b = "map2 (XOR) (take 16 data) iv"
    let ?c = "aes_encrypt_one_block aes ?b"
    have b: "length ?b = 16" using 3 less.prems by simp
    then have c: "length ?c = 16" using assms by (rule aes_cipher.length_enc [rotated])
    have load: "map (\<lambda>i. ucast (data ! i XOR iv ! i)) [0..<16] = up ?b"
      using 3 less.prems by (intro nth_equalityI) simp_all
    have "map (\<lambda>i. ucast (aes_encrypt_1 aes (up ?b) ! i)) [0..<16] = ?c"
      by (simp add: aes_encrypt_one_block_def load_up [OF b] Let_def)
    then have step: "aes_cbc_encrypt aes iv data = map_option ((@) ?c) (aes_cbc_encrypt aes ?c (drop 16 data))"
      using 3 by (subst aes_cbc_encrypt.simps) (auto simp: Let_def load)
    have blocks: "full_blocks 16 data = take 16 data # full_blocks 16 (drop 16 data)"
      using 3 full_blocks_Cons [of 16 "take 16 data" "drop 16 data"] by simp
    have dv: "16 dvd length data - 16 \<longleftrightarrow> 16 dvd length data"
      using 3 dvd_minus_self [of 16 "length data"] by auto
    show ?thesis
      using less.hyps [of "drop 16 data" ?c] 3 c by (simp add: step blocks dv Let_def)
  qed
qed

lemma cbc_decrypt_blocks:
  assumes "aes_ok aes"
  shows "length iv = 16 \<Longrightarrow> aes_cbc_decrypt aes iv data =
    (if 16 dvd length data then Some (concat (cbc_unblocks (aes_decrypt_one_block aes) iv (full_blocks 16 data))) else None)"
proof (induction "length data" arbitrary: iv data rule: less_induct)
  case less
  consider "data = []" | "0 < length data \<and> length data < 16" | "16 \<le> length data" by fastforce
  then show ?case
  proof cases
    case 1
    then show ?thesis by (simp add: aes_cbc_decrypt.simps)
  next
    case 2
    then have "\<not> 16 dvd length data" by (auto dest: dvd_imp_le)
    then show ?thesis using 2 by (simp add: aes_cbc_decrypt.simps [of aes iv data])
  next
    case 3
    let ?c = "take 16 data"
    let ?p = "map2 (XOR) (aes_decrypt_one_block aes ?c) iv"
    have c: "length ?c = 16" using 3 by simp
    have load: "map (\<lambda>i. ucast (data ! i)) [0..<16] = up ?c"
      using 3 by (intro nth_equalityI) simp_all
    have "map (\<lambda>i. ucast (aes_decrypt_1 aes (up ?c) ! i) XOR iv ! i) [0..<16] = ?p"
      using less.prems by (intro nth_equalityI) (simp_all add: aes_decrypt_one_block_def load_up [OF c] Let_def)
    then have step: "aes_cbc_decrypt aes iv data = map_option ((@) ?p) (aes_cbc_decrypt aes ?c (drop 16 data))"
      using 3 by (subst aes_cbc_decrypt.simps) (auto simp: Let_def load)
    have blocks: "full_blocks 16 data = ?c # full_blocks 16 (drop 16 data)"
      using 3 full_blocks_Cons [of 16 ?c "drop 16 data"] by simp
    have dv: "16 dvd length data - 16 \<longleftrightarrow> 16 dvd length data"
      using 3 dvd_minus_self [of 16 "length data"] by auto
    show ?thesis
      using less.hyps [of "drop 16 data" ?c] 3 c by (simp add: step blocks dv)
  qed
qed

lemma full_blocks_concat:
  "\<forall>b \<in> set bs. length b = B \<Longrightarrow> 0 < B \<Longrightarrow> full_blocks B (concat bs) = bs \<and> B dvd length (concat bs)"
  by (induction bs) (simp_all add: full_blocks_Cons)

text \<open>
  C11. CBC: for data of whole blocks the encryption returns, and decrypting its result with the
  same key schedule and the same IV gives the data back.
\<close>

theorem aes_cbc_roundtrip:
  assumes "aes_ok aes" and "length iv = 16" and "16 dvd length data"
  shows "\<exists>ct. aes_cbc_encrypt aes iv data = Some ct \<and> length ct = length data
    \<and> aes_cbc_decrypt aes iv ct = Some data"
proof -
  let ?bs = "full_blocks 16 data"
  let ?cs = "cbc_blocks (aes_encrypt_one_block aes) iv ?bs"
  have bs: "\<forall>b \<in> set ?bs. length b = 16" by (blast dest: full_blocks_lengths)
  have "length (rest_bytes 16 data) = 0" using assms(3) by (simp add: length_rest_bytes)
  then have data: "concat ?bs = data" using concat_full_blocks [of 16 data] by simp
  have cs: "\<forall>c \<in> set ?cs. length c = 16" using aes_cipher.cbc_lengths [OF assms(1,2) bs] .
  have "length ?cs = length ?bs"
  proof -
    have "length (cbc_blocks E v xs) = length xs" for E v xs by (induction xs arbitrary: v) (simp_all add: Let_def)
    then show ?thesis .
  qed
  moreover have "\<forall>b \<in> set xs. length b = 16 \<Longrightarrow> length (concat xs) = 16 * length xs" for xs :: "bytes list"
    by (induction xs) simp_all
  ultimately have "length (concat ?cs) = length (concat ?bs)" using cs bs by metis
  then show ?thesis
    using full_blocks_concat [OF cs] aes_cipher.cbc_roundtrip [OF assms(1,2) bs] data
    by (simp add: cbc_encrypt_blocks [OF assms(1,2)] cbc_decrypt_blocks [OF assms(1,2)] assms(3))
qed

theorem aes_cbc_roundtrip_witness:
  "\<exists>ct. aes_cbc_encrypt (aes_setkey \<lparr>key = replicate 60 0, rounds = 0\<rparr> (replicate 16 2) 16) (replicate 16 9) (replicate 48 1) = Some ct
    \<and> length ct = 48
    \<and> aes_cbc_decrypt (aes_setkey \<lparr>key = replicate 60 0, rounds = 0\<rparr> (replicate 16 2) 16) (replicate 16 9) ct = Some (replicate 48 1)"
  using aes_cbc_roundtrip [OF aes_setkey_ok [of 16 "\<lparr>key = replicate 60 0, rounds = 0\<rparr>" "replicate 16 2"],
      of "replicate 16 9" "replicate 48 1"] by simp

end
