(* ===== verification/Aes_Gcm.thy ===== *)
theory Aes_Gcm
  imports Prelude
begin

text \<open>
  The authentication of AES-GCM in \<^verbatim>\<open>networking/tls_aesgcm.c\<close>: the shift of a
  16-byte block (the byte loop and the word versions of either byte order and word size), the
  multiplication in GF(2^128) and GHASH. Blocks are lists of 16 bytes; the first byte is the most
  significant. They are compared with the 128-bit formulation of NIST SP 800-38D.
\<close>

section \<open>The shift\<close>

text \<open>The generic loop over bytes.\<close>

definition RIGHTSHIFTX_byte :: "bytes \<times> u8 \<Rightarrow> nat \<Rightarrow> bytes \<times> u8" where
  "RIGHTSHIFTX_byte = (\<lambda>(x, carryIn) i.
     let carryOut = push_bit 7 (x ! i)
     in (x[i := drop_bit 1 (x ! i) XOR carryIn], carryOut))"

definition RIGHTSHIFTX_bytes :: "bytes \<Rightarrow> bytes" where
  "RIGHTSHIFTX_bytes x =
     (let carryIn = (if x ! 15 AND 0x01 \<noteq> 0 then 0xE1 else 0)
      in fst (foldl RIGHTSHIFTX_byte (x, carryIn) [0..<16]))"

text \<open>The words of the block in the two byte orders, and storing one back.\<close>

definition load_be :: "nat \<Rightarrow> bytes \<Rightarrow> nat \<Rightarrow> 'a::len word" where
  "load_be k x i = be_word (take k (drop (k * i) x))"

definition load_le :: "nat \<Rightarrow> bytes \<Rightarrow> nat \<Rightarrow> 'a::len word" where
  "load_le k x i = le_word (take k (drop (k * i) x))"

text \<open>Big endian, \<^verbatim>\<open>long\<close> of 32 bits and of 64.\<close>

definition RIGHTSHIFTX_be32_word :: "bytes \<times> u32 \<Rightarrow> nat \<Rightarrow> bytes \<times> u32" where
  "RIGHTSHIFTX_be32_word = (\<lambda>(x, carryIn) i.
     let li = load_be 4 x i :: u32;
         carryOut = push_bit 31 li
     in (write_at (4 * i) (be_bytes 4 (drop_bit 1 li XOR carryIn)) x, carryOut))"

definition RIGHTSHIFTX_be32 :: "bytes \<Rightarrow> bytes" where
  "RIGHTSHIFTX_be32 x =
     (let carryIn = (if x ! 15 AND 0x01 \<noteq> 0 then push_bit (32 - 8) 0xE1 else 0)
      in fst (foldl RIGHTSHIFTX_be32_word (x, carryIn) [0..<4]))"

definition RIGHTSHIFTX_be64 :: "bytes \<Rightarrow> bytes" where
  "RIGHTSHIFTX_be64 x =
     (let carryIn = (if x ! 15 AND 0x01 \<noteq> 0 then push_bit (64 - 8) 0xE1 else 0);
          l0 = load_be 8 x 0 :: u64;
          carryOut = push_bit 63 l0;
          x = write_at 0 (be_bytes 8 (drop_bit 1 l0 XOR carryIn)) x;
          l1 = load_be 8 x 1 :: u64
      in write_at 8 (be_bytes 8 (drop_bit 1 l1 XOR carryOut)) x)"

text \<open>Little endian: every word is swapped after loading and before storing.\<close>

definition RIGHTSHIFTX_le32_word :: "bytes \<times> u32 \<Rightarrow> nat \<Rightarrow> bytes \<times> u32" where
  "RIGHTSHIFTX_le32_word = (\<lambda>(x, carryIn) i.
     let ti = bswap (load_le 4 x i :: u32);
         carryOut = push_bit 31 ti;
         ti = drop_bit 1 ti XOR carryIn
     in (write_at (4 * i) (le_bytes 4 (bswap ti)) x, carryOut))"

definition RIGHTSHIFTX_le32 :: "bytes \<Rightarrow> bytes" where
  "RIGHTSHIFTX_le32 x =
     (let carryIn = (if x ! 15 AND 0x01 \<noteq> 0 then push_bit (32 - 8) 0xE1 else 0)
      in fst (foldl RIGHTSHIFTX_le32_word (x, carryIn) [0..<4]))"

definition RIGHTSHIFTX_le64 :: "bytes \<Rightarrow> bytes" where
  "RIGHTSHIFTX_le64 x =
     (let carryIn = (if x ! 15 AND 0x01 \<noteq> 0 then push_bit (64 - 8) 0xE1 else 0);
          tt = bswap (load_le 8 x 0 :: u64);
          carryOut = push_bit 63 tt;
          tt = drop_bit 1 tt XOR carryIn;
          x = write_at 0 (le_bytes 8 (bswap tt)) x;
          tt = bswap (load_le 8 x 1 :: u64);
          tt = drop_bit 1 tt XOR carryOut
      in write_at 8 (le_bytes 8 (bswap tt)) x)"

text \<open>The one the configured target (little endian, 64 bits) compiles.\<close>

abbreviation RIGHTSHIFTX :: "bytes \<Rightarrow> bytes" where
  "RIGHTSHIFTX \<equiv> RIGHTSHIFTX_le64"

section \<open>Multiplication and GHASH\<close>

definition xorbuf :: "bytes \<Rightarrow> bytes \<Rightarrow> nat \<Rightarrow> bytes" where
  "xorbuf dst src count = map2 (XOR) (take count dst) (take count src) @ drop count dst"

text \<open>
  The loop over the bits of one byte; it ends when the marker bit that started at position 23 has
  reached the sign bit.
\<close>

partial_function (option) GMULT_bits :: "u32 \<Rightarrow> bytes \<Rightarrow> bytes \<Rightarrow> (bytes \<times> bytes) option" where
  "GMULT_bits y Z X =
     (let Z = (if y AND 0x80 \<noteq> 0 then xorbuf Z X 16 else Z);
          X = RIGHTSHIFTX X;
          y = push_bit 1 y
      in if sint y < 0 then Some (Z, X) else GMULT_bits y Z X)"

fun GMULT_bytes :: "bytes \<Rightarrow> bytes \<Rightarrow> bytes \<Rightarrow> (bytes \<times> bytes) option" where
  "GMULT_bytes [] Z X = Some (Z, X)"
| "GMULT_bytes (b # Y) Z X =
     (case GMULT_bits (0x800000 OR ucast b) Z X of
        None \<Rightarrow> None
      | Some (Z, X) \<Rightarrow> GMULT_bytes Y Z X)"

definition GMULT :: "bytes \<Rightarrow> bytes \<Rightarrow> bytes option" where
  "GMULT X Y = map_option fst (GMULT_bytes (take 16 Y) (replicate 16 0) X)"

text \<open>The loop over the whole blocks of the ciphertext, then the partial one.\<close>

fun GHASH_blocks :: "bytes \<Rightarrow> nat \<Rightarrow> bytes \<Rightarrow> bytes \<Rightarrow> (bytes \<times> bytes) option" where
  "GHASH_blocks h 0 c x = Some (c, x)"
| "GHASH_blocks h (Suc blocks) c x =
     (case GMULT (xorbuf x c 16) h of
        None \<Rightarrow> None
      | Some x \<Rightarrow> GHASH_blocks h blocks (drop 16 c) x)"

definition GHASH_cipher :: "bytes \<Rightarrow> bytes \<Rightarrow> nat \<Rightarrow> bytes \<Rightarrow> bytes option" where
  "GHASH_cipher h c cSz x =
     (if cSz \<noteq> 0
      then let blocks = cSz div 16; partial = cSz mod 16
           in case GHASH_blocks h blocks c x of
                None \<Rightarrow> None
              | Some (c, x) \<Rightarrow> if partial \<noteq> 0 then GMULT (xorbuf x c partial) h else Some x
      else Some x)"

text \<open>
  \<^verbatim>\<open>aSz\<close> is 13; \<open>a\<close> has three zero bytes behind. The two bit counts are XORed into the
  second and the fourth 32-bit word; a length counts as 32 bits.
\<close>

definition aesgcm_GHASH :: "bytes \<Rightarrow> bytes \<Rightarrow> bytes \<Rightarrow> bytes option" where
  "aesgcm_GHASH h a c =
     (case GMULT (take 16 a) h of
        None \<Rightarrow> None
      | Some x \<Rightarrow>
     (case GHASH_cipher h c (length c) x of
        None \<Rightarrow> None
      | Some x \<Rightarrow>
         (let x = write_at 4 (le_bytes 4 ((load_le 4 x 1 :: u32) XOR bswap (13 * 8))) x;
              x = write_at 12 (le_bytes 4 ((load_le 4 x 3 :: u32) XOR bswap (of_nat (length c) * 8))) x
          in GMULT x h)))"

section \<open>The shift is a shift of 128 bits\<close>

abbreviation be128 :: "bytes \<Rightarrow> 128 word" where
  "be128 \<equiv> be_word"

definition gcm_R :: "128 word" where
  "gcm_R = push_bit 120 0xE1"

definition gshift :: "128 word \<Rightarrow> 128 word" where
  "gshift V = drop_bit 1 V XOR (if bit V 0 then gcm_R else 0)"

lemma bit_push_byte:
  "bit (push_bit k (ucast (b :: u8)) :: 'a::len word) n \<longleftrightarrow> n < LENGTH('a) \<and> k \<le> n \<and> bit b (n - k)"
  by (auto simp: bit_simps)

lemma bit_gcm_R: "bit gcm_R i \<longleftrightarrow> i < 128 \<and> 120 \<le> i \<and> bit (0xE1 :: u8) (i - 120)"
  using bit_push_byte [of 120 "0xE1" i, where ?'a = 128] by (simp add: gcm_R_def)

lemma bit_be128: "length x = 16 \<Longrightarrow> bit (be128 x) i \<longleftrightarrow> i < 128 \<and> bit (x ! (15 - i div 8)) (i mod 8)"
proof -
  assume len: "length x = 16"
  have "i < 128 \<Longrightarrow> rev x ! (i div 8) = x ! (15 - i div 8)"
    using len by (simp add: rev_nth div_less_iff_less_mult)
  then show ?thesis using len by (auto simp: be_word_def bit_le_word_iff)
qed

lemma be128_inject: "length x = 16 \<Longrightarrow> length y = 16 \<Longrightarrow> be128 x = be128 y \<Longrightarrow> x = y"
proof -
  assume len: "length x = 16" "length y = 16" and eq: "be128 x = be128 y"
  have "le_bytes (length (rev x)) (le_word (rev x) :: 128 word) = le_bytes (length (rev y)) (le_word (rev y) :: 128 word)"
    using eq len by (simp add: be_word_def)
  then show "x = y" using len le_bytes_le_word [of "rev x", where ?'a = 128] le_bytes_le_word [of "rev y", where ?'a = 128]
    by simp
qed

lemma last_bit: "x AND 1 \<noteq> 0 \<longleftrightarrow> bit x 0" for x :: u8
  by (simp add: and_one_eq even_iff_mod_2_eq_zero bit_0)

text \<open>The byte loop.\<close>

lemma RIGHTSHIFTX_byte_steps:
  assumes "n \<le> length x"
  shows "foldl RIGHTSHIFTX_byte (x, c) [0..<n] =
    (map (\<lambda>i. drop_bit 1 (x ! i) XOR (if i = 0 then c else push_bit 7 (x ! (i - 1)))) [0..<n] @ drop n x,
     if n = 0 then c else push_bit 7 (x ! (n - 1)))"
  using assms
proof (induction n)
  case 0
  then show ?case by simp
next
  case (Suc n)
  then have "drop n x = x ! n # drop (Suc n) x" by (simp add: Cons_nth_drop_Suc)
  then show ?case using Suc by (simp add: RIGHTSHIFTX_byte_def nth_append list_update_append Let_def)
qed

lemma RIGHTSHIFTX_bytes_shift:
  assumes len: "length x = 16"
  shows "be128 (RIGHTSHIFTX_bytes x) = gshift (be128 x)" and "length (RIGHTSHIFTX_bytes x) = 16"
proof -
  let ?c = "if bit (x ! 15) 0 then 0xE1 else 0 :: u8"
  have r: "RIGHTSHIFTX_bytes x = map (\<lambda>i. drop_bit 1 (x ! i) XOR (if i = 0 then ?c else push_bit 7 (x ! (i - 1)))) [0..<16]"
    using len by (simp add: RIGHTSHIFTX_bytes_def RIGHTSHIFTX_byte_steps last_bit)
  then show len': "length (RIGHTSHIFTX_bytes x) = 16" by simp
  show "be128 (RIGHTSHIFTX_bytes x) = gshift (be128 x)"
  proof (rule bit_word_eqI)
    fix i assume "i < LENGTH(128)"
    then have i: "i < 128" by simp
    define k j where "k = i div 8" and "j = i mod 8"
    have k: "k < 16" and j: "j < 8" and ij: "i = 8 * k + j" using i by (simp_all add: k_def j_def div_less_iff_less_mult)
    have "bit (be128 (RIGHTSHIFTX_bytes x)) i = bit (RIGHTSHIFTX_bytes x ! (15 - k)) j"
      using i by (simp add: bit_be128 [OF len'] k_def j_def)
    also have "\<dots> = (bit (x ! (15 - k)) (Suc j) \<noteq> (if k = 15 then bit ?c j else j = 7 \<and> bit (x ! (14 - k)) 0))"
      using k j by (auto simp: r bit_simps)
    also have "\<dots> = bit (gshift (be128 x)) i"
    proof -
      have low: "bit (be128 x) 0 \<longleftrightarrow> bit (x ! 15) 0" by (simp add: bit_be128 [OF len])
      have nxt: "bit (be128 x) (Suc i) \<longleftrightarrow> (if j < 7 then bit (x ! (15 - k)) (Suc j) else k < 15 \<and> bit (x ! (14 - k)) 0)"
      proof (cases "j < 7")
        case True
        then have "Suc i div 8 = k" "Suc i mod 8 = Suc j" "Suc i < 128" using k unfolding ij by simp_all
        then show ?thesis using True by (simp add: bit_be128 [OF len])
      next
        case False
        then have "Suc i = 8 * Suc k" using j unfolding ij by simp
        then have "Suc i div 8 = Suc k" "Suc i mod 8 = 0" "Suc i < 128 \<longleftrightarrow> k < 15" by simp_all
        then show ?thesis using False by (simp add: bit_be128 [OF len])
      qed
      have big: "\<not> bit (x ! (15 - k)) 8" using bit_imp_le_length [of "x ! (15 - k)" 8] by auto
      have top: "120 \<le> i \<longleftrightarrow> k = 15" "k = 15 \<Longrightarrow> i - 120 = j" using k j unfolding ij by auto
      show ?thesis
        using j i k nxt low big top
        by (cases "j = 7") (auto simp: gshift_def bit_gcm_R bit_simps less_Suc_eq_le)
    qed
    finally show "bit (be128 (RIGHTSHIFTX_bytes x)) i = bit (gshift (be128 x)) i" .
  qed
qed

text \<open>The word versions: the little endian ones handle the same values as the big endian ones.\<close>

lemma load_swap:
  "length x = 16 \<Longrightarrow> i < 4 \<Longrightarrow> bswap (load_le 4 x i :: u32) = load_be 4 x i"
  "length x = 16 \<Longrightarrow> i < 2 \<Longrightarrow> bswap (load_le 8 x i :: u64) = load_be 8 x i"
  by (simp_all add: load_le_def load_be_def bswap_le_word)

lemma store_swap: "le_bytes 4 (bswap (w :: u32)) = be_bytes 4 w" "le_bytes 8 (bswap (v :: u64)) = be_bytes 8 v"
  by (simp_all add: le_bytes_bswap)

lemma RIGHTSHIFTX_le64_be64: "length x = 16 \<Longrightarrow> RIGHTSHIFTX_le64 x = RIGHTSHIFTX_be64 x"
  by (simp add: RIGHTSHIFTX_le64_def RIGHTSHIFTX_be64_def Let_def load_swap store_swap length_write_at)

lemma RIGHTSHIFTX_le32_be32:
  assumes "length x = 16"
  shows "RIGHTSHIFTX_le32 x = RIGHTSHIFTX_be32 x"
proof -
  have "\<forall>i \<in> set is. i < 4 \<Longrightarrow> length y = 16 \<Longrightarrow>
      foldl RIGHTSHIFTX_le32_word (y, c) is = foldl RIGHTSHIFTX_be32_word (y, c) is" for "is" y c
  proof (induction "is" arbitrary: y c)
    case (Cons i "is")
    then have "length (write_at (4 * i) (be_bytes 4 w) y) = 16" for w :: u32
      by (simp add: length_write_at)
    then show ?case
      using Cons by (simp add: RIGHTSHIFTX_le32_word_def RIGHTSHIFTX_be32_word_def Let_def load_swap store_swap)
  qed simp
  then show ?thesis using assms by (simp add: RIGHTSHIFTX_le32_def RIGHTSHIFTX_be32_def Let_def)
qed

lemma RIGHTSHIFTX_be64_shift:
  assumes len: "length x = 16"
  shows "be128 (RIGHTSHIFTX_be64 x) = gshift (be128 x)" and "length (RIGHTSHIFTX_be64 x) = 16"
proof -
  define a b where "a = take 8 x" and "b = drop 8 x"
  have x: "x = a @ b" and ab: "length a = 8" "length b = 8" using len by (simp_all add: a_def b_def)
  define l0 l1 :: u64 where "l0 = be_word a" and "l1 = be_word b"
  define c :: u64 where "c = (if bit (x ! 15) 0 then push_bit 56 (ucast (0xE1 :: u8)) else 0)"
  have r: "RIGHTSHIFTX_be64 x = be_bytes 8 (drop_bit 1 l0 XOR c) @ be_bytes 8 (drop_bit 1 l1 XOR push_bit 63 l0)"
  proof -
    have cin: "(if x ! 15 AND 0x01 \<noteq> 0 then push_bit (64 - 8) 0xE1 else 0) = c"
      unfolding last_bit c_def by simp
    have l0: "(load_be 8 x 0 :: u64) = l0" using ab by (simp add: load_be_def x l0_def)
    have w0: "write_at 0 (be_bytes 8 w) x = be_bytes 8 w @ b" for w :: u64
      using ab by (simp add: write_at_def x)
    have l1: "(load_be 8 (be_bytes 8 w @ b) 1 :: u64) = l1" for w :: u64
      using ab by (simp add: load_be_def l1_def)
    have w1: "write_at 8 (be_bytes 8 v) (be_bytes 8 w @ b) = be_bytes 8 w @ be_bytes 8 v" for v w :: u64
      using ab by (simp add: write_at_def)
    show ?thesis unfolding RIGHTSHIFTX_be64_def Let_def cin l0 w0 l1 w1 by (rule refl)
  qed
  then show "length (RIGHTSHIFTX_be64 x) = 16" by simp
  have v: "be128 x = push_bit 64 (ucast l0) OR ucast l1"
  proof -
    have "be128 a = ucast l0" "be128 b = ucast l1"
      using ab unfolding l0_def l1_def by (intro be_word_ucast; simp)+
    then show ?thesis using ab by (simp add: x be_word_append)
  qed
  have low: "bit (x ! 15) 0 \<longleftrightarrow> bit (be128 x) 0" by (simp add: bit_be128 [OF len])
  have bl: "bit l0 n \<Longrightarrow> n < 64" "bit l1 n \<Longrightarrow> n < 64" for n
    using bit_imp_le_length [of l0 n] bit_imp_le_length [of l1 n] by auto
  have bc: "bit c n \<longleftrightarrow> bit (be128 x) 0 \<and> 56 \<le> n \<and> n < 64 \<and> bit (0xE1 :: u8) (n - 56)" for n
    using bit_push_byte [of 56 "0xE1" n, where ?'a = 64] by (auto simp: c_def low)
  show "be128 (RIGHTSHIFTX_be64 x) = gshift (be128 x)"
  proof (rule bit_word_eqI)
    fix i assume "i < LENGTH(128)"
    then have i: "i < 128" by simp
    have hb: "\<not> i < 64 \<Longrightarrow> \<not> bit l1 (Suc i)" using bl(2) [of "Suc i"] by auto
    have "bit (be128 (RIGHTSHIFTX_be64 x)) i = (if i < 64 then bit l1 (Suc i) \<noteq> (i = 63 \<and> bit l0 0)
        else bit l0 (Suc (i - 64)) \<noteq> bit c (i - 64))"
      using i bl hb by (auto simp: r be_word_append be_word_be_bytes_ucast bit_simps bc)
    also have "\<dots> = bit (gshift (be128 x)) i"
    proof -
      have V: "bit (be128 x) n \<longleftrightarrow> (if n < 64 then bit l1 n else n < 128 \<and> bit l0 (n - 64))" for n
        unfolding v using bl(2) [of n] by (auto simp: bit_simps)
      consider "i < 63" | "i = 63" | "64 \<le> i \<and> i < 127" | "i = 127" using i by linarith
      then show ?thesis
      proof cases
        case 3
        then obtain m where m: "i = m + 64" "m < 63" by (intro that [of "i - 64"]) auto
        then show ?thesis by (auto simp: gshift_def bit_gcm_R bit_simps bc V)
      next
        case 4
        have "\<not> bit l0 64" using bl(1) by blast
        with 4 show ?thesis by (simp add: gshift_def bit_gcm_R bit_simps bc V)
      qed (use bl(2) [of 64] in \<open>auto simp: gshift_def bit_gcm_R bit_simps bc V\<close>)
    qed
    finally show "bit (be128 (RIGHTSHIFTX_be64 x)) i = bit (gshift (be128 x)) i" .
  qed
qed

lemma four_words_bits:
  fixes w0 w1 w2 w3 :: u32
  shows "bit (push_bit 96 (ucast w0) OR push_bit 64 (ucast w1) OR push_bit 32 (ucast w2) OR ucast w3 :: 128 word) n
    \<longleftrightarrow> (if n < 32 then bit w3 n else if n < 64 then bit w2 (n - 32) else if n < 96 then bit w1 (n - 64)
         else n < 128 \<and> bit w0 (n - 96))"
proof -
  have "bit w n \<Longrightarrow> n < 32" for w :: u32 and n using bit_imp_le_length [of w n] by simp
  from this [of w3 n] this [of w2 "n - 32"] this [of w1 "n - 64"] this [of w0 "n - 96"]
  show ?thesis by (auto simp: bit_simps)
qed

lemma be128_four_words:
  fixes w0 w1 w2 w3 :: u32
  shows "be128 (be_bytes 4 w0 @ be_bytes 4 w1 @ be_bytes 4 w2 @ be_bytes 4 w3) =
    push_bit 96 (ucast w0) OR push_bit 64 (ucast w1) OR push_bit 32 (ucast w2) OR ucast w3"
proof -
  have w: "be128 (be_bytes 4 w) = ucast w" for w :: u32
    by (rule be_word_be_bytes_ucast) simp_all
  show ?thesis
    by (simp add: be_word_append w push_bit_or or.assoc)
qed

lemma gshift_words:
  fixes w0 w1 w2 w3 :: u32
  defines "V \<equiv> push_bit 96 (ucast w0) OR push_bit 64 (ucast w1) OR push_bit 32 (ucast w2) OR ucast w3 :: 128 word"
    and "c \<equiv> (if bit w3 0 then push_bit 24 (ucast (0xE1 :: u8)) else 0) :: u32"
  shows "push_bit 96 (ucast (drop_bit 1 w0 XOR c)) OR push_bit 64 (ucast (drop_bit 1 w1 XOR push_bit 31 w0))
    OR push_bit 32 (ucast (drop_bit 1 w2 XOR push_bit 31 w1)) OR ucast (drop_bit 1 w3 XOR push_bit 31 w2) = gshift V"
proof (rule bit_word_eqI)
  fix i assume "i < LENGTH(128)"
  then have i: "i < 128" by simp
  have out: "\<not> bit w (32 + n)" "\<not> bit w 32" "\<not> bit w (33 + n)" for w :: u32 and n
    using bit_imp_le_length [of w "32 + n"] bit_imp_le_length [of w 32] bit_imp_le_length [of w "33 + n"] by auto
  have bc: "bit c n \<longleftrightarrow> bit w3 0 \<and> n < 32 \<and> 24 \<le> n \<and> bit (0xE1 :: u8) (n - 24)" for n
    using bit_push_byte [of 24 "0xE1" n, where ?'a = 32] by (auto simp: c_def)
  have V: "bit V n \<longleftrightarrow> (if n < 32 then bit w3 n else if n < 64 then bit w2 (n - 32) else if n < 96 then bit w1 (n - 64)
         else n < 128 \<and> bit w0 (n - 96))" for n
    unfolding V_def by (rule four_words_bits)
  consider "i < 31" | "i = 31" | "31 < i \<and> i < 63" | "i = 63" | "63 < i \<and> i < 95" | "i = 95" | "95 < i \<and> i < 127" | "i = 127"
    using i by linarith
  then show "bit (push_bit 96 (ucast (drop_bit 1 w0 XOR c)) OR push_bit 64 (ucast (drop_bit 1 w1 XOR push_bit 31 w0))
    OR push_bit 32 (ucast (drop_bit 1 w2 XOR push_bit 31 w1)) OR ucast (drop_bit 1 w3 XOR push_bit 31 w2) :: 128 word) i
    = bit (gshift V) i"
  proof cases
    case 3
    then obtain m where "i = m + 32" "m < 31" by (intro that [of "i - 32"]) auto
    then show ?thesis unfolding four_words_bits by (auto simp: gshift_def bit_gcm_R bit_simps V bc out)
  next
    case 5
    then obtain m where "i = m + 64" "m < 31" by (intro that [of "i - 64"]) auto
    then show ?thesis unfolding four_words_bits by (auto simp: gshift_def bit_gcm_R bit_simps V bc out)
  next
    case 7
    then obtain m where "i = m + 96" "m < 31" by (intro that [of "i - 96"]) auto
    then show ?thesis unfolding four_words_bits by (auto simp: gshift_def bit_gcm_R bit_simps V bc out)
  qed (unfold four_words_bits, auto simp: gshift_def bit_gcm_R bit_simps V bc out)
qed

lemma RIGHTSHIFTX_be32_shift:
  assumes len: "length x = 16"
  shows "be128 (RIGHTSHIFTX_be32 x) = gshift (be128 x)" and "length (RIGHTSHIFTX_be32 x) = 16"
proof -
  define w :: "nat \<Rightarrow> u32" where "w i = load_be 4 x i" for i
  have chunk: "be_bytes 4 (be_word b :: u32) = b" if "length b = 4" for b
    using le_bytes_le_word [of "rev b", where ?'a = 32] that by (simp add: be_bytes_def be_word_def rev_swap)
  have x: "x = be_bytes 4 (w 0) @ be_bytes 4 (w 1) @ be_bytes 4 (w 2) @ be_bytes 4 (w 3)"
  proof -
    have "take 4 (drop k y) @ drop (k + 4) y = drop k y" for k and y :: bytes
      using append_take_drop_id [of 4 "drop k y"] by (simp add: add.commute)
    from this [of 0 x] this [of 4 x] this [of 8 x]
    have "x = take 4 x @ take 4 (drop 4 x) @ take 4 (drop 8 x) @ drop 12 x" by simp
    then show ?thesis using len by (simp add: w_def load_be_def chunk)
  qed
  define c :: u32 where "c = (if bit (w 3) 0 then push_bit 24 (ucast (0xE1 :: u8)) else 0)"
  have low: "bit (x ! 15) 0 \<longleftrightarrow> bit (w 3) 0"
  proof -
    have "bit (be128 x) 0 \<longleftrightarrow> bit (w 3) 0"
      by (subst x, subst be128_four_words, subst four_words_bits) simp
    then show ?thesis by (simp add: bit_be128 [OF len])
  qed
  have cin: "(if x ! 15 AND 0x01 \<noteq> 0 then push_bit (32 - 8) 0xE1 else 0) = c"
    unfolding last_bit low c_def by simp
  have step: "RIGHTSHIFTX_be32_word (concat (map (be_bytes 4) as) @ be_bytes 4 b @ rest, d) (length as)
      = (concat (map (be_bytes 4) as) @ be_bytes 4 (drop_bit 1 b XOR d) @ rest, push_bit 31 b)" for as and b d :: u32 and rest
  proof -
    have l: "length (concat (map (be_bytes 4) as)) = 4 * length as" by (induction as) simp_all
    have "(load_be 4 (concat (map (be_bytes 4) as) @ be_bytes 4 b @ rest) (length as) :: u32) = b"
      by (simp add: load_be_def l be_word_be_bytes)
    then show ?thesis by (simp add: RIGHTSHIFTX_be32_word_def Let_def write_at_def l)
  qed
  have r: "RIGHTSHIFTX_be32 x = be_bytes 4 (drop_bit 1 (w 0) XOR c) @ be_bytes 4 (drop_bit 1 (w 1) XOR push_bit 31 (w 0))
      @ be_bytes 4 (drop_bit 1 (w 2) XOR push_bit 31 (w 1)) @ be_bytes 4 (drop_bit 1 (w 3) XOR push_bit 31 (w 2))"
  proof -
    have "[0..<4] = [0, 1, 2, 3]" by (simp add: upt_rec)
    then show ?thesis
      unfolding RIGHTSHIFTX_be32_def Let_def cin
      using step [of "[]" "w 0" _ c] step [of "[drop_bit 1 (w 0) XOR c]" "w 1" _ "push_bit 31 (w 0)"]
        step [of "[drop_bit 1 (w 0) XOR c, drop_bit 1 (w 1) XOR push_bit 31 (w 0)]" "w 2" _ "push_bit 31 (w 1)"]
        step [of "[drop_bit 1 (w 0) XOR c, drop_bit 1 (w 1) XOR push_bit 31 (w 0), drop_bit 1 (w 2) XOR push_bit 31 (w 1)]"
          "w 3" "[]" "push_bit 31 (w 2)"]
      by (subst x) (simp add: numeral_2_eq_2 [symmetric] numeral_3_eq_3 [symmetric])
  qed
  then show "length (RIGHTSHIFTX_be32 x) = 16" by simp
  show "be128 (RIGHTSHIFTX_be32 x) = gshift (be128 x)"
    unfolding r be128_four_words c_def gshift_words by (subst x, subst be128_four_words, rule refl)
qed

lemma be128_be_bytes: "length x = 16 \<Longrightarrow> be128 x = w \<Longrightarrow> x = be_bytes 16 w"
  by (rule be128_inject) (simp_all add: be_word_be_bytes)

text \<open>
  C12. The five compile-time bodies of \<^verbatim>\<open>RIGHTSHIFTX\<close> (bytes, 32-bit and 64-bit words, big and
  little endian machines) do the same to a 16-byte block: they shift it right by one bit as a
  128-bit number, adding the reduction constant when a bit falls out.
\<close>

theorem RIGHTSHIFTX_variants:
  assumes "length x = 16"
  shows "RIGHTSHIFTX_bytes x = be_bytes 16 (gshift (be128 x)) \<and> RIGHTSHIFTX_be32 x = RIGHTSHIFTX_bytes x
    \<and> RIGHTSHIFTX_be64 x = RIGHTSHIFTX_bytes x \<and> RIGHTSHIFTX_le32 x = RIGHTSHIFTX_bytes x
    \<and> RIGHTSHIFTX_le64 x = RIGHTSHIFTX_bytes x"
proof -
  note bytes = RIGHTSHIFTX_bytes_shift [OF assms]
  have "RIGHTSHIFTX_be32 x = RIGHTSHIFTX_bytes x" "RIGHTSHIFTX_be64 x = RIGHTSHIFTX_bytes x"
    using bytes RIGHTSHIFTX_be32_shift [OF assms] RIGHTSHIFTX_be64_shift [OF assms] by (auto intro: be128_inject)
  then show ?thesis
    using be128_be_bytes [OF bytes(2,1)] RIGHTSHIFTX_le32_be32 [OF assms] RIGHTSHIFTX_le64_be64 [OF assms] by simp
qed

theorem RIGHTSHIFTX_variants_witness:
  "RIGHTSHIFTX_le64 (replicate 16 1) = RIGHTSHIFTX_bytes (replicate 16 1)"
  using RIGHTSHIFTX_variants [of "replicate 16 1"] by simp

section \<open>The product of blocks\<close>

text \<open>The product of NIST SP 800-38D, algorithm 1: bits are numbered from the left.\<close>

definition nist_step :: "128 word \<Rightarrow> 128 word \<times> 128 word \<Rightarrow> nat \<Rightarrow> 128 word \<times> 128 word" where
  "nist_step X = (\<lambda>(Z, V) i. (if bit X (127 - i) then Z XOR V else Z, gshift V))"

definition nist_mul :: "128 word \<Rightarrow> 128 word \<Rightarrow> 128 word" where
  "nist_mul X Y = fst (foldl (nist_step X) (0, Y) [0..<128])"

lemma be128_xor:
  assumes "length x = 16" "length y = 16"
  shows "be128 (map2 (XOR) x y) = be128 x XOR be128 y"
proof (rule bit_word_eqI)
  fix i assume "i < LENGTH(128)"
  then show "bit (be128 (map2 (XOR) x y)) i = bit (be128 x XOR be128 y) i"
    using assms by (simp add: bit_be128 bit_xor_iff)
qed

lemma xorbuf_16:
  assumes "length x = 16" "length y \<ge> 16"
  shows "be128 (xorbuf x y 16) = be128 x XOR be128 (take 16 y)" "length (xorbuf x y 16) = 16"
  using assms by (simp_all add: xorbuf_def be128_xor)

lemma RIGHTSHIFTX_block:
  assumes "length x = 16"
  shows "be128 (RIGHTSHIFTX x) = gshift (be128 x)" "length (RIGHTSHIFTX x) = 16"
  using RIGHTSHIFTX_be64_shift [OF assms] RIGHTSHIFTX_le64_be64 [OF assms] by simp_all

text \<open>
  One byte: with \<open>k\<close> bits done the word \<open>y\<close> is the start shifted by \<open>k\<close>; the sign bit is set
  after the eighth.
\<close>

definition gbit :: "u8 \<Rightarrow> nat \<Rightarrow> u32" where
  "gbit b k = push_bit k (0x800000 OR ucast b)"

lemma gbit_facts:
  assumes k: "k < 8"
  shows "gbit b k AND 0x80 \<noteq> 0 \<longleftrightarrow> bit b (7 - k)" "sint (gbit b (Suc k)) < 0 \<longleftrightarrow> k = 7"
    "push_bit 1 (gbit b k) = gbit b (Suc k)"
proof -
  have c: "bit (0x800000 :: u32) n \<longleftrightarrow> n = 23" for n
    using bit_push_byte [of 23 1 n, where ?'a = 32] by (auto simp: bit_1_iff)
  have b: "bit b n \<Longrightarrow> n < 8" for n using bit_imp_le_length [of b n] by simp
  have g: "bit (gbit b j) n \<longleftrightarrow> n < 32 \<and> j \<le> n \<and> (n - j = 23 \<or> bit b (n - j))" for j n
    using b [of "n - j"] unfolding gbit_def bit_push_bit_iff bit_or_iff c by (auto simp: bit_ucast_iff)
  have "gbit b k AND 0x80 \<noteq> 0 \<longleftrightarrow> bit (gbit b k) 7"
    using bit_iff_and_push_bit_not_eq_0 [of "gbit b k" 7] by simp
  then show "gbit b k AND 0x80 \<noteq> 0 \<longleftrightarrow> bit b (7 - k)" using k g by auto
  have "sint (gbit b (Suc k)) < 0 \<longleftrightarrow> bit (gbit b (Suc k)) 31"
    using bit_last_iff [of "gbit b (Suc k)"] by simp
  then show "sint (gbit b (Suc k)) < 0 \<longleftrightarrow> k = 7" using k g b [of "30 - k"] by auto
  show "push_bit 1 (gbit b k) = gbit b (Suc k)" unfolding gbit_def by simp
qed

text \<open>The loops are the specification's, eight bits at a time.\<close>

lemma GMULT_bits_steps:
  assumes "k < 8" "length Z = 16" "length X = 16" "\<And>i. k \<le> i \<Longrightarrow> i < 8 \<Longrightarrow> bit W (127 - (8 * m + i)) = bit b (7 - i)"
  shows "\<exists>Z' X'. GMULT_bits (gbit b k) Z X = Some (Z', X') \<and> length Z' = 16 \<and> length X' = 16
    \<and> (be128 Z', be128 X') = foldl (nist_step W) (be128 Z, be128 X) (map (\<lambda>i. 8 * m + i) [k..<8])"
  using assms
proof (induction "7 - k" arbitrary: k Z X)
  case 0
  then have k: "k = 7" by simp
  have "[7..<8] = [7::nat]" by (simp add: upt_rec)
  then show ?case
    using 0 0(5) [of 7] gbit_facts [of k b] RIGHTSHIFTX_block [of X] xorbuf_16 [of Z X]
    by (simp add: GMULT_bits.simps k nist_step_def Let_def del: One_nat_def)
next
  case (Suc n)
  define Z1 where "Z1 = (if bit b (7 - k) then xorbuf Z X 16 else Z)"
  have k: "Suc k < 8" "k \<noteq> 7" "n = 7 - Suc k" using Suc.hyps(2) by auto
  have l: "length Z1 = 16" "length (RIGHTSHIFTX X) = 16"
    using Suc.prems RIGHTSHIFTX_block [of X] xorbuf_16 [of Z X] by (simp_all add: Z1_def)
  have step: "nist_step W (be128 Z, be128 X) (8 * m + k) = (be128 Z1, be128 (RIGHTSHIFTX X))"
    using Suc.prems(1,2,3) Suc.prems(4) [of k] RIGHTSHIFTX_block [of X] xorbuf_16 [of Z X]
    by (simp add: nist_step_def Z1_def)
  have run: "GMULT_bits (gbit b k) Z X = GMULT_bits (gbit b (Suc k)) Z1 (RIGHTSHIFTX X)"
    using gbit_facts [of k b] Suc.prems(1) k(2)
    by (subst GMULT_bits.simps) (simp add: Z1_def Let_def del: One_nat_def)
  have upt: "[k..<8] = k # [Suc k..<8]" using Suc.prems(1) by (rule upt_conv_Cons)
  show ?case
    unfolding run upt list.map foldl_Cons step
    using Suc.hyps(1) [OF k(3,1) l Suc.prems(4)] by simp
qed

lemma GMULT_bytes_steps:
  assumes "length Y \<le> 16" "length Z = 16" "length X = 16"
    and "\<And>i j. i < length Y \<Longrightarrow> j < 8 \<Longrightarrow> bit W (127 - (8 * (m + i) + j)) = bit (Y ! i) (7 - j)"
  shows "\<exists>Z' X'. GMULT_bytes Y Z X = Some (Z', X') \<and> length Z' = 16 \<and> length X' = 16
    \<and> (be128 Z', be128 X') = foldl (nist_step W) (be128 Z, be128 X) [8 * m..<8 * (m + length Y)]"
  using assms
proof (induction Y arbitrary: Z X m)
  case Nil
  then show ?case by simp
next
  case (Cons b Y)
  have b: "bit W (127 - (8 * m + i)) = bit b (7 - i)" if "i < 8" for i
    using Cons.prems(4) [of 0 i] that by simp
  obtain Z1 X1 where one: "GMULT_bits (gbit b 0) Z X = Some (Z1, X1)" "length Z1 = 16" "length X1 = 16"
      "(be128 Z1, be128 X1) = foldl (nist_step W) (be128 Z, be128 X) (map (\<lambda>i. 8 * m + i) [0..<8])"
    using GMULT_bits_steps [of 0 Z X W m b, OF _ Cons.prems(2,3) b] by auto
  have rest: "bit W (127 - (8 * (Suc m + i) + j)) = bit (Y ! i) (7 - j)" if "i < length Y" "j < 8" for i j
    using Cons.prems(4) [of "Suc i" j] that by simp
  have map: "map (\<lambda>i. 8 * m + i) [0..<8] = [8 * m..<8 * Suc m]"
    using map_add_upt [of "8 * m" 8] by (simp add: add.commute)
  have upt: "[8 * m..<8 * (m + length (b # Y))] = [8 * m..<8 * Suc m] @ [8 * Suc m..<8 * (Suc m + length Y)]"
    using upt_add_eq_append [of "8 * m" "8 * Suc m" "8 * length Y"] by (simp add: algebra_simps)
  have g0: "0x800000 OR ucast b = gbit b 0" by (simp add: gbit_def)
  show ?case
    using Cons.IH [of Z1 X1 "Suc m", OF _ one(2,3) rest] Cons.prems(1) one
    unfolding upt foldl_append map GMULT_bytes.simps g0 by simp
qed

lemma GMULT_nist:
  assumes "length X = 16" "length Y = 16"
  shows "\<exists>Z. GMULT X Y = Some Z \<and> length Z = 16 \<and> be128 Z = nist_mul (be128 Y) (be128 X)"
proof -
  have bits: "bit (be128 Y) (127 - (8 * (0 + i) + j)) = bit (Y ! i) (7 - j)" if "i < length Y" "j < 8" for i j
  proof -
    have "127 - (8 * i + j) = 8 * (15 - i) + (7 - j)" using that assms by auto
    then have "127 - (8 * i + j) < 128" "(127 - (8 * i + j)) div 8 = 15 - i" "(127 - (8 * i + j)) mod 8 = 7 - j" by simp_all
    then show ?thesis using that assms by (simp add: bit_be128)
  qed
  have "be128 (replicate 16 0) = 0" by (simp add: be_word_def le_word_zeros)
  then show ?thesis
    using GMULT_bytes_steps [of Y "replicate 16 0" X "be128 Y" 0] assms bits
    by (auto simp: GMULT_def nist_mul_def) (metis fst_conv)
qed

section \<open>The product is commutative\<close>

lemma gshift_xor: "gshift (a XOR b) = gshift a XOR gshift b"
  by (rule bit_word_eqI) (auto simp: gshift_def bit_simps)

lemma gshift_pow_xor: "(gshift ^^ n) (a XOR b) = (gshift ^^ n) a XOR (gshift ^^ n) b"
  by (induction n) (simp_all add: gshift_xor)

lemma gshift_pow_0 [simp]: "(gshift ^^ n) 0 = 0"
  using gshift_pow_xor [of n 0 0] by simp

text \<open>The product as the sum of the shifts that the bits of the first factor select.\<close>

definition nist_sum :: "nat \<Rightarrow> 128 word \<Rightarrow> 128 word \<Rightarrow> 128 word" where
  "nist_sum n X Y = foldl (\<lambda>s i. s XOR (if bit X (127 - i) then (gshift ^^ i) Y else 0)) 0 [0..<n]"

lemma nist_sum_Suc: "nist_sum (Suc n) X Y = nist_sum n X Y XOR (if bit X (127 - n) then (gshift ^^ n) Y else 0)"
  by (simp add: nist_sum_def)

lemma nist_mul_sum: "nist_mul X Y = nist_sum 128 X Y"
proof -
  have "foldl (nist_step X) (0, Y) [0..<n] = (nist_sum n X Y, (gshift ^^ n) Y)" for n
    by (induction n) (simp_all add: nist_sum_def nist_step_def)
  then show ?thesis by (simp add: nist_mul_def)
qed

lemma nist_sum_xor:
  "nist_sum n (X XOR X') Y = nist_sum n X Y XOR nist_sum n X' Y"
  "nist_sum n X (Y XOR Y') = nist_sum n X Y XOR nist_sum n X Y'"
proof -
  have ac: "(a XOR b) XOR (c XOR d) = (a XOR c) XOR (b XOR d)" for a b c d :: "128 word" by (simp add: ac_simps)
  show "nist_sum n (X XOR X') Y = nist_sum n X Y XOR nist_sum n X' Y"
  proof (induction n)
    case (Suc n)
    have "(if bit (X XOR X') (127 - n) then (gshift ^^ n) Y else 0)
      = (if bit X (127 - n) then (gshift ^^ n) Y else 0) XOR (if bit X' (127 - n) then (gshift ^^ n) Y else 0)"
      by (simp add: bit_xor_iff)
    then show ?case unfolding nist_sum_Suc Suc.IH by (simp only: ac)
  qed (simp add: nist_sum_def)
  show "nist_sum n X (Y XOR Y') = nist_sum n X Y XOR nist_sum n X Y'"
  proof (induction n)
    case (Suc n)
    then show ?case unfolding nist_sum_Suc Suc.IH gshift_pow_xor by (cases "bit X (127 - n)") (simp_all add: ac_simps)
  qed (simp add: nist_sum_def)
qed

text \<open>Two additive functions that agree on the powers of two agree.\<close>

lemma additive_word_eq:
  fixes f g :: "'a::len word \<Rightarrow> 'b::len word"
  assumes f: "\<And>a b. f (a XOR b) = f a XOR f b" and g: "\<And>a b. g (a XOR b) = g a XOR g b"
    and basis: "\<And>i. i < LENGTH('a) \<Longrightarrow> f (push_bit i 1) = g (push_bit i 1)"
  shows "f w = g w"
proof -
  have zero: "f 0 = 0" "g 0 = 0" using f [of 0 0] g [of 0 0] by simp_all
  have "n \<le> LENGTH('a) \<Longrightarrow> f (take_bit n w) = g (take_bit n w)" for n
  proof (induction n)
    case (Suc n)
    have "take_bit (Suc n) w = take_bit n w XOR (if bit w n then push_bit n 1 else 0)"
      by (rule bit_word_eqI) (auto simp: bit_simps less_Suc_eq)
    then show ?case using Suc basis [of n] by (simp add: f g zero)
  qed (simp add: zero)
  from this [of "LENGTH('a)"] show ?thesis by simp
qed

lemma nist_sum_none: "(\<And>i. i < n \<Longrightarrow> \<not> bit X (127 - i)) \<Longrightarrow> nist_sum n X Y = 0"
  by (induction n) (simp_all add: nist_sum_Suc, simp add: nist_sum_def)

lemma nist_mul_power:
  assumes "i < 128"
  shows "nist_mul (push_bit (127 - i) 1) Y = (gshift ^^ i) Y"
proof -
  have "nist_sum n (push_bit (127 - i) 1) Y = (if i < n then (gshift ^^ i) Y else 0)" if "n \<le> 128" for n
    using that assms
  proof (induction n)
    case (Suc n)
    have "bit (push_bit (127 - i) 1 :: 128 word) (127 - n) \<longleftrightarrow> n = i"
      unfolding bit_push_bit_iff bit_1_iff using Suc.prems by auto
    then show ?case using Suc by (auto simp: nist_sum_Suc)
  qed (simp add: nist_sum_def)
  then show ?thesis using assms by (simp add: nist_mul_sum)
qed

lemma gshift_power:
  assumes "i < 128"
  shows "(gshift ^^ i) (push_bit 127 1) = push_bit (127 - i) 1"
  using assms
proof (induction i)
  case (Suc i)
  obtain k where k: "127 - i = Suc k" "127 - Suc i = k" using Suc.prems by (cases "127 - i") auto
  have "gshift (push_bit (Suc k) 1) = push_bit k 1"
    using k by (intro bit_word_eqI) (auto simp: gshift_def bit_simps)
  then show ?case using Suc k by simp
qed simp

lemma nist_mul_commute: "nist_mul X Y = nist_mul Y X"
proof (rule additive_word_eq [where f = "\<lambda>X. nist_mul X Y"])
  fix i :: nat
  assume i: "i < LENGTH(128)"
  show "nist_mul (push_bit i 1) Y = nist_mul Y (push_bit i 1)"
  proof (rule additive_word_eq [where f = "\<lambda>Y. nist_mul (push_bit i 1) Y"])
    fix j :: nat
    assume j: "j < LENGTH(128)"
    obtain i' j' where ij: "i' < 128" "j' < 128" "i = 127 - i'" "j = 127 - j'"
      using i j by (intro that [of "127 - i" "127 - j"]) auto
    have "nist_mul (push_bit i 1) (push_bit j 1) = (gshift ^^ (i' + j')) (push_bit 127 1)"
      unfolding ij nist_mul_power [OF ij(1)] gshift_power [OF ij(2), symmetric] funpow_add by simp
    moreover have "nist_mul (push_bit j 1) (push_bit i 1) = (gshift ^^ (j' + i')) (push_bit 127 1)"
      unfolding ij nist_mul_power [OF ij(2)] gshift_power [OF ij(1), symmetric] funpow_add by simp
    ultimately show "nist_mul (push_bit i 1) (push_bit j 1) = nist_mul (push_bit j 1) (push_bit i 1)"
      by (simp add: add.commute)
  qed (simp_all add: nist_mul_sum nist_sum_xor)
qed (simp_all add: nist_mul_sum nist_sum_xor)

section \<open>GHASH\<close>

text \<open>NIST SP 800-38D, algorithm 2, and the blocks it is applied to in GCM.\<close>

definition nist_ghash :: "128 word \<Rightarrow> bytes list \<Rightarrow> 128 word" where
  "nist_ghash H = foldl (\<lambda>Y X. nist_mul (Y XOR be128 X) H) 0"

definition zero_pad :: "bytes \<Rightarrow> bytes" where
  "zero_pad c = c @ replicate ((16 - length c mod 16) mod 16) 0"

definition gcm_blocks :: "bytes \<Rightarrow> bytes \<Rightarrow> bytes list" where
  "gcm_blocks a c = full_blocks 16 (zero_pad a @ zero_pad c
     @ be_bytes 8 (of_nat (8 * length a) :: u64) @ be_bytes 8 (of_nat (8 * length c) :: u64))"

lemma zero_pad_dvd: "16 dvd length (zero_pad c)"
proof -
  obtain q r where n: "length c = 16 * q + r" "r < 16" "length c mod 16 = r"
    using mult_div_mod_eq [of 16 "length c"] by (intro that [of "length c div 16" "length c mod 16"]) simp_all
  show ?thesis
  proof (cases "r = 0")
    case True
    then show ?thesis using n by (simp add: zero_pad_def)
  next
    case False
    then have "length (zero_pad c) = 16 * (q + 1)" using n by (simp add: zero_pad_def)
    then show ?thesis by (simp only: dvd_triv_left)
  qed
qed

text \<open>One step of the code, and its loop.\<close>

lemma GMULT_step:
  assumes "length x = 16" "length h = 16"
  shows "\<exists>z. GMULT x h = Some z \<and> length z = 16 \<and> be128 z = nist_mul (be128 x) (be128 h)"
  using GMULT_nist [OF assms] nist_mul_commute by metis

lemma GHASH_blocks_nist:
  assumes "length h = 16" "length x = 16" "16 * n \<le> length c"
  shows "\<exists>z. GHASH_blocks h n c x = Some (drop (16 * n) c, z) \<and> length z = 16
    \<and> be128 z = foldl (\<lambda>Y X. nist_mul (Y XOR be128 X) (be128 h)) (be128 x) (full_blocks 16 (take (16 * n) c))"
  using assms(2,3)
proof (induction n arbitrary: c x)
  case 0
  then show ?case by simp
next
  case (Suc n)
  have x: "length (xorbuf x c 16) = 16" "be128 (xorbuf x c 16) = be128 x XOR be128 (take 16 c)"
    using Suc.prems xorbuf_16 [of x c] by simp_all
  obtain y where y: "GMULT (xorbuf x c 16) h = Some y" "length y = 16"
      "be128 y = nist_mul (be128 x XOR be128 (take 16 c)) (be128 h)"
    using GMULT_step [OF x(1) assms(1)] x(2) by auto
  have n: "16 * n \<le> length (drop 16 c)" using Suc.prems by simp
  obtain z where z: "GHASH_blocks h n (drop 16 c) y = Some (drop (16 * n) (drop 16 c), z)" "length z = 16"
      "be128 z = foldl (\<lambda>Y X. nist_mul (Y XOR be128 X) (be128 h)) (be128 y) (full_blocks 16 (take (16 * n) (drop 16 c)))"
    using Suc.IH [OF y(2) n] by blast
  have fb: "full_blocks 16 (take (16 * Suc n) c) = take 16 c # full_blocks 16 (take (16 * n) (drop 16 c))"
  proof -
    have "take (16 * Suc n) c = take 16 c @ take (16 * n) (drop 16 c)"
      using take_add [of 16 "16 * n" c] by simp
    moreover have "length (take 16 c) = 16" using Suc.prems by simp
    ultimately show ?thesis by (simp only: full_blocks_Cons)
  qed
  have d: "drop (16 * Suc n) c = drop (16 * n) (drop 16 c)" by (simp add: add.commute)
  show ?case
    unfolding GHASH_blocks.simps y(1) option.case z(1) d using z(2,3) unfolding fb by (simp add: y(3))
qed

lemma full_blocks_take:
  "k = 16 * (length c div 16) \<Longrightarrow> full_blocks 16 (c @ d) = full_blocks 16 (take k c) @ full_blocks 16 (drop k c @ d)"
proof -
  assume k: "k = 16 * (length c div 16)"
  then have "k \<le> length c" by (simp add: mult.commute)
  then have "length (take k c) = 16 * (length c div 16)" using k by simp
  then have "16 dvd length (take k c)" by (simp only: dvd_triv_left)
  then show ?thesis
    using full_blocks_append [of 16 "take k c" "drop k c @ d"] by (simp flip: append_assoc)
qed

lemma xorbuf_partial:
  assumes "length x = 16" "length r = p" "p \<le> 16"
  shows "xorbuf x r p = map2 (XOR) x (r @ replicate (16 - p) 0)"
  using assms by (intro nth_equalityI) (auto simp: xorbuf_def nth_append)

lemma GHASH_cipher_nist:
  assumes h: "length h = 16" and x: "length x = 16"
  shows "\<exists>z. GHASH_cipher h c (length c) x = Some z \<and> length z = 16
    \<and> be128 z = foldl (\<lambda>Y X. nist_mul (Y XOR be128 X) (be128 h)) (be128 x) (full_blocks 16 (zero_pad c))"
proof -
  define k p where "k = 16 * (length c div 16)" and "p = length c mod 16"
  have len: "length (drop k c) = p" "p < 16" "k \<le> length c"
    by (simp_all add: k_def p_def minus_mult_div_eq_mod mult.commute)
  obtain y where y: "GHASH_blocks h (length c div 16) c x = Some (drop k c, y)" "length y = 16"
      "be128 y = foldl (\<lambda>Y X. nist_mul (Y XOR be128 X) (be128 h)) (be128 x) (full_blocks 16 (take k c))"
    using GHASH_blocks_nist [OF h x, of "length c div 16" c] len(3) by (auto simp: k_def)
  show ?thesis
  proof (cases "p = 0")
    case True
    then have "zero_pad c = take k c" using len by (simp add: zero_pad_def p_def)
    then show ?thesis using y x True by (auto simp: GHASH_cipher_def Let_def p_def)
  next
    case False
    define r where "r = drop k c @ replicate (16 - p) 0"
    have r: "length r = 16" using len by (simp add: r_def)
    have "full_blocks 16 (zero_pad c) = full_blocks 16 (take k c) @ [r]"
      using full_blocks_take [OF k_def] full_blocks_Cons [OF _ r, of "[]"] False len
      by (simp add: zero_pad_def r_def p_def)
    moreover have "be128 (xorbuf y (drop k c) p) = be128 y XOR be128 r" "length (xorbuf y (drop k c) p) = 16"
      using be128_xor [OF y(2) r] xorbuf_partial [OF y(2) len(1)] len y(2) r by (simp_all add: r_def)
    moreover obtain z where "GMULT (xorbuf y (drop k c) p) h = Some z" "length z = 16"
        "be128 z = nist_mul (be128 (xorbuf y (drop k c) p)) (be128 h)"
      using GMULT_step [OF calculation(3) h] by blast
    moreover have "c \<noteq> []" using False by (auto simp: p_def)
    ultimately show ?thesis using y False by (simp add: GHASH_cipher_def Let_def p_def)
  qed
qed

text \<open>The two counts of bits.\<close>

lemma le_bytes_xor:
  assumes "LENGTH('a) = 8 * length m"
  shows "le_bytes (length m) ((le_word m :: 'a::len word) XOR w) = map2 (XOR) m (le_bytes (length m) w)"
proof (rule nth_equalityI)
  fix i assume "i < length (le_bytes (length m) ((le_word m :: 'a word) XOR w))"
  then have i: "i < length m" by simp
  show "le_bytes (length m) ((le_word m :: 'a word) XOR w) ! i = map2 (XOR) m (le_bytes (length m) w) ! i"
  proof (rule bit_word_eqI)
    fix j assume "j < LENGTH(8)"
    then have j: "j < 8" "8 * i + j < 8 * length m" using i by auto
    then show "bit (le_bytes (length m) ((le_word m :: 'a word) XOR w) ! i) j = bit (map2 (XOR) m (le_bytes (length m) w) ! i) j"
      using i assms by (simp add: bit_le_bytes bit_xor_iff bit_le_word)
  qed
qed simp

lemma xor_length_word:
  assumes "length x = 16" "i < 4"
  shows "write_at (4 * i) (le_bytes 4 ((load_le 4 x i :: u32) XOR bswap v)) x
    = map2 (XOR) x (replicate (4 * i) 0 @ be_bytes 4 v @ replicate (12 - 4 * i) 0)"
proof -
  define m where "m = take 4 (drop (4 * i) x)"
  have m: "length m = 4" using assms by (simp add: m_def)
  have "le_bytes 4 ((load_le 4 x i :: u32) XOR bswap v) = map2 (XOR) m (be_bytes 4 v)"
    using le_bytes_xor [of m "bswap v"] m by (simp add: load_le_def m_def [symmetric] le_bytes_bswap)
  then show ?thesis
    using assms by (intro nth_equalityI) (auto simp: write_at_def m_def nth_append)
qed

lemma count_bytes_32:
  assumes "v < 2 ^ 32"
  shows "be_bytes 8 (of_nat v :: u64) = replicate 4 0 @ be_bytes 4 (of_nat v :: u32)"
proof -
  have hi: "\<not> bit v n" if "32 \<le> n" for n
    using assms that by (metis bit_take_bit_iff leD take_bit_nat_eq_self)
  have "le_bytes 8 (of_nat v :: u64) = le_bytes 4 (of_nat v :: u32) @ replicate 4 0"
  proof (rule nth_equalityI)
    fix i assume "i < length (le_bytes 8 (of_nat v :: u64))"
    then have i: "i < 8" by simp
    show "le_bytes 8 (of_nat v :: u64) ! i = (le_bytes 4 (of_nat v :: u32) @ replicate 4 0) ! i"
    proof (rule bit_word_eqI)
      fix j assume "j < LENGTH(8)"
      then show "bit (le_bytes 8 (of_nat v :: u64) ! i) j = bit ((le_bytes 4 (of_nat v :: u32) @ replicate 4 0) ! i) j"
        using i hi [of "8 * i + j"] by (auto simp: bit_le_bytes nth_append bit_of_nat_iff)
    qed
  qed simp
  then show ?thesis by (simp add: be_bytes_def)
qed

lemma GHASH_run:
  assumes "length h = 16" and "length aad = 13" and "8 * length c < 2 ^ 32"
  shows "aesgcm_GHASH h (aad @ replicate 3 0) c = Some (be_bytes 16 (nist_ghash (be128 h) (gcm_blocks aad c)))"
proof -
  define a where "a = aad @ replicate 3 0"
  define lens where "lens = be_bytes 8 (of_nat (8 * 13) :: u64) @ be_bytes 8 (of_nat (8 * length c) :: u64)"
  have a: "length a = 16" "take 16 a = a" using assms by (simp_all add: a_def)
  obtain x where x: "GMULT a h = Some x" "length x = 16" "be128 x = nist_mul (be128 a) (be128 h)"
    using GMULT_step [OF a(1) assms(1)] by blast
  obtain y where y: "GHASH_cipher h c (length c) x = Some y" "length y = 16"
      "be128 y = foldl (\<lambda>Y X. nist_mul (Y XOR be128 X) (be128 h)) (be128 x) (full_blocks 16 (zero_pad c))"
    using GHASH_cipher_nist [OF assms(1) x(2)] by blast
  define y1 where "y1 = write_at (4 * 1) (le_bytes 4 ((load_le 4 y 1 :: u32) XOR bswap (of_nat (8 * 13)))) y"
  define y2 where "y2 = write_at (4 * 3) (le_bytes 4 ((load_le 4 y1 3 :: u32) XOR bswap (of_nat (8 * length c)))) y1"
  have y1: "y1 = map2 (XOR) y (replicate 4 0 @ be_bytes 4 (of_nat (8 * 13) :: u32) @ replicate 8 0)" "length y1 = 16"
    using xor_length_word [OF y(2), of 1] y(2) unfolding y1_def by simp_all
  have y2: "y2 = map2 (XOR) y1 (replicate 12 0 @ be_bytes 4 (of_nat (8 * length c) :: u32))"
    using xor_length_word [OF y1(2), of 3] unfolding y2_def by simp
  have lens_eq: "lens = replicate 4 0 @ be_bytes 4 (of_nat (8 * 13) :: u32) @ replicate 4 0 @ be_bytes 4 (of_nat (8 * length c) :: u32)"
    unfolding lens_def using count_bytes_32 [of "8 * 13"] count_bytes_32 [OF assms(3)] by simp
  have lens: "length lens = 16" by (simp add: lens_def)
  have "y2 = map2 (XOR) y lens"
    unfolding y2 y1(1) lens_eq using y(2) by (intro nth_equalityI) (auto simp: nth_append)
  then have y2': "be128 y2 = be128 y XOR be128 lens" "length y2 = 16"
    using be128_xor [OF y(2) lens] y(2) lens by simp_all
  obtain z where z: "GMULT y2 h = Some z" "length z = 16" "be128 z = nist_mul (be128 y2) (be128 h)"
    using GMULT_step [OF y2'(2) assms(1)] by blast
  have run: "aesgcm_GHASH h a c = Some z"
    unfolding aesgcm_GHASH_def a(2) x(1) option.case y(1) Let_def
    using z(1) unfolding y2_def y1_def by (simp add: mult.commute)
  have "gcm_blocks aad c = full_blocks 16 (a @ zero_pad c @ lens)"
    using assms(2) by (simp add: gcm_blocks_def zero_pad_def a_def lens_def)
  also have "\<dots> = a # full_blocks 16 (zero_pad c @ lens)" by (rule full_blocks_Cons) (simp_all add: a)
  also have "full_blocks 16 (zero_pad c @ lens) = full_blocks 16 (zero_pad c) @ [lens]"
    using full_blocks_append [of 16 "zero_pad c" lens] full_blocks_Cons [OF _ lens, of "[]"] zero_pad_dvd by simp
  finally have "nist_ghash (be128 h) (gcm_blocks aad c) = be128 z"
    by (simp add: nist_ghash_def z(3) y2'(1) y(3) x(3))
  then show ?thesis using run be128_be_bytes [OF z(2)] unfolding a_def by simp
qed

text \<open>
  C13. \<^verbatim>\<open>aesgcm_GHASH\<close> returns, and what it writes is the GHASH of NIST SP 800-38D
  over the 13 bytes of additional data and the ciphertext, each padded with zeros to whole blocks,
  and the block of the two lengths in bits: for the padded 16 bytes the caller passes and a
  ciphertext of less than 512 MB.
\<close>

theorem aesgcm_GHASH_nist:
  assumes "length h = 16" and "length aad = 13" and "8 * length c < 2 ^ 32"
  shows "aesgcm_GHASH h (aad @ replicate 3 0) c = Some (be_bytes 16 (nist_ghash (be128 h) (gcm_blocks aad c)))"
  by (rule GHASH_run) (rule assms)+

theorem aesgcm_GHASH_nist_witness:
  "aesgcm_GHASH (replicate 16 7) (replicate 13 1 @ replicate 3 0) [1, 2, 3]
    = Some (be_bytes 16 (nist_ghash (be128 (replicate 16 7)) (gcm_blocks (replicate 13 1) [1, 2, 3])))"
  by (rule aesgcm_GHASH_nist) simp_all

end
