(* ===== verification/Shell_Math.thy ===== *)
theory Shell_Math
  imports Prelude "HOL-Library.Signed_Division"
begin

text \<open>
  The shells' arithmetic, \<^verbatim>\<open>shell/math.c\<close>: the operator precedence parser that
  evaluates while it reads, with its two stacks of fixed size, and the recursive evaluation of
  variables. \<^verbatim>\<open>arith_t\<close> has 64 bits; its signed operations wrap, and a shift uses the low
  six bits of its count, as the compiled code does.
\<close>

section \<open>Operators\<close>

datatype operator =
    TOK_LPAREN | TOK_COMMA
  | TOK_ASSIGN | TOK_AND_ASSIGN | TOK_OR_ASSIGN | TOK_XOR_ASSIGN | TOK_PLUS_ASSIGN | TOK_MINUS_ASSIGN
  | TOK_LSHIFT_ASSIGN | TOK_RSHIFT_ASSIGN
  | TOK_MUL_ASSIGN | TOK_DIV_ASSIGN | TOK_REM_ASSIGN
  | TOK_CONDITIONAL | TOK_CONDITIONAL_SEP
  | TOK_OR | TOK_AND | TOK_BOR | TOK_BXOR | TOK_BAND
  | TOK_EQ | TOK_NE | TOK_LT | TOK_GT | TOK_GE | TOK_LE
  | TOK_LSHIFT | TOK_RSHIFT | TOK_ADD | TOK_SUB | TOK_MUL | TOK_DIV | TOK_REM | TOK_EXPONENT
  | TOK_BNOT | TOK_NOT | TOK_UMINUS | TOK_UPLUS
  | TOK_PRE_INC | TOK_PRE_DEC | TOK_POST_INC | TOK_POST_DEC
  | TOK_NUM | TOK_RPAREN

definition UNARYPREC :: nat where "UNARYPREC = 16"
definition PREC_PRE :: nat where "PREC_PRE = UNARYPREC + 2"
definition PREC_POST :: nat where "PREC_POST = UNARYPREC + 3"
definition SPEC_PREC :: nat where "SPEC_PREC = UNARYPREC + 4"

fun PREC :: "operator \<Rightarrow> nat" where
  "PREC TOK_LPAREN = 0"
| "PREC TOK_COMMA = 1"
| "PREC TOK_ASSIGN = 2"
| "PREC TOK_AND_ASSIGN = 2"
| "PREC TOK_OR_ASSIGN = 2"
| "PREC TOK_XOR_ASSIGN = 2"
| "PREC TOK_PLUS_ASSIGN = 2"
| "PREC TOK_MINUS_ASSIGN = 2"
| "PREC TOK_LSHIFT_ASSIGN = 2"
| "PREC TOK_RSHIFT_ASSIGN = 2"
| "PREC TOK_MUL_ASSIGN = 3"
| "PREC TOK_DIV_ASSIGN = 3"
| "PREC TOK_REM_ASSIGN = 3"
| "PREC TOK_CONDITIONAL = 4"
| "PREC TOK_CONDITIONAL_SEP = 4"
| "PREC TOK_OR = 5"
| "PREC TOK_AND = 6"
| "PREC TOK_BOR = 7"
| "PREC TOK_BXOR = 8"
| "PREC TOK_BAND = 9"
| "PREC TOK_EQ = 10"
| "PREC TOK_NE = 10"
| "PREC TOK_LT = 11"
| "PREC TOK_GT = 11"
| "PREC TOK_GE = 11"
| "PREC TOK_LE = 11"
| "PREC TOK_LSHIFT = 12"
| "PREC TOK_RSHIFT = 12"
| "PREC TOK_ADD = 13"
| "PREC TOK_SUB = 13"
| "PREC TOK_MUL = 14"
| "PREC TOK_DIV = 14"
| "PREC TOK_REM = 14"
| "PREC TOK_EXPONENT = 15"
| "PREC TOK_BNOT = UNARYPREC"
| "PREC TOK_NOT = UNARYPREC"
| "PREC TOK_UMINUS = UNARYPREC + 1"
| "PREC TOK_UPLUS = UNARYPREC + 1"
| "PREC TOK_PRE_INC = PREC_PRE"
| "PREC TOK_PRE_DEC = PREC_PRE"
| "PREC TOK_POST_INC = PREC_POST"
| "PREC TOK_POST_DEC = PREC_POST"
| "PREC TOK_NUM = SPEC_PREC"
| "PREC TOK_RPAREN = SPEC_PREC"

definition fix_assignment_prec :: "nat \<Rightarrow> nat" where
  "fix_assignment_prec prec = (if prec = 3 then 2 else prec)"

definition is_assign_op :: "operator \<Rightarrow> bool" where
  "is_assign_op op = (let prec = fix_assignment_prec (PREC op) in prec = PREC TOK_ASSIGN \<or> prec = PREC_PRE \<or> prec = PREC_POST)"

definition is_right_associative :: "nat \<Rightarrow> bool" where
  "is_right_associative prec = (prec = PREC TOK_ASSIGN \<or> prec = PREC TOK_EXPONENT \<or> prec = PREC TOK_CONDITIONAL)"

text \<open>The table of the operators' spellings, the longest first.\<close>

definition op_tokens :: "(string \<times> operator) list" where
  "op_tokens =
    [(''<<='', TOK_LSHIFT_ASSIGN), (''>>='', TOK_RSHIFT_ASSIGN), (''<<'', TOK_LSHIFT), (''>>'', TOK_RSHIFT),
     (''||'', TOK_OR), (''&&'', TOK_AND), (''!='', TOK_NE), (''<='', TOK_LE), (''>='', TOK_GE), (''=='', TOK_EQ),
     (''|='', TOK_OR_ASSIGN), (''&='', TOK_AND_ASSIGN), (''*='', TOK_MUL_ASSIGN), (''/='', TOK_DIV_ASSIGN),
     (''%='', TOK_REM_ASSIGN), (''+='', TOK_PLUS_ASSIGN), (''-='', TOK_MINUS_ASSIGN), (''--'', TOK_POST_DEC),
     (''^='', TOK_XOR_ASSIGN), (''++'', TOK_POST_INC), (''**'', TOK_EXPONENT), (''!'', TOK_NOT), (''<'', TOK_LT),
     (''>'', TOK_GT), (''='', TOK_ASSIGN), (''|'', TOK_BOR), (''&'', TOK_BAND), (''*'', TOK_MUL), (''/'', TOK_DIV),
     (''%'', TOK_REM), (''+'', TOK_ADD), (''-'', TOK_SUB), (''^'', TOK_BXOR), (''~'', TOK_BNOT), ('','', TOK_COMMA),
     (''?'', TOK_CONDITIONAL), ('':'', TOK_CONDITIONAL_SEP), ('')'', TOK_RPAREN), (''('', TOK_LPAREN)]"

section \<open>State and results\<close>

type_synonym i64 = "64 word"
type_synonym vars = "string \<Rightarrow> string option"

record var_or_num =
  val :: i64
  second_val :: i64
  second_val_present :: bool
  var :: "string option"

text \<open>
  The messages; and the ways a run can leave the model: a write behind the number stack or the
  operator stack, a read below the number stack, and the bound on the depth of nested variables.
\<close>

datatype arith_stop =
    Recursion_loop | Syntax_error | Malformed_conditional | Negative_exponent | Divide_by_zero
  | Numstack_overrun | Opstack_overrun | Numstack_underrun | Depth_exceeded

text \<open>
  Every operation can stop with a message, and changes the shell's variables (read by the callback
  \<^verbatim>\<open>lookupvar\<close>, written by \<^verbatim>\<open>setvar\<close>) also when it does.
\<close>

type_synonym 'a arith = "vars \<Rightarrow> (arith_stop + 'a) \<times> vars"

definition ret :: "'a \<Rightarrow> 'a arith" where
  "ret x = (\<lambda>vars. (Inr x, vars))"

definition stop :: "arith_stop \<Rightarrow> 'a arith" where
  "stop e = (\<lambda>vars. (Inl e, vars))"

definition abind :: "'a arith \<Rightarrow> ('a \<Rightarrow> 'b arith) \<Rightarrow> 'b arith" where
  "abind m f = (\<lambda>vars. case m vars of (Inl e, vars) \<Rightarrow> (Inl e, vars) | (Inr x, vars) \<Rightarrow> f x vars)"

section \<open>Applying an operator\<close>

text \<open>
  \<open>ev\<close> is \<^verbatim>\<open>evaluate_string\<close>, on the names being evaluated and a string.
\<close>

definition arith_lookup_val :: "(string list \<Rightarrow> string \<Rightarrow> i64 arith) \<Rightarrow> string list \<Rightarrow> var_or_num \<Rightarrow> var_or_num arith" where
  "arith_lookup_val ev list_of_recursed_names t = (\<lambda>vars.
     case var t of
       None \<Rightarrow> ret t vars
     | Some v \<Rightarrow>
         (case vars v of
            None \<Rightarrow> ret (t\<lparr>val := 0\<rparr>) vars
          | Some p \<Rightarrow>
              if v \<in> set list_of_recursed_names then stop Recursion_loop vars
              else abind (ev (v # list_of_recursed_names) p) (\<lambda>x. ret (t\<lparr>val := x\<rparr>)) vars))"

text \<open>\<^verbatim>\<open>sprintf(buf, "%lld", rez)\<close>.\<close>

definition show_digit :: "nat \<Rightarrow> char" where
  "show_digit d = ''0123456789'' ! d"

fun show_nat :: "nat \<Rightarrow> string" where
  "show_nat n = (if n < 10 then [show_digit n] else show_nat (n div 10) @ [show_digit (n mod 10)])"

declare show_nat.simps [simp del]

definition fmt_lld :: "i64 \<Rightarrow> string" where
  "fmt_lld w = (if sint w < 0 then CHR ''-'' # show_nat (nat (- sint w)) else show_nat (nat (sint w)))"

fun exponent_loop :: "i64 \<Rightarrow> nat \<Rightarrow> i64 \<Rightarrow> i64" where
  "exponent_loop rez 0 c = c"
| "exponent_loop rez (Suc n) c = exponent_loop rez n (c * rez)"

text \<open>C's division truncates towards zero.\<close>

definition divide64 :: "i64 \<Rightarrow> i64 \<Rightarrow> i64" where
  "divide64 a b = word_of_int (sint a sdiv sint b)"

definition modulo64 :: "i64 \<Rightarrow> i64 \<Rightarrow> i64" where
  "modulo64 a b = word_of_int (sint a smod sint b)"

definition of_truth :: "bool \<Rightarrow> i64" where
  "of_truth b = (if b then 1 else 0)"

text \<open>The chain of binary operators; \<open>second\<close> is the second value of the right operand.\<close>

definition arith_binary :: "operator \<Rightarrow> i64 \<Rightarrow> i64 \<Rightarrow> i64 \<Rightarrow> arith_stop + i64" where
  "arith_binary op rez right_side_val second =
     (if op = TOK_CONDITIONAL then Inr (if rez \<noteq> 0 then right_side_val else second)
      else if op = TOK_BOR \<or> op = TOK_OR_ASSIGN then Inr (rez OR right_side_val)
      else if op = TOK_OR then Inr (of_truth (right_side_val \<noteq> 0 \<or> rez \<noteq> 0))
      else if op = TOK_BAND \<or> op = TOK_AND_ASSIGN then Inr (rez AND right_side_val)
      else if op = TOK_BXOR \<or> op = TOK_XOR_ASSIGN then Inr (rez XOR right_side_val)
      else if op = TOK_AND then Inr (of_truth (rez \<noteq> 0 \<and> right_side_val \<noteq> 0))
      else if op = TOK_EQ then Inr (of_truth (rez = right_side_val))
      else if op = TOK_NE then Inr (of_truth (rez \<noteq> right_side_val))
      else if op = TOK_GE then Inr (of_truth (sint rez \<ge> sint right_side_val))
      else if op = TOK_RSHIFT \<or> op = TOK_RSHIFT_ASSIGN then Inr (signed_drop_bit (unat (right_side_val AND 63)) rez)
      else if op = TOK_LSHIFT \<or> op = TOK_LSHIFT_ASSIGN then Inr (push_bit (unat (right_side_val AND 63)) rez)
      else if op = TOK_GT then Inr (of_truth (sint rez > sint right_side_val))
      else if op = TOK_LT then Inr (of_truth (sint rez < sint right_side_val))
      else if op = TOK_LE then Inr (of_truth (sint rez \<le> sint right_side_val))
      else if op = TOK_MUL \<or> op = TOK_MUL_ASSIGN then Inr (rez * right_side_val)
      else if op = TOK_ADD \<or> op = TOK_PLUS_ASSIGN then Inr (rez + right_side_val)
      else if op = TOK_SUB \<or> op = TOK_MINUS_ASSIGN then Inr (rez - right_side_val)
      else if op = TOK_ASSIGN \<or> op = TOK_COMMA then Inr right_side_val
      else if op = TOK_EXPONENT then
        (if sint right_side_val < 0 then Inl Negative_exponent else Inr (exponent_loop rez (unat right_side_val) 1))
      else if right_side_val = 0 then Inl Divide_by_zero
      else if op = TOK_DIV \<or> op = TOK_DIV_ASSIGN \<or> op = TOK_REM \<or> op = TOK_REM_ASSIGN then
        (let right_side_val = (if right_side_val = -1 \<and> push_bit 1 rez = 0 then 1 else right_side_val)
         in Inr (if op = TOK_DIV \<or> op = TOK_DIV_ASSIGN then divide64 rez right_side_val else modulo64 rez right_side_val))
      else Inr rez)"

text \<open>The end of \<^verbatim>\<open>arith_apply\<close>: store to the variable, leave a plain number.\<close>

definition arith_store :: "operator \<Rightarrow> i64 \<Rightarrow> var_or_num \<Rightarrow> var_or_num arith" where
  "arith_store op rez t = (\<lambda>vars.
     if is_assign_op op then
       (case var t of
          None \<Rightarrow> stop Syntax_error vars
        | Some v \<Rightarrow>
            (let vars = vars(v \<mapsto> fmt_lld rez);
                 rez = (if op = TOK_POST_INC then rez - 1 else if op = TOK_POST_DEC then rez + 1 else rez)
             in ret (t\<lparr>val := rez, var := None\<rparr>) vars))
     else ret (t\<lparr>val := rez, var := None\<rparr>) vars)"

text \<open>The unary operators, and everything else.\<close>

definition arith_unary :: "operator \<Rightarrow> i64 \<Rightarrow> i64 option" where
  "arith_unary op rez =
     (if op = TOK_UMINUS then Some (- rez)
      else if op = TOK_NOT then Some (of_truth (rez = 0))
      else if op = TOK_BNOT then Some (NOT rez)
      else if op = TOK_POST_INC \<or> op = TOK_PRE_INC then Some (rez + 1)
      else if op = TOK_POST_DEC \<or> op = TOK_PRE_DEC then Some (rez - 1)
      else if op = TOK_UPLUS then Some rez
      else None)"

text \<open>
  \<^verbatim>\<open>arith_apply\<close> on the number stack, the top first. The part for two operands: a second value
  may stand on the right side of \<^verbatim>\<open>?\<close> only, and must stand there.
\<close>

definition arith_two :: "(string list \<Rightarrow> string \<Rightarrow> i64 arith) \<Rightarrow> string list \<Rightarrow> operator \<Rightarrow> var_or_num \<Rightarrow> var_or_num
    \<Rightarrow> var_or_num list \<Rightarrow> var_or_num list arith" where
  "arith_two ev names op right left rest =
     (if (op = TOK_CONDITIONAL) = (\<not> second_val_present right) then stop Malformed_conditional
      else
        abind (if op \<noteq> TOK_ASSIGN then arith_lookup_val ev names left else ret left) (\<lambda>left.
          if op = TOK_CONDITIONAL_SEP then
            (if rest = [] then stop Malformed_conditional
             else abind (arith_store op (val left) (left\<lparr>second_val_present := True, second_val := val right\<rparr>))
               (\<lambda>t. ret (t # rest)))
          else
            (case arith_binary op (val left) (val right) (second_val right) of
               Inl e \<Rightarrow> stop e
             | Inr rez \<Rightarrow> abind (arith_store op rez left) (\<lambda>t. ret (t # rest)))))"

definition arith_apply :: "(string list \<Rightarrow> string \<Rightarrow> i64 arith) \<Rightarrow> string list \<Rightarrow> operator \<Rightarrow> var_or_num list \<Rightarrow> var_or_num list arith" where
  "arith_apply ev names op numstack =
     (case numstack of
        [] \<Rightarrow> stop Syntax_error
      | top_of_stack # rest \<Rightarrow>
          abind (arith_lookup_val ev names top_of_stack) (\<lambda>top_of_stack.
            case arith_unary op (val top_of_stack) of
              Some rez \<Rightarrow> abind (arith_store op rez top_of_stack) (\<lambda>t. ret (t # rest))
            | None \<Rightarrow>
                (case rest of
                   [] \<Rightarrow> stop Syntax_error
                 | left # rest \<Rightarrow> arith_two ev names op top_of_stack left rest)))"

section \<open>Reading tokens\<close>

definition isdigit :: "char \<Rightarrow> bool" where
  "isdigit a = ((of_char a :: u8) - of_char CHR ''0'' \<le> 9)"

definition is_space :: "char \<Rightarrow> bool" where
  "is_space a = (a = CHR '' '' \<or> (of_char a :: u8) - 9 \<le> 13 - 9)"

fun skip_whitespace :: "string \<Rightarrow> string" where
  "skip_whitespace [] = []"
| "skip_whitespace (c # s) = (if is_space c then skip_whitespace s else c # s)"

definition isalpha :: "char \<Rightarrow> bool" where
  "isalpha a = (((of_char a :: u8) OR 0x20) - of_char CHR ''a'' \<le> of_char CHR ''z'' - of_char CHR ''a'')"

definition is_name :: "char \<Rightarrow> bool" where
  "is_name c = (c = CHR ''_'' \<or> isalpha c)"

definition is_in_name :: "char \<Rightarrow> bool" where
  "is_in_name c = (c = CHR ''_'' \<or> isalpha c \<or> isdigit c)"

text \<open>\<^verbatim>\<open>endofname\<close>: the name and what is behind it.\<close>

definition endofname :: "string \<Rightarrow> string \<times> string" where
  "endofname s =
     (case s of
        [] \<Rightarrow> ([], [])
      | c # s \<Rightarrow> if is_name c then (c # takeWhile is_in_name s, dropWhile is_in_name s) else ([], c # s))"

text \<open>
  \<^verbatim>\<open>strtoull\<close> with base 0, on a string that starts with a digit: the value, what is behind
  the number, and whether \<^verbatim>\<open>errno\<close> is set (the value is then the greatest one).
\<close>

definition digit_value :: "char \<Rightarrow> nat" where
  "digit_value c =
     (if isdigit c then unat ((of_char c :: u8) - 48)
      else if isalpha c then unat ((of_char c :: u8) OR 0x20) - 87
      else 99)"

fun scan_digits :: "nat \<Rightarrow> nat \<Rightarrow> string \<Rightarrow> nat \<times> string" where
  "scan_digits base n [] = (n, [])"
| "scan_digits base n (c # s) =
     (if digit_value c < base then scan_digits base (n * base + digit_value c) s else (n, c # s))"

definition strtoull_0 :: "string \<Rightarrow> i64 \<times> string \<times> bool" where
  "strtoull_0 s =
     (let (n, rest) =
        (case s of
           c # x # d # r \<Rightarrow>
             if c = CHR ''0'' \<and> (x = CHR ''x'' \<or> x = CHR ''X'') \<and> digit_value d < 16 then scan_digits 16 0 (d # r)
             else if c = CHR ''0'' then scan_digits 8 0 s
             else scan_digits 10 0 s
         | c # r \<Rightarrow> if c = CHR ''0'' then scan_digits 8 0 s else scan_digits 10 0 s
         | [] \<Rightarrow> (0, []))
      in if 2 ^ 64 \<le> n then (-1, rest, True) else (of_nat n, rest, False))"

text \<open>
  The digits of \<^verbatim>\<open>N#nnnn\<close>: \<open>None\<close> for a character that is none. The subtractions are
  those of C's \<^verbatim>\<open>unsigned\<close>, the characters are signed.
\<close>

definition base_digit :: "u32 \<Rightarrow> char \<Rightarrow> u32 option" where
  "base_digit base c =
     (let ch = scast (of_char c :: u8) :: u32;
          digit = ch - of_char CHR ''0''
      in if 10 \<le> digit \<and> digit \<le> of_char CHR ''z'' - of_char CHR ''0'' then
           (let digit = (ch OR 0x20) - (of_char CHR ''a'' - 10)
            in if 36 < base \<and> sint ch \<le> sint (of_char CHR ''_'' :: u32) then
                 (if c = CHR ''_'' then Some 63
                  else if c = CHR ''@'' then Some 62
                  else if digit < 36 then Some (digit + (36 - 10))
                  else None)
               else Some digit)
         else Some digit)"

fun base_loop :: "u32 \<Rightarrow> i64 \<Rightarrow> string \<Rightarrow> i64 \<times> string" where
  "base_loop base n [] = (n, [])"
| "base_loop base n (c # s) =
     (case base_digit base c of
        None \<Rightarrow> (n, c # s)
      | Some digit \<Rightarrow> if base \<le> digit then (n, c # s) else base_loop base (n * ucast base + ucast digit) s)"

definition strto_arith_t :: "string \<Rightarrow> i64 \<times> string \<times> bool" where
  "strto_arith_t nptr =
     (let (n, endptr, errno) = strtoull_0 nptr
      in if endptr = [] \<or> hd endptr \<noteq> CHR ''#'' \<or> (of_char (hd nptr) :: u8) < of_char CHR ''1'' \<or> (of_char (hd nptr) :: u8) > of_char CHR ''9''
            \<or> sint n < 2 \<or> sint n > 64
         then (n, endptr, errno)
         else let (n, rest) = base_loop (ucast n) 0 (tl endptr) in (n, rest, errno))"

fun find_op :: "(string \<times> operator) list \<Rightarrow> string \<Rightarrow> (operator \<times> string) option" where
  "find_op [] expr = None"
| "find_op ((p, tok) # ps) expr =
     (if take (length p) expr = p then Some (tok, drop (length p) expr) else find_op ps expr)"

text \<open>
  One token, with what is behind it. A number literal followed by \<^verbatim>\<open>++\<close> or \<^verbatim>\<open>--\<close> has
  only the first sign read; whether a number on the stack is a literal is looked up there.
\<close>

datatype token = T_name string | T_literal i64 | T_op operator | T_stop arith_stop | T_end

definition next_token :: "operator \<Rightarrow> var_or_num list \<Rightarrow> string \<Rightarrow> token \<times> string" where
  "next_token lasttok numstack expr =
     (let expr = skip_whitespace expr
      in case expr of
           [] \<Rightarrow> (T_end, [])
         | arithval # r \<Rightarrow>
             (let (name, p) = endofname expr
              in if p \<noteq> expr then (T_name name, p)
                 else if isdigit arithval then
                   (let (n, rest, errno) = strto_arith_t expr in (T_literal (if errno then 0 else n), rest))
                 else if lasttok = TOK_NUM \<and> numstack = [] then (T_stop Numstack_underrun, expr)
                 else if lasttok = TOK_NUM \<and> var (hd numstack) = None
                         \<and> (arithval = CHR ''+'' \<or> arithval = CHR ''-'') \<and> r \<noteq> [] \<and> hd r = arithval
                 then (T_op (if arithval = CHR ''+'' then TOK_ADD else TOK_SUB), r)
                 else (case find_op op_tokens expr of
                         None \<Rightarrow> (T_stop Syntax_error, expr)
                       | Some (op, rest) \<Rightarrow> (T_op op, rest))))"

section \<open>The parser\<close>

text \<open>
  The loop that pops operators: the number stack, the operator stack, and whether an open paren
  was met by a closing one.
\<close>

fun pop_ops :: "(string list \<Rightarrow> string \<Rightarrow> i64 arith) \<Rightarrow> string list \<Rightarrow> operator \<Rightarrow> var_or_num list \<Rightarrow> operator list
    \<Rightarrow> (var_or_num list \<times> operator list \<times> bool) arith" where
  "pop_ops ev names op numstack [] =
     (if op = TOK_RPAREN then stop Syntax_error else ret (numstack, [], False))"
| "pop_ops ev names op numstack (prev_op # opstack) =
     (let prec = fix_assignment_prec (PREC op); prev_prec = fix_assignment_prec (PREC prev_op)
      in if op = TOK_RPAREN \<and> prev_op = TOK_LPAREN then ret (numstack, opstack, True)
         else if op \<noteq> TOK_RPAREN \<and> (prev_prec < prec \<or> prev_prec = prec \<and> is_right_associative prec)
         then ret (numstack, prev_op # opstack, False)
         else abind (arith_apply ev names prev_op numstack) (\<lambda>numstack. pop_ops ev names op numstack opstack))"

definition unary_form :: "operator \<Rightarrow> operator" where
  "unary_form op =
     (if op = TOK_ADD then TOK_UPLUS else if op = TOK_SUB then TOK_UMINUS
      else if op = TOK_POST_INC then TOK_PRE_INC else if op = TOK_POST_DEC then TOK_PRE_DEC else op)"

type_synonym parser = "operator \<times> var_or_num list \<times> operator list"

text \<open>What happens with an operator: the new \<^verbatim>\<open>lasttok\<close> and the stacks.\<close>

definition operator_step :: "(string list \<Rightarrow> string \<Rightarrow> i64 arith) \<Rightarrow> string list \<Rightarrow> nat \<Rightarrow> operator \<Rightarrow> parser \<Rightarrow> parser arith" where
  "operator_step ev names expr_len op = (\<lambda>(lasttok, numstack, opstack).
     let lasttok = (if lasttok = TOK_POST_INC \<or> lasttok = TOK_POST_DEC then TOK_NUM else lasttok);
         op = (if lasttok \<noteq> TOK_NUM then unary_form op else op);
         prec = PREC op;
         push = (\<lambda>(numstack, opstack). if length opstack < expr_len then ret (op, numstack, op # opstack)
                                        else stop Opstack_overrun)
     in if prec > 0 \<and> prec < UNARYPREC \<or> prec = SPEC_PREC then
          (if lasttok \<noteq> TOK_NUM then stop Syntax_error
           else abind (pop_ops ev names op numstack opstack) (\<lambda>(numstack, opstack, closed).
             if closed then ret (TOK_NUM, numstack, opstack) else push (numstack, opstack)))
        else push (numstack, opstack))"

text \<open>A number or a name: pushed on the number stack, which has \<^verbatim>\<open>expr_len / 2\<close> places.\<close>

definition number_step :: "nat \<Rightarrow> i64 \<Rightarrow> string option \<Rightarrow> parser \<Rightarrow> parser arith" where
  "number_step expr_len v name = (\<lambda>(lasttok, numstack, opstack).
     if length numstack < expr_len div 2
     then ret (TOK_NUM, \<lparr>val = v, second_val = 0, second_val_present = False, var = name\<rparr> # numstack, opstack)
     else stop Numstack_overrun)"

lemma length_skip_whitespace: "length (skip_whitespace s) \<le> length s"
  by (induction s) auto

lemma length_endofname: "snd (endofname s) \<noteq> s \<Longrightarrow> length (snd (endofname s)) < length s"
  by (auto simp: endofname_def le_imp_less_Suc length_dropWhile_le split: list.splits)

lemma length_scan_digits: "length (snd (scan_digits b n s)) \<le> length s"
  by (induction b n s rule: scan_digits.induct) auto

lemma length_base_loop: "length (snd (base_loop b n s)) \<le> length s"
  by (induction b n s rule: base_loop.induct) (auto split: option.splits)

lemma scan_digits_progress:
  "digit_value c < b \<Longrightarrow> length (snd (scan_digits b n (c # s))) < length (c # s)"
  using length_scan_digits [of b "n * b + digit_value c" s] by simp

lemma digit_value_digit: "isdigit c \<Longrightarrow> digit_value c < 10"
proof -
  assume "isdigit c"
  then have "unat ((of_char c :: u8) - 48) \<le> 9" by (simp add: isdigit_def word_le_nat_alt)
  then show ?thesis using \<open>isdigit c\<close> by (simp add: digit_value_def)
qed

lemma length_strtoull:
  assumes "isdigit (hd s)" "s \<noteq> []"
  shows "length (fst (snd (strtoull_0 s))) < length s"
proof -
  obtain c r where s: "s = c # r" using assms(2) by (cases s) auto
  have d: "digit_value c < 10" using assms(1) digit_value_digit by (simp add: s)
  have ten: "length (snd (scan_digits 10 0 s)) < length s" using scan_digits_progress [OF d] by (simp add: s)
  have eight: "length (snd (scan_digits 8 0 s)) < length s" if "c = CHR ''0''"
    using scan_digits_progress [of c 8 0 r] that by (simp add: s digit_value_def isdigit_def)
  have hex: "length (snd (scan_digits 16 0 (d # t))) < length s" if "r = x # d # t" for x d t
    using length_scan_digits [of 16 0 "d # t"] that by (simp add: s le_imp_less_Suc)
  show ?thesis
  proof (cases "\<exists>x d t. r = x # d # t")
    case True
    then obtain x d t where "r = x # d # t" by blast
    then show ?thesis using ten eight hex by (auto simp: strtoull_0_def s simp del: scan_digits.simps split: prod.split)
  next
    case False
    then have "r = [] \<or> (\<exists>x. r = [x])" by (metis neq_Nil_conv)
    then show ?thesis using ten eight by (auto simp: strtoull_0_def s simp del: scan_digits.simps split: prod.split)
  qed
qed

lemma length_strto_arith:
  assumes "isdigit (hd s)" "s \<noteq> []"
  shows "length (fst (snd (strto_arith_t s))) < length s"
proof -
  obtain n rest err where st: "strtoull_0 s = (n, rest, err)" by (cases "strtoull_0 s")
  have "length rest < length s" using length_strtoull [OF assms] st by simp
  moreover have "length (snd (base_loop b m (tl rest))) \<le> length rest" for b m
    by (rule order_trans [OF length_base_loop]) simp
  ultimately show ?thesis
    by (auto simp: strto_arith_t_def st split: prod.splits) (metis le_less_trans snd_conv)
qed

lemma find_op_progress:
  "find_op ps s = Some (op, rest) \<Longrightarrow> \<forall>(p, t) \<in> set ps. p \<noteq> [] \<Longrightarrow> length rest < length s"
proof (induction ps s rule: find_op.induct)
  case (2 p tok ps expr)
  then show ?case by (cases "expr = []") (auto split: if_splits)
qed simp

lemma next_token_progress:
  assumes "next_token lasttok numstack s = (t, rest)" "t \<noteq> T_end" "\<And>e. t \<noteq> T_stop e"
  shows "length rest < length s"
proof -
  define u where "u = skip_whitespace s"
  have le: "length u \<le> length s" by (simp add: u_def length_skip_whitespace)
  have ops: "\<forall>(p, t) \<in> set op_tokens. p \<noteq> []" by (simp add: op_tokens_def)
  show ?thesis
  proof (cases u)
    case Nil
    then show ?thesis using assms by (simp add: next_token_def u_def)
  next
    case (Cons c r)
    have "length rest < length u"
      using assms(1,3) length_endofname [of u] length_strto_arith [of u] find_op_progress [OF _ ops, of u]
      unfolding next_token_def u_def [symmetric] Let_def
      by (auto simp: Cons split: prod.splits if_splits option.splits)
    then show ?thesis using le by simp
  qed
qed

function eval_loop :: "(string list \<Rightarrow> string \<Rightarrow> i64 arith) \<Rightarrow> string list \<Rightarrow> nat \<Rightarrow> bool \<Rightarrow> parser \<Rightarrow> string \<Rightarrow> i64 arith" where
  "eval_loop ev names expr_len closed (lasttok, numstack, opstack) expr =
     (case next_token lasttok numstack expr of
        (T_end, rest) \<Rightarrow>
          (if \<not> closed then
             abind (operator_step ev names expr_len TOK_RPAREN (lasttok, numstack, opstack))
               (\<lambda>p. eval_loop ev names expr_len True p [])
           else
             (case numstack of
                [t] \<Rightarrow> abind (arith_lookup_val ev names t) (\<lambda>t. ret (val t))
              | _ \<Rightarrow> stop Syntax_error))
      | (T_name name, rest) \<Rightarrow>
          abind (number_step expr_len 0 (Some name) (lasttok, numstack, opstack))
            (\<lambda>p. eval_loop ev names expr_len closed p rest)
      | (T_literal n, rest) \<Rightarrow>
          abind (number_step expr_len n None (lasttok, numstack, opstack))
            (\<lambda>p. eval_loop ev names expr_len closed p rest)
      | (T_op op, rest) \<Rightarrow>
          abind (operator_step ev names expr_len op (lasttok, numstack, opstack))
            (\<lambda>p. eval_loop ev names expr_len closed p rest)
      | (T_stop e, rest) \<Rightarrow> stop e)"
  by pat_completeness auto
termination
  by (relation "measure (\<lambda>(ev, names, n, closed, p, s). 2 * length s + (if closed then 0 else 1))")
    (auto dest: next_token_progress [OF sym])

declare eval_loop.simps [simp del]

text \<open>
  \<^verbatim>\<open>evaluate_string\<close>: the operator stack starts with a left paren. The first argument bounds
  the depth of nested variables.
\<close>

fun evaluate_string :: "nat \<Rightarrow> string list \<Rightarrow> string \<Rightarrow> i64 arith" where
  "evaluate_string 0 names expr = stop Depth_exceeded"
| "evaluate_string (Suc depth) names expr =
     (let expr = skip_whitespace expr;
          expr_len = length expr + 2
      in if expr = [] then ret 0
         else eval_loop (evaluate_string depth) names expr_len False (TOK_LPAREN, [], [TOK_LPAREN]) expr)"

definition arith :: "nat \<Rightarrow> string \<Rightarrow> i64 arith" where
  "arith depth expr = evaluate_string depth [] expr"

section \<open>What a run can do\<close>

text \<open>
  \<open>P\<close> is kept of the variables, whether the operation stops or not; \<open>Q\<close> holds of the value,
  \<open>E\<close> of the message.
\<close>

definition arith_valid :: "(vars \<Rightarrow> bool) \<Rightarrow> 'a arith \<Rightarrow> ('a \<Rightarrow> bool) \<Rightarrow> (arith_stop \<Rightarrow> bool) \<Rightarrow> bool" where
  "arith_valid P m Q E \<longleftrightarrow> (\<forall>vars. P vars \<longrightarrow> P (snd (m vars))
     \<and> (\<forall>e. fst (m vars) = Inl e \<longrightarrow> E e) \<and> (\<forall>x. fst (m vars) = Inr x \<longrightarrow> Q x))"

lemma valid_ret: "Q x \<Longrightarrow> arith_valid P (ret x) Q E"
  by (simp add: arith_valid_def ret_def)

lemma valid_stop: "E e \<Longrightarrow> arith_valid P (stop e) Q E"
  by (simp add: arith_valid_def stop_def)

lemma valid_bind:
  assumes m: "arith_valid P m R E" and f: "\<And>x. R x \<Longrightarrow> arith_valid P (f x) Q E"
  shows "arith_valid P (abind m f) Q E"
  unfolding arith_valid_def
proof (intro allI impI)
  fix vars assume P: "P vars"
  obtain r vars' where run: "m vars = (r, vars')" by (cases "m vars")
  have ok: "P vars'" using m P run unfolding arith_valid_def by (metis snd_conv)
  show "P (snd (abind m f vars)) \<and> (\<forall>e. fst (abind m f vars) = Inl e \<longrightarrow> E e) \<and> (\<forall>x. fst (abind m f vars) = Inr x \<longrightarrow> Q x)"
  proof (cases r)
    case (Inl e)
    then have "E e" using m P run unfolding arith_valid_def by (metis fst_conv)
    then show ?thesis using ok run Inl by (simp add: abind_def)
  next
    case (Inr x)
    then have "R x" using m P run unfolding arith_valid_def by (metis fst_conv)
    then show ?thesis using f [of x] ok run Inr unfolding arith_valid_def by (simp add: abind_def)
  qed
qed

lemma valid_imp: "arith_valid P m R E \<Longrightarrow> (\<And>x. R x \<Longrightarrow> Q x) \<Longrightarrow> arith_valid P m Q E"
  unfolding arith_valid_def by blast

lemma valid_if: "(c \<Longrightarrow> arith_valid P m Q E) \<Longrightarrow> (\<not> c \<Longrightarrow> arith_valid P m' Q E) \<Longrightarrow> arith_valid P (if c then m else m') Q E"
  by simp

text \<open>After a number or a postfix operator there is a number on the stack.\<close>

definition number_on_top :: "operator \<Rightarrow> var_or_num list \<Rightarrow> bool" where
  "number_on_top lasttok numstack \<longleftrightarrow> (lasttok \<in> {TOK_NUM, TOK_POST_INC, TOK_POST_DEC} \<longrightarrow> numstack \<noteq> [])"

lemma stop_tokens:
  assumes "number_on_top l ns" "next_token l ns s = (T_stop e, rest)"
  shows "e = Syntax_error"
  using assms unfolding next_token_def Let_def number_on_top_def
  by (auto split: list.splits prod.splits if_splits option.splits)

text \<open>
  The contract between \<^verbatim>\<open>evaluate_string\<close> and the rest: evaluating the value of a variable
  that is not being evaluated keeps what is known of the variables and stops with allowed messages
  only; so does storing a result.
\<close>

locale arith_context =
  fixes ev :: "string list \<Rightarrow> string \<Rightarrow> i64 arith"
    and names :: "string list"
    and vars_ok :: "vars \<Rightarrow> bool"
    and allowed :: "arith_stop \<Rightarrow> bool"
  assumes value_ok: "vars_ok vars \<Longrightarrow> vars v = Some p \<Longrightarrow> v \<notin> set names \<Longrightarrow>
      vars_ok (snd (ev (v # names) p vars)) \<and> (\<forall>e. fst (ev (v # names) p vars) = Inl e \<longrightarrow> allowed e)"
    and set_ok: "vars_ok vars \<Longrightarrow> vars_ok (vars(v \<mapsto> fmt_lld w))"
    and messages: "allowed Recursion_loop" "allowed Syntax_error" "allowed Malformed_conditional"
      "allowed Negative_exponent" "allowed Divide_by_zero" "allowed Numstack_overrun"
begin

lemma lookup_valid: "arith_valid vars_ok (arith_lookup_val ev names t) (\<lambda>_. True) allowed"
  unfolding arith_valid_def
proof (intro allI impI)
  fix vars assume ok: "vars_ok vars"
  have run: "vars_ok (snd (abind (ev (v # names) p) (\<lambda>x. ret (t\<lparr>val := x\<rparr>)) vars))
      \<and> (\<forall>e. fst (abind (ev (v # names) p) (\<lambda>x. ret (t\<lparr>val := x\<rparr>)) vars) = Inl e \<longrightarrow> allowed e)"
    if "vars v = Some p" "v \<notin> set names" for v p
  proof -
    obtain r vars' where r: "ev (v # names) p vars = (r, vars')" by (cases "ev (v # names) p vars")
    then show ?thesis
      using value_ok [OF ok that] by (cases r) (simp_all add: abind_def ret_def)
  qed
  show "vars_ok (snd (arith_lookup_val ev names t vars)) \<and> (\<forall>e. fst (arith_lookup_val ev names t vars) = Inl e \<longrightarrow> allowed e)
      \<and> (\<forall>x. fst (arith_lookup_val ev names t vars) = Inr x \<longrightarrow> True)"
  proof (cases "var t")
    case None
    then show ?thesis using ok by (simp add: arith_lookup_val_def ret_def)
  next
    case (Some v)
    then show ?thesis
      using ok messages(1) run [of v] by (cases "vars v") (simp_all add: arith_lookup_val_def ret_def stop_def)
  qed
qed

lemma store_valid: "arith_valid vars_ok (arith_store op rez t) (\<lambda>_. True) allowed"
  using set_ok messages(2)
  by (cases "var t") (simp_all add: arith_valid_def arith_store_def ret_def stop_def Let_def)

lemma push_result_valid:
  "arith_valid vars_ok (abind (arith_store op rez t) (\<lambda>t. ret (t # rest))) (\<lambda>ns. ns \<noteq> []) allowed"
  by (rule valid_bind [OF store_valid]) (simp add: valid_ret)

lemma binary_allowed: "arith_binary op a b c = Inl e \<Longrightarrow> allowed e"
  unfolding arith_binary_def Let_def using messages by (simp split: if_splits)

lemma two_valid: "arith_valid vars_ok (arith_two ev names op right left rest) (\<lambda>ns. ns \<noteq> []) allowed"
proof -
  have lookup: "arith_valid vars_ok (if c then arith_lookup_val ev names l else ret l) (\<lambda>_. True) allowed" for c l
    by (simp add: lookup_valid valid_ret)
  have result: "arith_valid vars_ok
      (case arith_binary op a b c of Inl e \<Rightarrow> stop e | Inr rez \<Rightarrow> abind (arith_store op rez l) (\<lambda>t. ret (t # rest)))
      (\<lambda>ns. ns \<noteq> []) allowed" for a b c l
    by (cases "arith_binary op a b c") (auto intro: valid_stop push_result_valid binary_allowed)
  show ?thesis
    unfolding arith_two_def
    by (intro valid_if valid_stop messages valid_bind [OF lookup] push_result_valid result)
qed

lemma apply_valid: "arith_valid vars_ok (arith_apply ev names op numstack) (\<lambda>ns. ns \<noteq> []) allowed"
proof (cases numstack)
  case Nil
  then show ?thesis by (simp add: arith_apply_def valid_stop messages)
next
  case (Cons t rest)
  have "arith_valid vars_ok
     (case arith_unary op (val t) of
        Some rez \<Rightarrow> abind (arith_store op rez t) (\<lambda>t. ret (t # rest))
      | None \<Rightarrow> (case rest of [] \<Rightarrow> stop Syntax_error | left # rest \<Rightarrow> arith_two ev names op t left rest))
     (\<lambda>ns. ns \<noteq> []) allowed" for t
    by (cases "arith_unary op (val t)"; cases rest)
      (simp_all add: push_result_valid two_valid valid_stop messages)
  then show ?thesis unfolding arith_apply_def Cons list.case by (intro valid_bind [OF lookup_valid])
qed

lemma pop_valid:
  "numstack \<noteq> [] \<Longrightarrow> arith_valid vars_ok (pop_ops ev names op numstack opstack)
     (\<lambda>(ns, ops, closed). ns \<noteq> [] \<and> length ops \<le> length opstack \<and> (op = TOK_RPAREN \<longrightarrow> closed)) allowed"
proof (induction opstack arbitrary: numstack)
  case Nil
  then show ?case by (auto intro: valid_stop valid_ret messages)
next
  case (Cons prev ops)
  have "arith_valid vars_ok (pop_ops ev names op ns ops)
     (\<lambda>(ns, ops', closed). ns \<noteq> [] \<and> length ops' \<le> length (prev # ops) \<and> (op = TOK_RPAREN \<longrightarrow> closed)) allowed"
    if "ns \<noteq> []" for ns
    by (rule valid_imp [OF Cons.IH [OF that]]) auto
  then show ?case using Cons.prems
    by (auto simp: Let_def intro!: valid_ret valid_bind [OF apply_valid])
qed

lemma step_valid:
  assumes "number_on_top l ns" and "length ops < n"
  shows "arith_valid vars_ok (operator_step ev names n op (l, ns, ops))
    (\<lambda>(l', ns', ops'). number_on_top l' ns' \<and> length ops' \<le> Suc (length ops) \<and> (op = TOK_RPAREN \<longrightarrow> length ops' \<le> length ops))
    allowed"
proof -
  define l1 where "l1 = (if l = TOK_POST_INC \<or> l = TOK_POST_DEC then TOK_NUM else l)"
  define op1 where "op1 = (if l1 \<noteq> TOK_NUM then unary_form op else op)"
  have l1: "l1 = TOK_NUM \<Longrightarrow> ns \<noteq> []" using assms(1) by (auto simp: l1_def number_on_top_def)
  have post: "op1 = TOK_POST_INC \<or> op1 = TOK_POST_DEC \<Longrightarrow> l1 = TOK_NUM"
    by (cases "l1 = TOK_NUM") (auto simp: op1_def unary_form_def split: if_splits)
  have op1_eq: "l1 = TOK_NUM \<Longrightarrow> op1 = op" by (simp add: op1_def)
  have rparen: "op1 = TOK_RPAREN \<longleftrightarrow> op = TOK_RPAREN" by (auto simp: op1_def unary_form_def)
  have push: "arith_valid vars_ok (if length ops' < n then ret (op1, ns', op1 # ops') else stop Opstack_overrun)
      (\<lambda>(l', ns', ops'). number_on_top l' ns' \<and> length ops' \<le> Suc (length ops) \<and> (op = TOK_RPAREN \<longrightarrow> length ops' \<le> length ops))
      allowed"
    if "length ops' \<le> length ops" "op \<noteq> TOK_RPAREN" "number_on_top op1 ns'" for ns' ops'
    using that assms(2) by (simp add: valid_ret)
  show ?thesis
  proof (cases "PREC op1 > 0 \<and> PREC op1 < UNARYPREC \<or> PREC op1 = SPEC_PREC")
    case True
    have "arith_valid vars_ok
       (abind (pop_ops ev names op1 ns ops)
         (\<lambda>(ns', ops', closed). if closed then ret (TOK_NUM, ns', ops')
            else if length ops' < n then ret (op1, ns', op1 # ops') else stop Opstack_overrun))
       (\<lambda>(l', ns', ops'). number_on_top l' ns' \<and> length ops' \<le> Suc (length ops) \<and> (op = TOK_RPAREN \<longrightarrow> length ops' \<le> length ops))
       allowed" if "l1 = TOK_NUM"
    proof (rule valid_bind [OF pop_valid [OF l1 [OF that], of op1 ops]])
      fix x :: "var_or_num list \<times> operator list \<times> bool"
      obtain ns' ops' closed where x: "x = (ns', ops', closed)" by (cases x)
      assume "case x of (ns', ops', closed) \<Rightarrow> ns' \<noteq> [] \<and> length ops' \<le> length ops \<and> (op1 = TOK_RPAREN \<longrightarrow> closed)"
      then have ok: "ns' \<noteq> []" "length ops' \<le> length ops" "op = TOK_RPAREN \<longrightarrow> closed" by (simp_all add: x rparen)
      then show "arith_valid vars_ok (case x of (ns', ops', closed) \<Rightarrow> if closed then ret (TOK_NUM, ns', ops')
            else if length ops' < n then ret (op1, ns', op1 # ops') else stop Opstack_overrun)
         (\<lambda>(l', ns', ops'). number_on_top l' ns' \<and> length ops' \<le> Suc (length ops) \<and> (op = TOK_RPAREN \<longrightarrow> length ops' \<le> length ops))
         allowed"
        using push [of ops' ns'] by (cases closed) (simp_all add: x valid_ret number_on_top_def)
    qed
    then show ?thesis
      using True messages(2) op1_def
      by (cases "l1 = TOK_NUM") (simp_all add: operator_step_def l1_def [symmetric] op1_def [symmetric] op1_eq Let_def valid_stop cong: if_cong)
  next
    case False
    then have "op \<noteq> TOK_RPAREN" using rparen by auto
    moreover have "number_on_top op1 ns" using post l1 False by (auto simp: number_on_top_def)
    ultimately show ?thesis
      using False push [of ops ns] op1_eq op1_def
      by (cases "l1 = TOK_NUM") (auto simp: operator_step_def l1_def [symmetric] op1_def [symmetric] Let_def cong: if_cong)
  qed
qed

lemma loop_valid:
  assumes "number_on_top l ns" and "length ops + length expr < n"
  shows "arith_valid vars_ok (eval_loop ev names n closed (l, ns, ops) expr) (\<lambda>_. True) allowed"
  using assms
proof (induction "2 * length expr + (if closed then 0 else 1 :: nat)" arbitrary: l ns ops expr closed rule: less_induct)
  case less
  obtain t rest where tok: "next_token l ns expr = (t, rest)" by (cases "next_token l ns expr")
  have next_ok: "arith_valid vars_ok (eval_loop ev names n closed p rest) (\<lambda>_. True) allowed"
    if "t \<noteq> T_end" "\<And>e. t \<noteq> T_stop e" "case p of (l', ns', ops') \<Rightarrow> number_on_top l' ns' \<and> length ops' \<le> Suc (length ops)" for p
  proof -
    obtain l' ns' ops' where p: "p = (l', ns', ops')" by (cases p)
    have "length rest < length expr" using next_token_progress [OF tok that(1,2)] .
    then show ?thesis using less that(3) by (simp add: p)
  qed
  have number: "arith_valid vars_ok (number_step n v name (l, ns, ops))
      (\<lambda>p. case p of (l', ns', ops') \<Rightarrow> number_on_top l' ns' \<and> length ops' \<le> Suc (length ops)) allowed" for v name
    using messages by (simp add: number_step_def valid_ret valid_stop number_on_top_def)
  have step: "arith_valid vars_ok (operator_step ev names n op (l, ns, ops))
    (\<lambda>(l', ns', ops'). number_on_top l' ns' \<and> length ops' \<le> Suc (length ops) \<and> (op = TOK_RPAREN \<longrightarrow> length ops' \<le> length ops))
    allowed" for op
    using step_valid [OF less.prems(1)] less.prems(2) by simp
  show ?case
  proof (cases t)
    case T_end
    have "arith_valid vars_ok (eval_loop ev names n True p []) (\<lambda>_. True) allowed"
      if "case p of (l', ns', ops') \<Rightarrow> number_on_top l' ns' \<and> length ops' \<le> Suc (length ops)
        \<and> (TOK_RPAREN = TOK_RPAREN \<longrightarrow> length ops' \<le> length ops)" "\<not> closed" for p
    proof -
      obtain l' ns' ops' where p: "p = (l', ns', ops')" by (cases p)
      show ?thesis using less.hyps [of "[]" True l' ns' ops'] less.prems(2) that by (simp add: p)
    qed
    then have "\<not> closed \<Longrightarrow> ?thesis"
      unfolding eval_loop.simps [of ev names n closed l ns ops expr] tok T_end
      by (simp, intro valid_bind [OF step]) simp
    moreover have "closed \<Longrightarrow> ?thesis"
      unfolding eval_loop.simps [of ev names n closed l ns ops expr] tok T_end
      by (auto simp: messages intro!: valid_stop valid_bind [OF lookup_valid] valid_ret split: list.split)
    ultimately show ?thesis by blast
  next
    case (T_name name)
    then show ?thesis
      unfolding eval_loop.simps [of ev names n closed l ns ops expr] tok
      using next_ok by (simp add: valid_bind [OF number])
  next
    case (T_literal v)
    then show ?thesis
      unfolding eval_loop.simps [of ev names n closed l ns ops expr] tok
      using next_ok by (simp add: valid_bind [OF number])
  next
    case (T_op op)
    have "arith_valid vars_ok (abind (operator_step ev names n op (l, ns, ops)) (\<lambda>p. eval_loop ev names n closed p rest)) (\<lambda>_. True) allowed"
      by (rule valid_bind [OF step]) (use next_ok T_op in auto)
    then show ?thesis
      unfolding eval_loop.simps [of ev names n closed l ns ops expr] tok T_op by simp
  next
    case (T_stop e)
    have "allowed e" using stop_tokens [OF less.prems(1) tok [unfolded T_stop]] messages by auto
    then show ?thesis
      unfolding eval_loop.simps [of ev names n closed l ns ops expr] tok T_stop by (simp add: valid_stop)
  qed
qed

end

lemma evaluate_safe:
  "arith_valid (\<lambda>_. True) (evaluate_string depth names expr) (\<lambda>_. True) (\<lambda>e. e \<notin> {Opstack_overrun, Numstack_underrun})"
proof (induction depth arbitrary: names expr)
  case 0
  then show ?case by (simp add: valid_stop)
next
  case (Suc depth)
  have "arith_context (evaluate_string depth) names (\<lambda>_. True) (\<lambda>e. e \<notin> {Opstack_overrun, Numstack_underrun})"
    using Suc by unfold_locales (simp_all add: arith_valid_def)
  then show ?case
    by (simp add: Let_def valid_ret arith_context.loop_valid number_on_top_def)
qed

interpretation safe: arith_context "evaluate_string depth" names "\<lambda>_. True" "\<lambda>e. e \<notin> {Opstack_overrun, Numstack_underrun}" for depth names
  using evaluate_safe by unfold_locales (simp_all add: arith_valid_def)

text \<open>
  C14. Evaluation never writes behind the operator stack and never reads below the number stack,
  whatever the expression, the variables and the depth: \<^verbatim>\<open>stack\<close> has two places more than
  the expression has characters, and after a number or a postfix operator the number stack is not empty.
\<close>

theorem arith_stacks_safe:
  "fst (arith depth expr vars) \<noteq> Inl Opstack_overrun \<and> fst (arith depth expr vars) \<noteq> Inl Numstack_underrun"
  using evaluate_safe [of depth "[]" expr] by (auto simp: arith_valid_def arith_def)

section \<open>Printed values\<close>

lemma show_digit:
  assumes "d < 10"
  shows "isdigit (show_digit d)" "digit_value (show_digit d) = d" "\<not> is_space (show_digit d)"
    "\<not> is_name (show_digit d)" "show_digit d = CHR ''0'' \<longleftrightarrow> d = 0"
proof -
  have d: "d \<in> {0, 1, 2, 3, 4, 5, 6, 7, 8, 9}" using assms by auto
  show "isdigit (show_digit d)" "digit_value (show_digit d) = d" "\<not> is_space (show_digit d)"
    "\<not> is_name (show_digit d)" "show_digit d = CHR ''0'' \<longleftrightarrow> d = 0"
    using d by (auto simp: show_digit_def isdigit_def digit_value_def is_space_def is_name_def isalpha_def)
qed

lemma show_nat_first:
  "\<exists>d s. show_nat n = show_digit d # s \<and> d < 10 \<and> (n = 0 \<longrightarrow> s = [] \<and> d = 0) \<and> (n \<noteq> 0 \<longrightarrow> d \<noteq> 0)"
proof (induction n rule: show_nat.induct)
  case (1 n)
  show ?case
  proof (cases "n < 10")
    case True
    then show ?thesis by (subst show_nat.simps) auto
  next
    case False
    then obtain d s where "show_nat (n div 10) = show_digit d # s" "d < 10" "d \<noteq> 0" using 1 by auto
    then show ?thesis using False by (subst show_nat.simps) auto
  qed
qed

lemma scan_show_nat:
  "rest = [] \<or> 10 \<le> digit_value (hd rest) \<Longrightarrow> scan_digits 10 0 (show_nat n @ rest) = (n, rest)"
proof -
  assume rest: "rest = [] \<or> 10 \<le> digit_value (hd rest)"
  have stop: "scan_digits 10 m rest = (m, rest)" for m using rest by (cases rest) auto
  have "\<exists>k. \<forall>m t. scan_digits 10 m (show_nat n @ t) = scan_digits 10 (m * 10 ^ k + n) t"
  proof (induction n rule: show_nat.induct)
    case (1 n)
    show ?case
    proof (cases "n < 10")
      case True
      then have "scan_digits 10 m (show_nat n @ t) = scan_digits 10 (m * 10 ^ 1 + n) t" for m t
        by (subst show_nat.simps) (simp add: show_digit)
      then show ?thesis by blast
    next
      case False
      then obtain k where k: "scan_digits 10 m (show_nat (n div 10) @ t) = scan_digits 10 (m * 10 ^ k + n div 10) t" for m t
        using 1 by blast
      have "scan_digits 10 m (show_nat n @ t) = scan_digits 10 (m * 10 ^ Suc k + n) t" for m t
      proof -
        have "scan_digits 10 m (show_nat n @ t) = scan_digits 10 m (show_nat (n div 10) @ show_digit (n mod 10) # t)"
          using False by (subst show_nat.simps) simp
        also have "\<dots> = scan_digits 10 ((m * 10 ^ k + n div 10) * 10 + n mod 10) t"
          by (simp add: k show_digit)
        also have "(m * 10 ^ k + n div 10) * 10 + n mod 10 = m * 10 ^ Suc k + n"
          using div_mult_mod_eq [of n 10] by (simp add: algebra_simps)
        finally show ?thesis .
      qed
      then show ?thesis by blast
    qed
  qed
  then obtain k where "scan_digits 10 0 (show_nat n @ rest) = scan_digits 10 (0 * 10 ^ k + n) rest" by blast
  then show ?thesis by (simp add: stop)
qed

text \<open>A printed number is read back as one token.\<close>

lemma next_token_number:
  assumes "n < 2 ^ 64" "rest = [] \<or> hd rest = CHR '' ''"
  shows "next_token l ns (show_nat n @ rest) = (T_literal (of_nat n), rest)"
proof -
  obtain d s where ds: "show_nat n = show_digit d # s" "d < 10" "n = 0 \<Longrightarrow> s = [] \<and> d = 0" "n \<noteq> 0 \<Longrightarrow> d \<noteq> 0"
    using show_nat_first [of n] by blast
  note dig = show_digit [OF ds(2)]
  have sp: "10 \<le> digit_value CHR '' ''" "CHR '' '' \<noteq> CHR ''#''" "CHR '' '' \<noteq> CHR ''x''" "CHR '' '' \<noteq> CHR ''X''"
    by (simp_all add: digit_value_def isdigit_def isalpha_def)
  have rest: "rest = [] \<or> 10 \<le> digit_value (hd rest)" using assms(2) sp(1) by auto
  have big: "\<not> 2 ^ 64 \<le> n" using assms(1) by simp
  have "strtoull_0 (show_nat n @ rest) = (of_nat n, rest, False)"
  proof (cases "n = 0")
    case True
    then have "show_nat n @ rest = CHR ''0'' # rest" using ds by (simp add: show_digit_def)
    moreover have "scan_digits 8 0 (CHR ''0'' # rest) = (0, rest)"
      using rest by (cases rest) (auto simp: digit_value_def isdigit_def)
    ultimately show ?thesis
      using assms(2) True unfolding strtoull_0_def by (auto simp: sp simp del: scan_digits.simps split: list.split)
  next
    case False
    then have "show_digit d \<noteq> CHR ''0''" using ds dig by simp
    then have "strtoull_0 (show_nat n @ rest) = (let (n, rest) = scan_digits 10 0 (show_nat n @ rest)
      in if 2 ^ 64 \<le> n then (-1, rest, True) else (of_nat n, rest, False))"
      unfolding strtoull_0_def ds(1) append_Cons by (auto simp del: scan_digits.simps split: list.split)
    then show ?thesis using scan_show_nat [OF rest] big by simp
  qed
  then have "strto_arith_t (show_nat n @ rest) = (of_nat n, rest, False)"
    using assms(2) sp(2) by (auto simp: strto_arith_t_def)
  then show ?thesis
    using dig by (simp add: next_token_def ds(1) endofname_def)
qed


lemma eval_loop_end:
  "next_token l ns expr = (T_end, rest) \<Longrightarrow> eval_loop ev names n False (l, ns, ops) expr =
     abind (operator_step ev names n TOK_RPAREN (l, ns, ops)) (\<lambda>p. eval_loop ev names n True p [])"
  by (subst eval_loop.simps) simp

lemma next_token_Nil [simp]: "next_token l ns [] = (T_end, [])"
  by (simp add: next_token_def)

lemma abind_simps [simp]: "abind (ret x) f = f x" "abind (stop e) f = stop e"
  by (simp_all add: abind_def ret_def stop_def)

lemma lookup_number: "var t = None \<Longrightarrow> arith_lookup_val ev names t = ret t"
  by (rule ext) (simp add: arith_lookup_val_def)

lemma eval_loop_closed: "eval_loop ev names n True (l, [t], ops) [] = abind (arith_lookup_val ev names t) (\<lambda>t. ret (val t))"
  by (subst eval_loop.simps) simp

text \<open>
  A value that was stored in a variable is read back as it was, the least number included.
\<close>

lemma evaluate_fmt_lld: "evaluate_string (Suc depth) names (fmt_lld w) vars = (Inr w, vars)"
proof -
  define n where "n = nat \<bar>sint w\<bar>"
  have "- (2 ^ 63) \<le> sint w" "sint w < 2 ^ 63" using sint_greater_eq [of w] sint_less [of w] by simp_all
  then have n: "n < 2 ^ 64" by (simp add: n_def)
  have lit: "next_token l ns (show_nat n) = (T_literal (of_nat n), [])" for l ns
    using next_token_number [OF n, of "[]"] by simp
  obtain d s where ds: "show_nat n = show_digit d # s" "d < 10" using show_nat_first [of n] by blast
  note dig = show_digit [OF ds(2)]
  show ?thesis
  proof (cases "sint w < 0")
    case False
    then have f: "fmt_lld w = show_nat n" and w: "of_nat n = w" by (simp_all add: fmt_lld_def n_def)
    show ?thesis
      unfolding f using dig(3) lit
      by (simp add: ds(1))
        (subst eval_loop.simps, simp add: ds(1) number_step_def eval_loop_end operator_step_def SPEC_PREC_def eval_loop_closed
          lookup_number w, simp add: ret_def)
  next
    case True
    then have f: "fmt_lld w = CHR ''-'' # show_nat n" and w: "- of_nat n = w"
      by (simp_all add: fmt_lld_def n_def)
    have d: "show_digit d \<noteq> CHR ''-''" "show_digit d \<noteq> CHR ''=''" using dig(1) by (auto simp: isdigit_def)
    have minus: "next_token TOK_LPAREN [] (CHR ''-'' # show_nat n) = (T_op TOK_SUB, show_nat n)"
      unfolding ds(1) using d
      by (simp add: next_token_def is_space_def endofname_def is_name_def isalpha_def isdigit_def op_tokens_def)
    have sp: "\<not> is_space CHR ''-''" by (simp add: is_space_def)
    have step: "operator_step (evaluate_string depth) names k TOK_SUB (TOK_LPAREN, [], [TOK_LPAREN])
        = ret (TOK_UMINUS, [], [TOK_UMINUS, TOK_LPAREN])" if "2 < k" for k
      using that by (simp add: operator_step_def unary_form_def SPEC_PREC_def UNARYPREC_def)
    have negate: "arith_apply (evaluate_string depth) names TOK_UMINUS [t] = ret [t\<lparr>val := - val t\<rparr>]" if "var t = None" for t
      using that
      by (cases t) (simp add: arith_apply_def lookup_number arith_unary_def arith_store_def is_assign_op_def fix_assignment_prec_def
          PREC_PRE_def PREC_POST_def UNARYPREC_def)
    have "evaluate_string (Suc depth) names (fmt_lld w) vars
        = eval_loop (evaluate_string depth) names (length (CHR ''-'' # show_nat n) + 2) False (TOK_UMINUS, [], [TOK_UMINUS, TOK_LPAREN]) (show_nat n) vars"
      unfolding f using sp minus by (simp add: Let_def) (subst eval_loop.simps, simp add: step)
    also have "\<dots> = (Inr w, vars)"
      using lit
      by (subst eval_loop.simps)
        (simp add: number_step_def eval_loop_end operator_step_def SPEC_PREC_def negate eval_loop_closed lookup_number w, simp add: ret_def)
    finally show ?thesis .
  qed
qed

section \<open>Nested variables end\<close>

lemma evaluate_depth:
  assumes "finite (dom vars0)"
  shows "distinct names \<Longrightarrow> set names \<subseteq> dom vars0 \<Longrightarrow> card (dom vars0) + 2 \<le> depth + length names \<Longrightarrow>
    arith_valid (\<lambda>vars. \<forall>v. vars v = vars0 v \<or> (\<exists>w. vars v = Some (fmt_lld w))) (evaluate_string depth names expr)
      (\<lambda>_. True) (\<lambda>e. e \<noteq> Depth_exceeded)"
proof (induction depth arbitrary: names expr)
  case 0
  have "length names \<le> card (dom vars0)" using 0 card_mono [OF assms 0(2)] by (simp add: distinct_card)
  then show ?case using 0 by simp
next
  case (Suc depth)
  have len: "length names \<le> card (dom vars0)" using Suc.prems card_mono [OF assms Suc.prems(2)] by (simp add: distinct_card)
  then obtain d where d: "depth = Suc d" using Suc.prems(3) by (cases depth) auto
  have "arith_context (evaluate_string depth) names (\<lambda>vars. \<forall>v. vars v = vars0 v \<or> (\<exists>w. vars v = Some (fmt_lld w)))
      (\<lambda>e. e \<noteq> Depth_exceeded)"
  proof (unfold_locales, goal_cases)
    case (1 vars v p)
    show ?case
    proof (cases "\<exists>w. vars v = Some (fmt_lld w)")
      case True
      then obtain w where "p = fmt_lld w" using 1 by auto
      then have "evaluate_string depth (v # names) p vars = (Inr w, vars)" unfolding d by (simp add: evaluate_fmt_lld del: evaluate_string.simps)
      then show ?thesis using 1 by simp
    next
      case False
      then have v: "v \<in> dom vars0" using 1 by (metis domI)
      have "distinct (v # names)" "set (v # names) \<subseteq> dom vars0" "card (dom vars0) + 2 \<le> depth + length (v # names)"
        using v 1 Suc.prems by auto
      from Suc.IH [OF this, of p] show ?thesis using 1(1) unfolding arith_valid_def by blast
    qed
  qed auto
  then show ?case
    by (simp add: Let_def valid_ret arith_context.loop_valid number_on_top_def)
qed

text \<open>
  C17. Evaluation of nested variables ends: with finitely many variables the recursion goes at most
  two levels deeper than there are variables, loops of names included, whatever is assigned on the
  way. (The loop over the characters ends by itself.)
\<close>

theorem arith_terminates:
  assumes "finite (dom vars)" and "card (dom vars) + 2 \<le> depth"
  shows "fst (arith depth expr vars) \<noteq> Inl Depth_exceeded"
  using evaluate_depth [OF assms(1), of "[]" depth expr] assms(2) by (auto simp: arith_valid_def arith_def)

theorem arith_terminates_witness:
  "fst (arith 4 ''a'' [''a'' \<mapsto> ''b'', ''b'' \<mapsto> ''a'']) \<noteq> Inl Depth_exceeded"
  by (rule arith_terminates) simp_all

section \<open>Division\<close>

lemma twice_zero:
  fixes a :: i64
  assumes "push_bit 1 a = 0"
  shows "sint a = 0 \<or> sint a = - (2 ^ 63)"
proof -
  have "2 * unat a mod 2 ^ 64 = 0"
  proof -
    have "unat (push_bit 1 a) = 2 * unat a mod 2 ^ 64"
      using unat_word_ariths(2) [of a 2] by (simp add: mult.commute)
    then show ?thesis using assms by simp
  qed
  moreover have "unat a < 2 ^ 64" using unat_bound [of a] by simp
  ultimately have "unat a = 0 \<or> unat a = 2 ^ 63" by auto
  then have "a = 0 \<or> a = of_nat (2 ^ 63)" by (metis of_nat_unat ucast_id unat_eq_0)
  then show ?thesis by (auto simp: sint_uint)
qed

lemma sint_small: "- (2 ^ 63) \<le> k \<Longrightarrow> k < 2 ^ 63 \<Longrightarrow> sint (word_of_int k :: i64) = k"
  by (simp add: int_word_sint)

lemma sdiv_abs: "\<bar>k sdiv l\<bar> = \<bar>k\<bar> div \<bar>l\<bar>" "\<bar>k smod l\<bar> = \<bar>k\<bar> mod \<bar>l\<bar>" if "l \<noteq> 0" for k l :: int
proof -
  have "0 \<le> \<bar>k\<bar> div \<bar>l\<bar>" "0 \<le> \<bar>k\<bar> mod \<bar>l\<bar>" by (simp_all add: pos_imp_zdiv_nonneg_iff that)
  then show "\<bar>k sdiv l\<bar> = \<bar>k\<bar> div \<bar>l\<bar>" "\<bar>k smod l\<bar> = \<bar>k\<bar> mod \<bar>l\<bar>"
    using that by (auto simp: signed_divide_int_def signed_modulo_int_def abs_mult abs_sgn_eq)
qed

lemma division_equation:
  fixes a b :: i64
  assumes "b \<noteq> 0"
  shows "\<exists>q r. arith_binary TOK_DIV a b s = Inr q \<and> arith_binary TOK_REM a b s = Inr r \<and> q * b + r = a
    \<and> \<bar>sint r\<bar> < \<bar>sint b\<bar> \<and> (sint a = - (2 ^ 63) \<and> b = - 1 \<or> sint q = sint a sdiv sint b)"
proof (cases "b = - 1 \<and> push_bit 1 a = 0")
  case True
  then have "a + a = 0" by (simp add: mult_2 [symmetric] mult.commute)
  then have "- a = a" by (simp only: neg_eq_iff_add_eq_0)
  then have "a * b = a" using True by simp
  then show ?thesis
    using True twice_zero [of a] assms
    by (intro exI [of _ a] exI [of _ 0]) (auto simp: arith_binary_def divide64_def modulo64_def signed_modulo_int_def)
next
  case False
  let ?a = "sint a" and ?b = "sint b"
  have b0: "?b \<noteq> 0"
  proof
    assume "?b = 0"
    then have "(of_int ?b :: i64) = 0" by (simp only: of_int_0)
    then show False using assms by simp
  qed
  have ra: "- (2 ^ 63) \<le> ?a" "?a < 2 ^ 63" "- (2 ^ 63) \<le> ?b" "?b < 2 ^ 63"
    using sint_greater_eq [of a] sint_less [of a] sint_greater_eq [of b] sint_less [of b] by simp_all
  have mod: "\<bar>?a smod ?b\<bar> < \<bar>?b\<bar>" using b0 by (simp add: sdiv_abs)
  then have r: "sint (word_of_int (?a smod ?b) :: i64) = ?a smod ?b"
    using ra by (intro sint_small) auto
  have le: "\<bar>?a sdiv ?b\<bar> \<le> \<bar>?a\<bar>" 
    using b0 zdiv_mono2 [of "\<bar>?a\<bar>" 1 "\<bar>?b\<bar>"] by (simp add: sdiv_abs)
  have lt: "?a sdiv ?b < 2 ^ 63" 
  proof (rule ccontr)
    assume "\<not> ?a sdiv ?b < 2 ^ 63"
    then have "\<bar>?a\<bar> div \<bar>?b\<bar> = 2 ^ 63" "?a = - (2 ^ 63)" using le ra sdiv_abs(1) [OF b0, of ?a] by auto
    have "\<not> 2 \<le> \<bar>?b\<bar>"
    proof
      assume "2 \<le> \<bar>?b\<bar>"
      then have "\<bar>?a\<bar> div \<bar>?b\<bar> \<le> \<bar>?a\<bar> div 2" by (intro zdiv_mono2) simp_all
      then show False using \<open>\<bar>?a\<bar> div \<bar>?b\<bar> = 2 ^ 63\<close> \<open>?a = - (2 ^ 63)\<close> by simp
    qed
    then have "?b = 1 \<or> ?b = - 1" using b0 by linarith
    moreover have "?b \<noteq> 1" using \<open>\<not> ?a sdiv ?b < 2 ^ 63\<close> ra(2) by auto
    moreover have "a = word_of_int (- (2 ^ 63))" 
      unfolding \<open>?a = - (2 ^ 63)\<close> [symmetric] by simp
    then have "push_bit 1 a = 0" by simp
    moreover have "b = - 1" if "?b = - 1"
    proof -
      have "b = word_of_int (- 1)" unfolding that [symmetric] by simp
      then show ?thesis by simp
    qed
    ultimately show False using False by blast
  qed
  have q: "sint (word_of_int (?a sdiv ?b) :: i64) = ?a sdiv ?b"
    using ra le lt by (intro sint_small) auto
  have "word_of_int (?a sdiv ?b) * b + word_of_int (?a smod ?b) = (word_of_int (?a sdiv ?b * ?b + ?a smod ?b) :: i64)"
    by simp
  also have "\<dots> = a" by (simp only: sdiv_mult_smod_eq of_int_sint scast_id)
  finally show ?thesis
    using False assms mod by (auto simp: arith_binary_def divide64_def modulo64_def q r)
qed

text \<open>The assigning forms divide as the plain ones do.\<close>

lemma division_assign:
  "arith_binary TOK_DIV_ASSIGN a b s = arith_binary TOK_DIV a b s"
  "arith_binary TOK_REM_ASSIGN a b s = arith_binary TOK_REM a b s"
  by (simp_all add: arith_binary_def)

text \<open>
  C18. Division on every pair of 64-bit numbers, with \<^verbatim>\<open>/\<close>, \<^verbatim>\<open>%\<close>, \<^verbatim>\<open>/=\<close> and
  \<^verbatim>\<open>%=\<close>: a zero divisor gives the message and no value; otherwise quotient and remainder
  satisfy the division equation in 64 bits, the remainder is smaller than the divisor, and the
  quotient is C's, except for the least number divided by -1, which gives itself.
\<close>

theorem arith_division:
  fixes a b :: i64
  shows "if b = 0 then
      arith_binary TOK_DIV a b s = Inl Divide_by_zero \<and> arith_binary TOK_REM a b s = Inl Divide_by_zero
      \<and> arith_binary TOK_DIV_ASSIGN a b s = Inl Divide_by_zero \<and> arith_binary TOK_REM_ASSIGN a b s = Inl Divide_by_zero
    else (\<exists>q r. arith_binary TOK_DIV a b s = Inr q \<and> arith_binary TOK_REM a b s = Inr r
      \<and> arith_binary TOK_DIV_ASSIGN a b s = Inr q \<and> arith_binary TOK_REM_ASSIGN a b s = Inr r
      \<and> q * b + r = a \<and> \<bar>sint r\<bar> < \<bar>sint b\<bar>
      \<and> (sint a = - (2 ^ 63) \<and> b = - 1 \<or> sint q = sint a sdiv sint b))"
proof (cases "b = 0")
  case True
  then show ?thesis by (simp add: arith_binary_def)
next
  case False
  then show ?thesis
    using division_equation [OF False, of a s] unfolding division_assign by (simp only: if_False) blast
qed

theorem arith_division_witness:
  "(\<exists>q r. arith_binary TOK_DIV (- 7) 2 0 = Inr q \<and> arith_binary TOK_REM (- 7) 2 0 = Inr r \<and> q * 2 + r = - 7)
   \<and> arith_binary TOK_REM_ASSIGN 5 0 0 = Inl Divide_by_zero"
  using arith_division [of 2 "- 7" 0] arith_division [of 0 5 0] by auto

end
