(* ===== verification/Shell_Grammar.thy ===== *)
theory Shell_Grammar
  imports Shell_Math
begin

text \<open>
  The parser of \<^verbatim>\<open>shell/math.c\<close> against the grammar of arithmetic expressions: printing
  an expression and evaluating the text gives what the expression means, so the operator stack
  implements precedence and associativity, and the number stack is large enough for it. The
  grammar, the spellings, the levels of precedence and the meaning of the operators on integers
  are written down here on their own and share no table or function with the evaluator; lemmas
  compare the two.
\<close>

section \<open>Expressions\<close>

datatype aexp =
    Lit nat
  | Name string
  | Paren aexp
  | Unary operator aexp
  | Prefix operator string
  | Postfix operator string
  | Binary operator aexp aexp
  | Assign operator string aexp
  | Cond aexp aexp aexp

definition binary_ops :: "operator list" where
  "binary_ops =
    [TOK_COMMA, TOK_OR, TOK_AND, TOK_BOR, TOK_BXOR, TOK_BAND, TOK_EQ, TOK_NE, TOK_LT, TOK_GT, TOK_GE, TOK_LE,
     TOK_LSHIFT, TOK_RSHIFT, TOK_ADD, TOK_SUB, TOK_MUL, TOK_DIV, TOK_REM, TOK_EXPONENT]"

definition assign_ops :: "operator list" where
  "assign_ops =
    [TOK_ASSIGN, TOK_AND_ASSIGN, TOK_OR_ASSIGN, TOK_XOR_ASSIGN, TOK_PLUS_ASSIGN, TOK_MINUS_ASSIGN,
     TOK_LSHIFT_ASSIGN, TOK_RSHIFT_ASSIGN, TOK_MUL_ASSIGN, TOK_DIV_ASSIGN, TOK_REM_ASSIGN]"

definition unary_ops :: "operator list" where
  "unary_ops = [TOK_BNOT, TOK_NOT, TOK_UMINUS, TOK_UPLUS]"

definition letter :: "char \<Rightarrow> bool" where
  "letter c = (let n = of_char c :: u8 in 65 \<le> n \<and> n \<le> 90 \<or> 97 \<le> n \<and> n \<le> 122 \<or> c = CHR ''_'')"

definition digit :: "char \<Rightarrow> bool" where
  "digit c = (let n = of_char c :: u8 in 48 \<le> n \<and> n \<le> 57)"

definition valid_name :: "string \<Rightarrow> bool" where
  "valid_name v \<longleftrightarrow> v \<noteq> [] \<and> letter (hd v) \<and> list_all (\<lambda>c. letter c \<or> digit c) (tl v)"

text \<open>
  The level of an expression in the grammar (the higher, the tighter its operator binds), and where
  parentheses are needed.
\<close>

fun binary_level :: "operator \<Rightarrow> nat" where
  "binary_level TOK_COMMA = 1"
| "binary_level TOK_OR = 5"
| "binary_level TOK_AND = 6"
| "binary_level TOK_BOR = 7"
| "binary_level TOK_BXOR = 8"
| "binary_level TOK_BAND = 9"
| "binary_level TOK_EQ = 10"
| "binary_level TOK_NE = 10"
| "binary_level TOK_LT = 11"
| "binary_level TOK_GT = 11"
| "binary_level TOK_GE = 11"
| "binary_level TOK_LE = 11"
| "binary_level TOK_LSHIFT = 12"
| "binary_level TOK_RSHIFT = 12"
| "binary_level TOK_ADD = 13"
| "binary_level TOK_SUB = 13"
| "binary_level TOK_MUL = 14"
| "binary_level TOK_DIV = 14"
| "binary_level TOK_REM = 14"
| "binary_level TOK_EXPONENT = 15"
| "binary_level _ = 0"

fun level :: "aexp \<Rightarrow> nat" where
  "level (Lit n) = 20"
| "level (Name v) = 20"
| "level (Paren e) = 20"
| "level (Unary op e) = 16"
| "level (Prefix op v) = 16"
| "level (Postfix op v) = 16"
| "level (Binary op l r) = binary_level op"
| "level (Assign op v e) = 2"
| "level (Cond c a b) = 4"

fun grammatical :: "aexp \<Rightarrow> bool" where
  "grammatical (Lit n) = (n < 2 ^ 64)"
| "grammatical (Name v) = valid_name v"
| "grammatical (Paren e) = grammatical e"
| "grammatical (Unary op e) = (op \<in> set unary_ops \<and> grammatical e \<and> 16 \<le> level e)"
| "grammatical (Prefix op v) = (op \<in> {TOK_PRE_INC, TOK_PRE_DEC} \<and> valid_name v)"
| "grammatical (Postfix op v) = (op \<in> {TOK_POST_INC, TOK_POST_DEC} \<and> valid_name v)"
| "grammatical (Binary op l r) =
     (op \<in> set binary_ops \<and> grammatical l \<and> grammatical r \<and>
      (if op = TOK_EXPONENT then level l > 15 \<and> level r \<ge> 15 else level l \<ge> binary_level op \<and> level r > binary_level op))"
| "grammatical (Assign op v e) = (op \<in> set assign_ops \<and> valid_name v \<and> grammatical e \<and> 2 \<le> level e)"
| "grammatical (Cond c a b) =
     (grammatical c \<and> grammatical a \<and> grammatical b \<and> 4 < level c \<and> 4 < level a \<and> 4 \<le> level b)"

text \<open>The text of an expression, a blank behind every token.\<close>

fun spell :: "operator \<Rightarrow> string" where
  "spell TOK_COMMA = '',''"
| "spell TOK_OR = ''||''"
| "spell TOK_AND = ''&&''"
| "spell TOK_BOR = ''|''"
| "spell TOK_BXOR = ''^''"
| "spell TOK_BAND = ''&''"
| "spell TOK_EQ = ''==''"
| "spell TOK_NE = ''!=''"
| "spell TOK_LT = ''<''"
| "spell TOK_GT = ''>''"
| "spell TOK_GE = ''>=''"
| "spell TOK_LE = ''<=''"
| "spell TOK_LSHIFT = ''<<''"
| "spell TOK_RSHIFT = ''>>''"
| "spell TOK_ADD = ''+''"
| "spell TOK_SUB = ''-''"
| "spell TOK_MUL = ''*''"
| "spell TOK_DIV = ''/''"
| "spell TOK_REM = ''%''"
| "spell TOK_EXPONENT = ''**''"
| "spell TOK_ASSIGN = ''=''"
| "spell TOK_AND_ASSIGN = ''&=''"
| "spell TOK_OR_ASSIGN = ''|=''"
| "spell TOK_XOR_ASSIGN = ''^=''"
| "spell TOK_PLUS_ASSIGN = ''+=''"
| "spell TOK_MINUS_ASSIGN = ''-=''"
| "spell TOK_LSHIFT_ASSIGN = ''<<=''"
| "spell TOK_RSHIFT_ASSIGN = ''>>=''"
| "spell TOK_MUL_ASSIGN = ''*=''"
| "spell TOK_DIV_ASSIGN = ''/=''"
| "spell TOK_REM_ASSIGN = ''%=''"
| "spell TOK_BNOT = ''~''"
| "spell TOK_NOT = ''!''"
| "spell TOK_UMINUS = ''-''"
| "spell TOK_UPLUS = ''+''"
| "spell TOK_PRE_INC = ''++''"
| "spell TOK_PRE_DEC = ''--''"
| "spell TOK_POST_INC = ''++''"
| "spell TOK_POST_DEC = ''--''"
| "spell TOK_CONDITIONAL = ''?''"
| "spell TOK_CONDITIONAL_SEP = '':''"
| "spell TOK_LPAREN = ''(''"
| "spell TOK_RPAREN = '')''"
| "spell _ = []"

fun print_aexp :: "aexp \<Rightarrow> string" where
  "print_aexp (Lit n) = show_nat n @ '' ''"
| "print_aexp (Name v) = v @ '' ''"
| "print_aexp (Paren e) = ''( '' @ print_aexp e @ '') ''"
| "print_aexp (Unary op e) = spell op @ '' '' @ print_aexp e"
| "print_aexp (Prefix op v) = spell op @ '' '' @ v @ '' ''"
| "print_aexp (Postfix op v) = v @ '' '' @ spell op @ '' ''"
| "print_aexp (Binary op l r) = print_aexp l @ spell op @ '' '' @ print_aexp r"
| "print_aexp (Assign op v e) = v @ '' '' @ spell op @ '' '' @ print_aexp e"
| "print_aexp (Cond c a b) = print_aexp c @ ''? '' @ print_aexp a @ '': '' @ print_aexp b"

text \<open>
  The meaning. An operand is a number or still a variable, whose value is looked up when an
  operator needs it: the right one first.
\<close>

datatype operand = Value i64 | Variable string

definition resolve :: "(string list \<Rightarrow> string \<Rightarrow> i64 arith) \<Rightarrow> string list \<Rightarrow> operand \<Rightarrow> i64 arith" where
  "resolve ev names x = (\<lambda>vars.
     case x of
       Value w \<Rightarrow> ret w vars
     | Variable v \<Rightarrow>
         (case vars v of
            None \<Rightarrow> ret 0 vars
          | Some p \<Rightarrow> if v \<in> set names then stop Recursion_loop vars else ev (v # names) p vars))"

definition assign :: "string \<Rightarrow> i64 \<Rightarrow> unit arith" where
  "assign v w = (\<lambda>vars. ret () (vars(v \<mapsto> fmt_lld w)))"

definition lift_result :: "arith_stop + 'a \<Rightarrow> 'a arith" where
  "lift_result r = (case r of Inl e \<Rightarrow> stop e | Inr x \<Rightarrow> ret x)"

fun unary_meaning :: "operator \<Rightarrow> i64 \<Rightarrow> i64" where
  "unary_meaning TOK_UMINUS a = - a"
| "unary_meaning TOK_NOT a = (if a = 0 then 1 else 0)"
| "unary_meaning TOK_BNOT a = NOT a"
| "unary_meaning _ a = a"

text \<open>
  The binary operators on unbounded integers. Division truncates towards zero; a shift count is taken
  modulo 64 and a right shift keeps the sign.
\<close>

definition truth :: "bool \<Rightarrow> int" where
  "truth b = (if b then 1 else 0)"

fun binary_value :: "operator \<Rightarrow> int \<Rightarrow> int \<Rightarrow> arith_stop + int" where
  "binary_value TOK_COMMA a b = Inr b"
| "binary_value TOK_OR a b = Inr (truth (a \<noteq> 0 \<or> b \<noteq> 0))"
| "binary_value TOK_AND a b = Inr (truth (a \<noteq> 0 \<and> b \<noteq> 0))"
| "binary_value TOK_BOR a b = Inr (a OR b)"
| "binary_value TOK_BXOR a b = Inr (a XOR b)"
| "binary_value TOK_BAND a b = Inr (a AND b)"
| "binary_value TOK_EQ a b = Inr (truth (a = b))"
| "binary_value TOK_NE a b = Inr (truth (a \<noteq> b))"
| "binary_value TOK_LT a b = Inr (truth (a < b))"
| "binary_value TOK_GT a b = Inr (truth (b < a))"
| "binary_value TOK_LE a b = Inr (truth (a \<le> b))"
| "binary_value TOK_GE a b = Inr (truth (b \<le> a))"
| "binary_value TOK_LSHIFT a b = Inr (a * 2 ^ nat (b mod 64))"
| "binary_value TOK_RSHIFT a b = Inr (a div 2 ^ nat (b mod 64))"
| "binary_value TOK_ADD a b = Inr (a + b)"
| "binary_value TOK_SUB a b = Inr (a - b)"
| "binary_value TOK_MUL a b = Inr (a * b)"
| "binary_value TOK_DIV a b = (if b = 0 then Inl Divide_by_zero else Inr (a sdiv b))"
| "binary_value TOK_REM a b = (if b = 0 then Inl Divide_by_zero else Inr (a smod b))"
| "binary_value TOK_EXPONENT a b = (if b < 0 then Inl Negative_exponent else Inr (a ^ nat b))"
| "binary_value _ a b = Inr a"

text \<open>On 64-bit numbers: the exact value of the signed operands, cut to 64 bits.\<close>

definition binary_meaning :: "operator \<Rightarrow> i64 \<Rightarrow> i64 \<Rightarrow> arith_stop + i64" where
  "binary_meaning op a b = map_sum id of_int (binary_value op (sint a) (sint b))"

text \<open>The operator an assignment applies.\<close>

fun plain_op :: "operator \<Rightarrow> operator" where
  "plain_op TOK_AND_ASSIGN = TOK_BAND"
| "plain_op TOK_OR_ASSIGN = TOK_BOR"
| "plain_op TOK_XOR_ASSIGN = TOK_BXOR"
| "plain_op TOK_PLUS_ASSIGN = TOK_ADD"
| "plain_op TOK_MINUS_ASSIGN = TOK_SUB"
| "plain_op TOK_LSHIFT_ASSIGN = TOK_LSHIFT"
| "plain_op TOK_RSHIFT_ASSIGN = TOK_RSHIFT"
| "plain_op TOK_MUL_ASSIGN = TOK_MUL"
| "plain_op TOK_DIV_ASSIGN = TOK_DIV"
| "plain_op TOK_REM_ASSIGN = TOK_REM"
| "plain_op op = op"

text \<open>
  The meaning of an expression. As in the code, and other than in C, both branches of
  \<^verbatim>\<open>?:\<close> and both sides of \<^verbatim>\<open>&&\<close> and \<^verbatim>\<open>||\<close> are evaluated and do their assignments.
\<close>

fun meaning :: "(string list \<Rightarrow> string \<Rightarrow> i64 arith) \<Rightarrow> string list \<Rightarrow> aexp \<Rightarrow> operand arith" where
  "meaning ev names (Lit n) = ret (Value (of_nat n))"
| "meaning ev names (Name v) = ret (Variable v)"
| "meaning ev names (Paren e) = meaning ev names e"
| "meaning ev names (Unary op e) =
     abind (meaning ev names e) (\<lambda>x. abind (resolve ev names x) (\<lambda>a. ret (Value (unary_meaning op a))))"
| "meaning ev names (Prefix op v) =
     abind (resolve ev names (Variable v)) (\<lambda>a.
       let a' = (if op = TOK_PRE_INC then a + 1 else a - 1) in abind (assign v a') (\<lambda>_. ret (Value a')))"
| "meaning ev names (Postfix op v) =
     abind (resolve ev names (Variable v)) (\<lambda>a.
       let a' = (if op = TOK_POST_INC then a + 1 else a - 1) in abind (assign v a') (\<lambda>_. ret (Value a)))"
| "meaning ev names (Binary op l r) =
     abind (meaning ev names l) (\<lambda>x. abind (meaning ev names r) (\<lambda>y.
       abind (resolve ev names y) (\<lambda>b. abind (resolve ev names x) (\<lambda>a.
         abind (lift_result (binary_meaning op a b)) (\<lambda>c. ret (Value c))))))"
| "meaning ev names (Assign op v e) =
     abind (meaning ev names e) (\<lambda>y. abind (resolve ev names y) (\<lambda>b.
       abind (if op = TOK_ASSIGN then ret b
              else abind (resolve ev names (Variable v)) (\<lambda>a. lift_result (binary_meaning (plain_op op) a b)))
         (\<lambda>c. abind (assign v c) (\<lambda>_. ret (Value c)))))"
| "meaning ev names (Cond c a b) =
     abind (meaning ev names c) (\<lambda>x. abind (meaning ev names a) (\<lambda>y. abind (meaning ev names b) (\<lambda>z.
       abind (resolve ev names z) (\<lambda>vb. abind (resolve ev names y) (\<lambda>va. abind (resolve ev names x) (\<lambda>vc.
         ret (Value (if vc \<noteq> 0 then va else vb))))))))"

section \<open>The evaluator's tables and operators against the grammar's\<close>

lemma level_binary: "op \<in> set binary_ops \<Longrightarrow> binary_level op = PREC op"
  by (auto simp: binary_ops_def)

lemma name_chars: "is_name c = letter c" "is_in_name c = (letter c \<or> digit c)"
proof -
  have name: "(b OR 0x20) - 97 \<le> 25 \<longleftrightarrow> 65 \<le> b \<and> b \<le> 90 \<or> 97 \<le> b \<and> b \<le> 122" for b :: u8
    by (rule u8_all [where P = "\<lambda>b. (b OR 0x20) - 97 \<le> 25 \<longleftrightarrow> 65 \<le> b \<and> b \<le> 90 \<or> 97 \<le> b \<and> b \<le> 122"]) code_simp
  have num: "b - 48 \<le> 9 \<longleftrightarrow> 48 \<le> b \<and> b \<le> 57" for b :: u8
    by (rule u8_all [where P = "\<lambda>b. b - 48 \<le> 9 \<longleftrightarrow> 48 \<le> b \<and> b \<le> 57"]) code_simp
  show "is_name c = letter c" "is_in_name c = (letter c \<or> digit c)"
    using name [of "of_char c"] num [of "of_char c"]
    by (auto simp: is_name_def is_in_name_def isalpha_def isdigit_def letter_def digit_def Let_def)
qed

lemma valid_name_code: "valid_name v \<longleftrightarrow> v \<noteq> [] \<and> is_name (hd v) \<and> list_all is_in_name (tl v)"
  by (simp add: valid_name_def name_chars list_all_iff)

lemma shift_count: "unat (b AND 63 :: i64) = nat (sint b mod 64)"
proof -
  have "b AND 63 = take_bit 6 b" by (simp add: take_bit_eq_mask mask_eq_exp_minus_1)
  then have "uint (b AND 63) = take_bit 6 (uint b)" by (simp add: unsigned_take_bit_eq)
  also have "\<dots> = take_bit 6 (sint b)" by (simp add: sint_uint take_bit_signed_take_bit)
  finally show ?thesis by (simp add: take_bit_eq_mod unat_eq_nat_uint)
qed

lemma exponent_power: "exponent_loop rez n c = c * rez ^ n"
  by (induction n arbitrary: c) (simp_all add: ac_simps)

lemma nat_exponent:
  assumes "0 \<le> sint (b :: i64)"
  shows "unat b = nat (sint b)"
proof -
  have "uint b = sint b mod 2 ^ 64" by (simp add: uint_sint [of b] take_bit_eq_mod)
  moreover have "sint b < 2 ^ 64" using sint_less [of b] by simp
  ultimately show ?thesis using assms by (simp add: unat_eq_nat_uint)
qed

lemma sint_zero: "sint (a :: i64) = 0 \<longleftrightarrow> a = 0"
  by (rule signed_eq_0_iff)

lemma sint_same: "sint (a :: i64) = sint b \<longleftrightarrow> a = b"
  by (auto dest: arg_cong [of "sint a" "sint b" "word_of_int :: int \<Rightarrow> i64"])

lemma right_shift_div: "signed_drop_bit n (a :: i64) = word_of_int (sint a div 2 ^ n)"
proof -
  have "sint a div 2 ^ n = sint (signed_drop_bit n a)" by (simp add: sint_signed_drop_bit_eq drop_bit_eq_div)
  then show ?thesis by simp
qed

lemma division_meaning:
  fixes a b :: i64
  assumes "b \<noteq> 0"
  shows "arith_binary TOK_DIV a b s = Inr (word_of_int (sint a sdiv sint b))"
    and "arith_binary TOK_REM a b s = Inr (word_of_int (sint a smod sint b))"
proof -
  have "word_of_int (sint a sdiv sint (1 :: i64)) = (word_of_int (sint a sdiv sint (- 1 :: i64)) :: i64)
      \<and> sint a smod sint (1 :: i64) = sint a smod sint (- 1 :: i64)" if "push_bit 1 a = 0"
  proof -
    have "a + a = 0" using that by (simp add: mult_2 [symmetric] mult.commute)
    then have "- a = a" by (simp only: neg_eq_iff_add_eq_0)
    then show ?thesis by (simp add: signed_divide_int_def signed_modulo_int_def sgn_if)
  qed
  then show "arith_binary TOK_DIV a b s = Inr (word_of_int (sint a sdiv sint b))"
    and "arith_binary TOK_REM a b s = Inr (word_of_int (sint a smod sint b))"
    using assms by (auto simp: arith_binary_def divide64_def modulo64_def Let_def)
qed

lemma arith_binary_ops:
  "arith_binary TOK_COMMA a b s = Inr b"
  "arith_binary TOK_OR a b s = Inr (of_truth (b \<noteq> 0 \<or> a \<noteq> 0))"
  "arith_binary TOK_AND a b s = Inr (of_truth (a \<noteq> 0 \<and> b \<noteq> 0))"
  "arith_binary TOK_BOR a b s = Inr (a OR b)"
  "arith_binary TOK_BXOR a b s = Inr (a XOR b)"
  "arith_binary TOK_BAND a b s = Inr (a AND b)"
  "arith_binary TOK_EQ a b s = Inr (of_truth (a = b))"
  "arith_binary TOK_NE a b s = Inr (of_truth (a \<noteq> b))"
  "arith_binary TOK_LT a b s = Inr (of_truth (sint a < sint b))"
  "arith_binary TOK_GT a b s = Inr (of_truth (sint b < sint a))"
  "arith_binary TOK_LE a b s = Inr (of_truth (sint a \<le> sint b))"
  "arith_binary TOK_GE a b s = Inr (of_truth (sint b \<le> sint a))"
  "arith_binary TOK_LSHIFT a b s = Inr (push_bit (unat (b AND 63)) a)"
  "arith_binary TOK_RSHIFT a b s = Inr (signed_drop_bit (unat (b AND 63)) a)"
  "arith_binary TOK_ADD a b s = Inr (a + b)"
  "arith_binary TOK_SUB a b s = Inr (a - b)"
  "arith_binary TOK_MUL a b s = Inr (a * b)"
  "arith_binary TOK_EXPONENT a b s =
     (if sint b < 0 then Inl Negative_exponent else Inr (exponent_loop a (unat b) 1))"
  "arith_binary TOK_DIV a 0 s = Inl Divide_by_zero" "arith_binary TOK_REM a 0 s = Inl Divide_by_zero"
  by (simp_all add: arith_binary_def)

lemma truth_word: "word_of_int (truth p) = of_truth p"
  by (simp add: truth_def of_truth_def)

lemma bits_of_int:
  "(word_of_int (sint a AND sint b) :: i64) = a AND b" "(word_of_int (sint a OR sint b) :: i64) = a OR b"
  "(word_of_int (sint a XOR sint b) :: i64) = a XOR b" for a b :: i64
  by (simp_all add: of_int_and_eq of_int_or_eq of_int_xor_eq)

text \<open>Every operator of the evaluator computes the exact value cut to 64 bits.\<close>

lemma binary_meaning_code:
  assumes "op \<in> set binary_ops"
  shows "arith_binary op a b s = binary_meaning op a b"
proof (cases "op \<in> {TOK_DIV, TOK_REM}")
  case True
  then show ?thesis
    by (cases "b = 0") (auto simp: arith_binary_ops division_meaning binary_meaning_def sint_zero)
next
  case False
  have "op \<in> set (filter (\<lambda>op. op \<notin> {TOK_DIV, TOK_REM}) binary_ops)" using assms False by simp
  then have "op \<in> {TOK_COMMA, TOK_OR, TOK_AND, TOK_BOR, TOK_BXOR, TOK_BAND, TOK_EQ, TOK_NE, TOK_LT, TOK_GT, TOK_GE, TOK_LE,
     TOK_LSHIFT, TOK_RSHIFT, TOK_ADD, TOK_SUB, TOK_MUL, TOK_EXPONENT}"
    by (simp add: binary_ops_def)
  then show ?thesis
    unfolding binary_meaning_def
    by (elim insertE emptyE) (simp_all add: arith_binary_ops truth_word sint_zero sint_same bits_of_int disj_commute
        shift_count right_shift_div push_bit_eq_mult exponent_power nat_exponent)
qed

lemma arith_binary_assign_ops:
  "arith_binary TOK_ASSIGN a b s = Inr b"
  "arith_binary TOK_AND_ASSIGN a b s = arith_binary TOK_BAND a b s"
  "arith_binary TOK_OR_ASSIGN a b s = arith_binary TOK_BOR a b s"
  "arith_binary TOK_XOR_ASSIGN a b s = arith_binary TOK_BXOR a b s"
  "arith_binary TOK_PLUS_ASSIGN a b s = arith_binary TOK_ADD a b s"
  "arith_binary TOK_MINUS_ASSIGN a b s = arith_binary TOK_SUB a b s"
  "arith_binary TOK_LSHIFT_ASSIGN a b s = arith_binary TOK_LSHIFT a b s"
  "arith_binary TOK_RSHIFT_ASSIGN a b s = arith_binary TOK_RSHIFT a b s"
  "arith_binary TOK_MUL_ASSIGN a b s = arith_binary TOK_MUL a b s"
  by (simp_all add: arith_binary_def)

lemma assign_meaning_code:
  assumes "op \<in> set assign_ops"
  shows "arith_binary op a b s = (if op = TOK_ASSIGN then Inr b else binary_meaning (plain_op op) a b)"
proof -
  have "arith_binary op a b s = (if op = TOK_ASSIGN then Inr b else arith_binary (plain_op op) a b s)"
    using assms unfolding assign_ops_def
    by (simp only: list.set, elim insertE emptyE) (simp_all add: arith_binary_assign_ops division_assign)
  moreover have "op \<noteq> TOK_ASSIGN \<Longrightarrow> plain_op op \<in> set binary_ops"
    using assms by (auto simp: assign_ops_def binary_ops_def)
  ultimately show ?thesis using binary_meaning_code by auto
qed

section \<open>Reading the printed tokens\<close>

lemma abind_assoc: "abind (abind m f) g = abind m (\<lambda>x. abind (f x) g)"
  by (rule ext) (simp add: abind_def split: prod.split sum.split)

lemma abind_ret: "abind m ret = m" "abind m (\<lambda>x. ret x) = m"
  by (rule ext, simp add: abind_def ret_def split: prod.split sum.split)+

lemma name_not_space: "is_name c \<Longrightarrow> \<not> is_space c"
proof -
  assume name: "is_name c"
  have "\<not> ((b OR 0x20) - 97 \<le> 25 \<and> b - 9 \<le> 4)" for b :: u8
    by (rule u8_all [where P = "\<lambda>b. \<not> ((b OR 0x20) - 97 \<le> 25 \<and> b - 9 \<le> 4)"]) code_simp
  from this [of "of_char c"] show ?thesis
    using name by (auto simp: is_name_def isalpha_def is_space_def)
qed

lemma next_token_name:
  assumes "valid_name v" "rest = [] \<or> hd rest = CHR '' ''"
  shows "next_token l ns (v @ rest) = (T_name v, rest)"
proof -
  obtain c s where v: "v = c # s" "is_name c" "list_all is_in_name s"
    using assms(1) by (cases v) (auto simp: valid_name_code)
  have blank: "\<not> is_in_name CHR '' ''" by (simp add: is_in_name_def isalpha_def isdigit_def)
  have "takeWhile is_in_name (s @ rest) = s" "dropWhile is_in_name (s @ rest) = rest"
    using v(3) assms(2) blank by (cases rest; simp add: takeWhile_append2 dropWhile_append2 list_all_iff)+
  then show ?thesis
    using v name_not_space [OF v(2)] by (simp add: next_token_def endofname_def)
qed

lemma next_token_blank: "next_token l ns (CHR '' '' # s) = next_token l ns s"
  by (simp add: next_token_def is_space_def)

lemma eval_loop_blank: "eval_loop ev names n closed (l, ns, ops) (CHR '' '' # s) = eval_loop ev names n closed (l, ns, ops) s"
  by (simp only: eval_loop.simps [of ev names n closed l ns ops "CHR '' '' # s"] eval_loop.simps [of ev names n closed l ns ops s]
      next_token_blank)

lemma op_tokens_read: "\<forall>(p, tok) \<in> set op_tokens. find_op op_tokens (p @ CHR '' '' # rest) = Some (tok, CHR '' '' # rest)"
  by (simp add: op_tokens_def)

lemma op_tokens_start:
  "list_all (\<lambda>(p, tok). p \<noteq> [] \<and> \<not> is_space (hd p) \<and> \<not> is_name (hd p) \<and> \<not> isdigit (hd p)
     \<and> (tok \<notin> {TOK_POST_INC, TOK_POST_DEC} \<longrightarrow> hd p \<in> {CHR ''+'', CHR ''-''} \<longrightarrow> tl p = [] \<or> hd (tl p) \<noteq> hd p)) op_tokens"
  by code_simp

lemma op_token_start:
  assumes "(p, tok) \<in> set op_tokens"
  shows "p \<noteq> [] \<and> \<not> is_space (hd p) \<and> \<not> is_name (hd p) \<and> \<not> isdigit (hd p)
    \<and> (tok \<notin> {TOK_POST_INC, TOK_POST_DEC} \<longrightarrow> hd p \<in> {CHR ''+'', CHR ''-''} \<longrightarrow> tl p = [] \<or> hd (tl p) \<noteq> hd p)"
  using bspec [OF op_tokens_start [unfolded list_all_iff] assms] by simp

lemma spelled_start: "(p, tok) \<in> set op_tokens \<Longrightarrow> \<exists>c s. p = c # s \<and> \<not> is_space c"
  using op_token_start [of p tok] by (cases p) simp_all

text \<open>
  A printed operator is read as one token, unless a number literal and its doubled sign meet.
\<close>

lemma next_token_op:
  assumes "(p, tok) \<in> set op_tokens" "number_on_top l ns"
    and "l = TOK_NUM \<Longrightarrow> tok \<in> {TOK_POST_INC, TOK_POST_DEC} \<Longrightarrow> var (hd ns) \<noteq> None"
  shows "next_token l ns (p @ CHR '' '' # rest) = (T_op tok, CHR '' '' # rest)"
proof -
  have start: "p \<noteq> []" "\<not> is_space (hd p)" "\<not> is_name (hd p)" "\<not> isdigit (hd p)"
      "tok \<notin> {TOK_POST_INC, TOK_POST_DEC} \<longrightarrow> hd p \<in> {CHR ''+'', CHR ''-''} \<longrightarrow> tl p = [] \<or> hd (tl p) \<noteq> hd p"
    using op_token_start [OF assms(1)] by blast+
  have read: "find_op op_tokens (p @ CHR '' '' # rest) = Some (tok, CHR '' '' # rest)"
    using op_tokens_read [of rest] assms(1) by auto
  obtain c r where p: "p = c # r" using start(1) by (cases p) auto
  have sign: "\<not> (l = TOK_NUM \<and> var (hd ns) = None \<and> (c = CHR ''+'' \<or> c = CHR ''-'') \<and> hd (r @ CHR '' '' # rest) = c)"
    using assms(3) start(5) p by (cases r) auto
  have "\<not> (l = TOK_NUM \<and> ns = [])" using assms(2) by (auto simp: number_on_top_def)
  then show ?thesis
    using start(2,3,4) read sign unfolding p by (auto simp: next_token_def endofname_def)
qed

section \<open>Slots of the number stack\<close>

fun slot :: "operand \<Rightarrow> var_or_num" where
  "slot (Value w) = \<lparr>val = w, second_val = 0, second_val_present = False, var = None\<rparr>"
| "slot (Variable v) = \<lparr>val = 0, second_val = 0, second_val_present = False, var = Some v\<rparr>"

lemma slot_simps [simp]: "second_val_present (slot x) = False" "second_val (slot x) = 0"
  by (cases x; simp)+

lemma slot_var [simp]: "var (slot (Value w)) = None" "var (slot (Variable v)) = Some v" "val (slot (Value w)) = w"
  "(slot (Variable v))\<lparr>val := 0\<rparr> = slot (Variable v)"
  by simp_all

lemma lookup_slot:
  "arith_lookup_val ev names (slot x) = abind (resolve ev names x) (\<lambda>w. ret ((slot x)\<lparr>val := w\<rparr>))"
  by (rule ext, cases x)
    (auto simp: arith_lookup_val_def resolve_def abind_def ret_def stop_def split: option.split prod.split sum.split)

lemma slot_update [simp]: "(slot x)\<lparr>val := w, var := None\<rparr> = slot (Value w)" "(slot x)\<lparr>val := a, val := b\<rparr> = (slot x)\<lparr>val := b\<rparr>"
  "(slot x)\<lparr>val := w, second_val_present := p, second_val := u, var := None\<rparr> = (slot (Value w))\<lparr>second_val_present := p, second_val := u\<rparr>"
  by (cases x; simp)+

declare slot.simps [simp del]

lemma store_plain: "\<not> is_assign_op op \<Longrightarrow> arith_store op rez t = ret (t\<lparr>val := rez, var := None\<rparr>)"
  by (rule ext) (simp add: arith_store_def)

lemma apply_unary:
  assumes "op \<in> set unary_ops"
  shows "arith_apply ev names op (slot x # ns) = abind (resolve ev names x) (\<lambda>a. ret (slot (Value (unary_meaning op a)) # ns))"
proof -
  have "arith_unary op a = Some (unary_meaning op a)" "\<not> is_assign_op op" for a
    using assms by (auto simp: of_truth_def unary_ops_def arith_unary_def is_assign_op_def fix_assignment_prec_def UNARYPREC_def PREC_PRE_def PREC_POST_def)
  then show ?thesis
    by (simp add: arith_apply_def lookup_slot abind_assoc store_plain)
qed

lemma store_assign:
  assumes "is_assign_op op" "var t = Some v"
  shows "arith_store op rez t = abind (assign v rez) (\<lambda>_.
    ret (t\<lparr>val := if op = TOK_POST_INC then rez - 1 else if op = TOK_POST_DEC then rez + 1 else rez, var := None\<rparr>))"
  by (rule ext) (simp add: arith_store_def assms assign_def abind_def ret_def Let_def)

lemma apply_step:
  assumes "op \<in> {TOK_PRE_INC, TOK_PRE_DEC, TOK_POST_INC, TOK_POST_DEC}"
  shows "arith_apply ev names op (slot (Variable v) # ns) =
    abind (resolve ev names (Variable v)) (\<lambda>a.
       let a' = (if op \<in> {TOK_PRE_INC, TOK_POST_INC} then a + 1 else a - 1) in
       abind (assign v a') (\<lambda>_. ret (slot (Value (if op \<in> {TOK_PRE_INC, TOK_PRE_DEC} then a' else a)) # ns)))"
proof -
  have un: "arith_unary op a = Some (if op \<in> {TOK_PRE_INC, TOK_POST_INC} then a + 1 else a - 1)" for a
    using assms by (auto simp: arith_unary_def)
  have st: "is_assign_op op"
    using assms by (auto simp: is_assign_op_def fix_assignment_prec_def UNARYPREC_def PREC_PRE_def PREC_POST_def)
  show ?thesis
    using assms by (auto simp: arith_apply_def lookup_slot abind_assoc un store_assign [OF st] Let_def)
qed

lemma unary_none:
  "op \<in> set binary_ops \<union> set assign_ops \<union> {TOK_CONDITIONAL, TOK_CONDITIONAL_SEP} \<Longrightarrow> arith_unary op a = None"
  by (auto simp: binary_ops_def assign_ops_def arith_unary_def)

lemma apply_binary:
  assumes "op \<in> set binary_ops"
  shows "arith_apply ev names op (slot y # slot x # ns) =
    abind (resolve ev names y) (\<lambda>b. abind (resolve ev names x) (\<lambda>a.
      abind (lift_result (binary_meaning op a b)) (\<lambda>c. ret (slot (Value c) # ns))))"
proof -
  have op: "\<not> is_assign_op op" "op \<noteq> TOK_CONDITIONAL" "op \<noteq> TOK_CONDITIONAL_SEP" "op \<noteq> TOK_ASSIGN"
    using assms by (auto simp: binary_ops_def is_assign_op_def fix_assignment_prec_def UNARYPREC_def PREC_PRE_def PREC_POST_def)
  have res: "(case r of Inl e \<Rightarrow> stop e | Inr rez \<Rightarrow> abind (arith_store op rez ((slot x)\<lparr>val := a\<rparr>)) (\<lambda>t. ret (t # ns)))
      = abind (lift_result r) (\<lambda>c. ret (slot (Value c) # ns))" for r a
    by (cases r) (simp_all add: lift_result_def store_plain [OF op(1)])
  show ?thesis
    using assms op by (simp add: arith_apply_def lookup_slot abind_assoc unary_none arith_two_def res binary_meaning_code)
qed

lemma apply_assign_code:
  assumes "op \<in> set assign_ops"
  shows "arith_apply ev names op (slot y # slot (Variable v) # ns) =
    abind (resolve ev names y) (\<lambda>b. abind (if op = TOK_ASSIGN then ret 0 else resolve ev names (Variable v)) (\<lambda>a.
      abind (lift_result (arith_binary op a b 0)) (\<lambda>c. abind (assign v c) (\<lambda>_. ret (slot (Value c) # ns)))))"
proof -
  have op: "is_assign_op op" "op \<noteq> TOK_CONDITIONAL" "op \<noteq> TOK_CONDITIONAL_SEP" "op \<noteq> TOK_POST_INC" "op \<noteq> TOK_POST_DEC"
    using assms by (auto simp: assign_ops_def is_assign_op_def fix_assignment_prec_def)
  have res: "(case r of Inl e \<Rightarrow> stop e | Inr rez \<Rightarrow> abind (arith_store op rez ((slot (Variable v))\<lparr>val := a\<rparr>)) (\<lambda>t. ret (t # ns)))
      = abind (lift_result r) (\<lambda>c. abind (assign v c) (\<lambda>_. ret (slot (Value c) # ns)))" for r a
    using op by (cases r) (simp_all add: lift_result_def store_assign [OF op(1)] abind_assoc)
  have lookup: "abind (if op \<noteq> TOK_ASSIGN then arith_lookup_val ev names (slot (Variable v)) else ret (slot (Variable v))) f
      = abind (if op = TOK_ASSIGN then ret 0 else resolve ev names (Variable v)) (\<lambda>a. f ((slot (Variable v))\<lparr>val := a\<rparr>))" for f
    by (simp add: lookup_slot abind_assoc)
  show ?thesis
    using assms op(2,3) unfolding arith_apply_def list.case lookup_slot abind_assoc
    by (simp add: unary_none arith_two_def lookup res)
qed

lemma apply_assign:
  assumes "op \<in> set assign_ops"
  shows "arith_apply ev names op (slot y # slot (Variable v) # ns) =
    abind (resolve ev names y) (\<lambda>b.
      abind (if op = TOK_ASSIGN then ret b
             else abind (resolve ev names (Variable v)) (\<lambda>a. lift_result (binary_meaning (plain_op op) a b)))
        (\<lambda>c. abind (assign v c) (\<lambda>_. ret (slot (Value c) # ns))))"
proof (cases "op = TOK_ASSIGN")
  case True
  then show ?thesis
    unfolding apply_assign_code [OF assms] assign_meaning_code [OF assms] by (simp add: lift_result_def abind_assoc)
next
  case False
  then show ?thesis
    unfolding apply_assign_code [OF assms] assign_meaning_code [OF assms] by (simp add: abind_assoc)
qed

lemma apply_conditional:
  shows "abind (arith_apply ev names TOK_CONDITIONAL_SEP (slot z # slot y # slot x # ns)) (arith_apply ev names TOK_CONDITIONAL) =
    abind (resolve ev names z) (\<lambda>vb. abind (resolve ev names y) (\<lambda>va. abind (resolve ev names x) (\<lambda>vc.
      ret (slot (Value (if vc \<noteq> 0 then va else vb)) # ns))))"
proof -
  have op: "\<not> is_assign_op TOK_CONDITIONAL" "\<not> is_assign_op TOK_CONDITIONAL_SEP"
    by (simp_all add: is_assign_op_def fix_assignment_prec_def UNARYPREC_def PREC_PRE_def PREC_POST_def)
  have sep: "arith_apply ev names TOK_CONDITIONAL_SEP (slot z # slot y # slot x # ns)
      = abind (resolve ev names z) (\<lambda>vb. abind (resolve ev names y) (\<lambda>va.
          ret ((slot (Value va))\<lparr>second_val_present := True, second_val := vb\<rparr> # slot x # ns)))"
    by (simp add: arith_apply_def lookup_slot abind_assoc unary_none arith_two_def store_plain [OF op(2)])
  have cond: "arith_apply ev names TOK_CONDITIONAL ((slot (Value va))\<lparr>second_val_present := True, second_val := vb\<rparr> # slot x # ns)
      = abind (resolve ev names x) (\<lambda>vc. ret (slot (Value (if vc \<noteq> 0 then va else vb)) # ns))" for va vb
    by (simp add: arith_apply_def lookup_number lookup_slot abind_assoc unary_none arith_two_def store_plain [OF op(1)] arith_binary_def)
  show ?thesis by (simp add: sep cond abind_assoc)
qed

section \<open>Half-read expressions\<close>

text \<open>
  Operators that wait on the stack are applied from the top. \<open>partial\<close> is what reading an
  expression has done when its last token is on a stack: the number stack, the operators that wait,
  and the last token.
\<close>

fun reduce :: "(string list \<Rightarrow> string \<Rightarrow> i64 arith) \<Rightarrow> string list \<Rightarrow> operator list \<Rightarrow> var_or_num list \<Rightarrow> var_or_num list arith" where
  "reduce ev names [] ns = ret ns"
| "reduce ev names (op # ops) ns = abind (arith_apply ev names op ns) (reduce ev names ops)"

lemma reduce_append: "reduce ev names (ops @ ops') ns = abind (reduce ev names ops ns) (reduce ev names ops')"
proof (induction ops arbitrary: ns)
  case (Cons op ops)
  have "reduce ev names (ops @ ops') = (\<lambda>ns. abind (reduce ev names ops ns) (reduce ev names ops'))"
    by (rule ext) (rule Cons.IH)
  then show ?case by (simp add: abind_assoc)
qed simp

lemma reduce_ops:
  "reduce ev names [] = ret" "reduce ev names [op] = arith_apply ev names op"
  "reduce ev names [op, op'] = (\<lambda>ns. abind (arith_apply ev names op ns) (arith_apply ev names op'))"
proof -
  show nil: "reduce ev names [] = ret" by (rule ext) simp
  show one: "reduce ev names [op] = arith_apply ev names op" for op by (rule ext) (simp add: nil abind_ret)
  show "reduce ev names [op, op'] = (\<lambda>ns. abind (arith_apply ev names op ns) (arith_apply ev names op'))"
    by (rule ext) (subst reduce.simps(2), simp only: one)
qed

fun partial :: "(string list \<Rightarrow> string \<Rightarrow> i64 arith) \<Rightarrow> string list \<Rightarrow> aexp \<Rightarrow> var_or_num list
    \<Rightarrow> (var_or_num list \<times> operator list \<times> operator) arith" where
  "partial ev names (Lit n) ns = ret (slot (Value (of_nat n)) # ns, [], TOK_NUM)"
| "partial ev names (Name v) ns = ret (slot (Variable v) # ns, [], TOK_NUM)"
| "partial ev names (Paren e) ns = abind (meaning ev names e) (\<lambda>x. ret (slot x # ns, [], TOK_NUM))"
| "partial ev names (Unary op e) ns = abind (partial ev names e ns) (\<lambda>(ns, pend, l). ret (ns, pend @ [op], l))"
| "partial ev names (Prefix op v) ns = ret (slot (Variable v) # ns, [op], TOK_NUM)"
| "partial ev names (Postfix op v) ns = ret (slot (Variable v) # ns, [op], op)"
| "partial ev names (Binary op l r) ns =
     abind (meaning ev names l) (\<lambda>x.
       abind (partial ev names r (slot x # ns)) (\<lambda>(ns, pend, l). ret (ns, pend @ [op], l)))"
| "partial ev names (Assign op v e) ns =
     abind (partial ev names e (slot (Variable v) # ns)) (\<lambda>(ns, pend, l). ret (ns, pend @ [op], l))"
| "partial ev names (Cond c a b) ns =
     abind (meaning ev names c) (\<lambda>x. abind (meaning ev names a) (\<lambda>y.
       abind (partial ev names b (slot y # slot x # ns)) (\<lambda>(ns, pend, l).
         ret (ns, pend @ [TOK_CONDITIONAL_SEP, TOK_CONDITIONAL], l))))"

definition finish :: "(string list \<Rightarrow> string \<Rightarrow> i64 arith) \<Rightarrow> string list \<Rightarrow> aexp \<Rightarrow> var_or_num list \<Rightarrow> var_or_num list arith" where
  "finish ev names e ns = abind (partial ev names e ns) (\<lambda>(ns, pend, _). reduce ev names pend ns)"

lemma split_abind: "(\<lambda>x. abind (case x of (a, b, c) \<Rightarrow> f a b c) g) = (\<lambda>(a, b, c). abind (f a b c) g)"
  by auto

text \<open>Applying what waits gives the meaning.\<close>

lemma finish_meaning:
  "grammatical e \<Longrightarrow> finish ev names e ns = abind (meaning ev names e) (\<lambda>x. ret (slot x # ns))"
proof (induction e arbitrary: ns)
  case (Unary op e)
  have "finish ev names (Unary op e) ns = abind (finish ev names e ns) (arith_apply ev names op)"
    by (simp add: finish_def abind_assoc split_abind reduce_append reduce_ops)
  then show ?case using Unary by (simp add: abind_assoc apply_unary)
next
  case (Prefix op v)
  then show ?case by (auto simp: finish_def apply_step Let_def abind_assoc reduce_ops)
next
  case (Postfix op v)
  then show ?case by (auto simp: finish_def apply_step Let_def abind_assoc reduce_ops)
next
  case (Binary op l r)
  have "finish ev names (Binary op l r) ns =
      abind (meaning ev names l) (\<lambda>x. abind (finish ev names r (slot x # ns)) (arith_apply ev names op))"
    by (simp add: finish_def abind_assoc split_abind reduce_append reduce_ops)
  then show ?case using Binary by (simp add: abind_assoc apply_binary)
next
  case (Assign op v e)
  have "finish ev names (Assign op v e) ns = abind (finish ev names e (slot (Variable v) # ns)) (arith_apply ev names op)"
    by (simp add: finish_def abind_assoc split_abind reduce_append reduce_ops)
  then show ?case using Assign by (simp add: abind_assoc apply_assign)
next
  case (Cond c a b)
  have "finish ev names (Cond c a b) ns =
      abind (meaning ev names c) (\<lambda>x. abind (meaning ev names a) (\<lambda>y. abind (finish ev names b (slot y # slot x # ns))
        (\<lambda>ns. abind (arith_apply ev names TOK_CONDITIONAL_SEP ns) (arith_apply ev names TOK_CONDITIONAL))))"
    by (simp add: finish_def abind_assoc split_abind reduce_append reduce_ops)
  then show ?case using Cond by (simp add: abind_assoc apply_conditional)
qed (simp_all add: finish_def reduce_ops abind_assoc)

lemma finish_then:
  "grammatical e \<Longrightarrow> abind (partial ev names e ns) (\<lambda>(ns, pend, _). abind (reduce ev names pend ns) f)
    = abind (meaning ev names e) (\<lambda>x. f (slot x # ns))"
proof -
  assume e: "grammatical e"
  have "abind (partial ev names e ns) (\<lambda>(ns, pend, _). abind (reduce ev names pend ns) f) = abind (finish ev names e ns) f"
    by (simp add: finish_def abind_assoc split_abind)
  then show ?thesis by (simp add: finish_meaning [OF e] abind_assoc)
qed

text \<open>What is known of a half-read expression.\<close>

lemma abind_cong_valid:
  assumes "arith_valid (\<lambda>_. True) m Q E" "\<And>x. Q x \<Longrightarrow> f x = g x"
  shows "abind m f = abind m g"
proof (rule ext)
  fix vars
  obtain r vars' where "m vars = (r, vars')" by (cases "m vars")
  moreover from this have "Q x" if "r = Inr x" for x
    using assms(1) that unfolding arith_valid_def by (metis fst_conv)
  ultimately show "abind m f vars = abind m g vars"
    using assms(2) by (cases r) (simp_all add: abind_def)
qed

lemma valid_any: "arith_valid (\<lambda>_. True) m (\<lambda>_. True) (\<lambda>_. True)"
  by (simp add: arith_valid_def)

lemma ops_prec:
  "op \<in> set unary_ops \<Longrightarrow> 16 \<le> fix_assignment_prec (PREC op)"
  "op \<in> {TOK_PRE_INC, TOK_PRE_DEC, TOK_POST_INC, TOK_POST_DEC} \<Longrightarrow> 16 \<le> fix_assignment_prec (PREC op)"
  "op \<in> set assign_ops \<Longrightarrow> fix_assignment_prec (PREC op) = 2"
  "op \<in> set binary_ops \<Longrightarrow> fix_assignment_prec (PREC op) = PREC op \<and> 0 < PREC op \<and> PREC op < 16"
  by (auto simp: unary_ops_def assign_ops_def binary_ops_def fix_assignment_prec_def UNARYPREC_def PREC_PRE_def PREC_POST_def)

lemma length_print: "grammatical e \<Longrightarrow> 2 \<le> length (print_aexp e)"
proof (induction e)
  case (Lit n)
  then show ?case using show_nat_first [of n] by auto
qed (auto simp: valid_name_code Suc_le_eq)

definition half_read :: "aexp \<Rightarrow> var_or_num list \<Rightarrow> var_or_num list \<times> operator list \<times> operator \<Rightarrow> bool" where
  "half_read e ns = (\<lambda>(ns', pend, l'). ns' \<noteq> [] \<and> 2 * length ns' \<le> 2 * length ns + length (print_aexp e)
     \<and> length pend \<le> length (print_aexp e) \<and> (\<forall>q \<in> set pend. level e \<le> fix_assignment_prec (PREC q))
     \<and> l' \<in> {TOK_NUM, TOK_POST_INC, TOK_POST_DEC})"

lemma half_read_extend:
  assumes "half_read e1 ns1 (ns', pend, l')" "level e \<le> level e1" "\<forall>q \<in> set qs. level e \<le> fix_assignment_prec (PREC q)"
    and "2 * length ns1 + length (print_aexp e1) \<le> 2 * length ns + length (print_aexp e)"
    and "length qs + length (print_aexp e1) \<le> length (print_aexp e)"
  shows "half_read e ns (ns', pend @ qs, l')"
proof -
  have "level e \<le> fix_assignment_prec (PREC q)" if "q \<in> set pend" for q
    using assms(1,2) that order_trans unfolding half_read_def by blast
  then show ?thesis using assms unfolding half_read_def by auto
qed

lemma extend_valid:
  assumes "arith_valid (\<lambda>_. True) m (half_read e1 ns1) (\<lambda>_. True)" "level e \<le> level e1"
    and "\<forall>q \<in> set qs. level e \<le> fix_assignment_prec (PREC q)"
    and "2 * length ns1 + length (print_aexp e1) \<le> 2 * length ns + length (print_aexp e)"
    and "length qs + length (print_aexp e1) \<le> length (print_aexp e)"
  shows "arith_valid (\<lambda>_. True) (abind m (\<lambda>(ns, pend, l). ret (ns, pend @ qs, l))) (half_read e ns) (\<lambda>_. True)"
  by (rule valid_bind [OF assms(1)]) (auto intro!: valid_ret half_read_extend assms)

lemma partial_half_read:
  "grammatical e \<Longrightarrow> arith_valid (\<lambda>_. True) (partial ev names e ns) (half_read e ns) (\<lambda>_. True)"
proof (induction e arbitrary: ns)
  case (Unary op e)
  then have e: "grammatical e" "16 \<le> level e" "op \<in> set unary_ops" by simp_all
  show ?case
    unfolding partial.simps using e ops_prec(1) by (intro extend_valid [OF Unary.IH [OF e(1)]]) auto
next
  case (Binary op l r)
  then have b: "grammatical l" "grammatical r" "op \<in> set binary_ops" "PREC op \<le> level r" by (auto simp: level_binary split: if_splits)
  show ?case
    unfolding partial.simps using b ops_prec(4) [OF b(3)] level_binary [OF b(3)] length_print [OF b(1)]
    by (intro valid_bind [OF valid_any] extend_valid [OF Binary.IH(2) [OF b(2)]]) auto
next
  case (Assign op v e)
  then have e: "grammatical e" "2 \<le> level e" "op \<in> set assign_ops" "0 < length v" by (auto simp: valid_name_code)
  show ?case
    unfolding partial.simps using e ops_prec(3) [OF e(3)]
    by (intro extend_valid [OF Assign.IH [OF e(1)]]) auto
next
  case (Cond c a b)
  then have g: "grammatical c" "grammatical a" "grammatical b" "4 \<le> level b" by auto
  show ?case
    unfolding partial.simps using g length_print [OF g(1)] length_print [OF g(2)]
    by (intro valid_bind [OF valid_any] extend_valid [OF Cond.IH(3) [OF g(3)]]) (auto simp: fix_assignment_prec_def)
next
  case (Paren e)
  then show ?case
    unfolding partial.simps by (intro valid_bind [OF valid_any] valid_ret) (simp add: half_read_def)
next
  case (Lit n)
  then show ?case using length_print [of "Lit n"] by (auto simp: half_read_def intro!: valid_ret)
next
  case (Name v)
  then show ?case using length_print [of "Name v"] by (auto simp: half_read_def intro!: valid_ret)
next
  case (Prefix op v)
  then show ?case using ops_prec(2) [of op] length_print [of "Name v"] by (auto simp: half_read_def intro!: valid_ret)
next
  case (Postfix op v)
  then show ?case using ops_prec(2) [of op] length_print [of "Name v"] by (auto simp: half_read_def intro!: valid_ret)
qed

section \<open>One operator\<close>

definition stays :: "nat \<Rightarrow> operator list \<Rightarrow> bool" where
  "stays p ops \<longleftrightarrow> (case ops of [] \<Rightarrow> False
     | q # _ \<Rightarrow> (let q = fix_assignment_prec (PREC q) in q < p \<or> q = p \<and> is_right_associative p))"

lemma pop_pending:
  assumes "op \<noteq> TOK_RPAREN" "p = fix_assignment_prec (PREC op)" "stays p ops"
    and "\<forall>q \<in> set pend. p < fix_assignment_prec (PREC q) \<or> p = fix_assignment_prec (PREC q) \<and> \<not> is_right_associative p"
  shows "pop_ops ev names op ns (pend @ ops) = abind (reduce ev names pend ns) (\<lambda>ns. ret (ns, ops, False))"
  using assms(4)
proof (induction pend arbitrary: ns)
  case Nil
  obtain q ops' where "ops = q # ops'" "fix_assignment_prec (PREC q) < p \<or> fix_assignment_prec (PREC q) = p \<and> is_right_associative p"
    using assms(3) by (cases ops) (auto simp: stays_def Let_def)
  then show ?case using assms(1,2) by simp
next
  case (Cons q pend)
  have "pop_ops ev names op ns (pend @ ops) = abind (reduce ev names pend ns) (\<lambda>ns. ret (ns, ops, False))" for ns
    using Cons by simp
  moreover have "\<not> (fix_assignment_prec (PREC q) < p \<or> fix_assignment_prec (PREC q) = p \<and> is_right_associative p)"
    using Cons.prems by auto
  ultimately show ?case using assms(1,2) by (auto simp: abind_assoc Let_def)
qed

lemma pop_paren:
  assumes "\<forall>q \<in> set pend. 0 < fix_assignment_prec (PREC q)"
  shows "pop_ops ev names TOK_RPAREN ns (pend @ TOK_LPAREN # ops) = abind (reduce ev names pend ns) (\<lambda>ns. ret (ns, ops, True))"
  using assms
proof (induction pend arbitrary: ns)
  case (Cons q pend)
  have "pop_ops ev names TOK_RPAREN ns (pend @ TOK_LPAREN # ops) = abind (reduce ev names pend ns) (\<lambda>ns. ret (ns, ops, True))" for ns
    using Cons by simp
  moreover have "q \<noteq> TOK_LPAREN" using Cons.prems by (auto simp: fix_assignment_prec_def)
  ultimately show ?case by (simp add: abind_assoc)
qed simp

lemma step_binary:
  assumes "l \<in> {TOK_NUM, TOK_POST_INC, TOK_POST_DEC}" "0 < PREC op" "PREC op < 16"
    and "stays (fix_assignment_prec (PREC op)) ops" "length ops < n"
    and "\<forall>q \<in> set pend. fix_assignment_prec (PREC op) < fix_assignment_prec (PREC q)
      \<or> fix_assignment_prec (PREC op) = fix_assignment_prec (PREC q) \<and> \<not> is_right_associative (fix_assignment_prec (PREC op))"
  shows "operator_step ev names n op (l, ns, pend @ ops) = abind (reduce ev names pend ns) (\<lambda>ns. ret (op, ns, op # ops))"
proof -
  have "op \<noteq> TOK_RPAREN" using assms(3) by (auto simp: SPEC_PREC_def UNARYPREC_def)
  note pop = pop_pending [OF this refl assms(4,6)]
  have "(if l = TOK_POST_INC \<or> l = TOK_POST_DEC then TOK_NUM else l) = TOK_NUM" using assms(1) by auto
  then show ?thesis
    using assms(2,3,5) by (simp add: operator_step_def UNARYPREC_def pop abind_assoc)
qed

lemma step_rparen:
  assumes "l \<in> {TOK_NUM, TOK_POST_INC, TOK_POST_DEC}" "\<forall>q \<in> set pend. 0 < fix_assignment_prec (PREC q)"
  shows "operator_step ev names n TOK_RPAREN (l, ns, pend @ TOK_LPAREN # ops) = abind (reduce ev names pend ns) (\<lambda>ns. ret (TOK_NUM, ns, ops))"
proof -
  have "(if l = TOK_POST_INC \<or> l = TOK_POST_DEC then TOK_NUM else l) = TOK_NUM" using assms(1) by auto
  then show ?thesis
    by (simp add: operator_step_def SPEC_PREC_def pop_paren [OF assms(2)] abind_assoc)
qed

lemma step_prefix:
  assumes "l \<notin> {TOK_NUM, TOK_POST_INC, TOK_POST_DEC}" "unary_form tok = op"
    and "op = TOK_LPAREN \<or> op \<in> set unary_ops \<or> op \<in> {TOK_PRE_INC, TOK_PRE_DEC}" "length ops < n"
  shows "operator_step ev names n tok (l, ns, ops) = ret (op, ns, op # ops)"
  using assms by (auto simp: operator_step_def unary_ops_def UNARYPREC_def SPEC_PREC_def PREC_PRE_def)

lemma step_postfix:
  assumes "op \<in> {TOK_POST_INC, TOK_POST_DEC}" "length ops < n"
  shows "operator_step ev names n op (TOK_NUM, ns, ops) = ret (op, ns, op # ops)"
  using assms by (auto simp: operator_step_def UNARYPREC_def SPEC_PREC_def PREC_POST_def)

lemma spell_table:
  "list_all (\<lambda>op. (spell op, op) \<in> set op_tokens)
    (binary_ops @ assign_ops @ [TOK_CONDITIONAL, TOK_CONDITIONAL_SEP, TOK_LPAREN, TOK_RPAREN, TOK_POST_INC, TOK_POST_DEC])"
  "list_all (\<lambda>op. list_ex (\<lambda>(p, tok). p = spell op \<and> unary_form tok = op) op_tokens) (unary_ops @ [TOK_PRE_INC, TOK_PRE_DEC])"
  "spell TOK_LPAREN = ''(''" "spell TOK_RPAREN = '')''" "spell TOK_CONDITIONAL = ''?''" "spell TOK_CONDITIONAL_SEP = '':''"
  by code_simp+

lemma spell_tokens:
  "op \<in> set binary_ops \<union> set assign_ops \<union> {TOK_CONDITIONAL, TOK_CONDITIONAL_SEP, TOK_LPAREN, TOK_RPAREN, TOK_POST_INC, TOK_POST_DEC}
    \<Longrightarrow> (spell op, op) \<in> set op_tokens"
  "op \<in> set unary_ops \<union> {TOK_PRE_INC, TOK_PRE_DEC} \<Longrightarrow> \<exists>tok. (spell op, tok) \<in> set op_tokens \<and> unary_form tok = op"
  using spell_table(1,2) by (auto simp: list_all_iff list_ex_iff)

section \<open>Reading an expression\<close>

definition guarded :: "nat \<Rightarrow> operator list \<Rightarrow> bool" where
  "guarded p ops \<longleftrightarrow> 16 \<le> p \<or> stays p ops"

lemma guarded_mono: "guarded p ops \<Longrightarrow> p \<le> p' \<Longrightarrow> guarded p' ops"
  by (cases "p = p'") (auto simp: guarded_def stays_def Let_def split: list.splits)

text \<open>The stacks have room for what is left to read.\<close>

definition room :: "nat \<Rightarrow> var_or_num list \<Rightarrow> operator list \<Rightarrow> string \<Rightarrow> bool" where
  "room n ns ops s \<longleftrightarrow> 2 * length ns + length s < n \<and> length ops + length s < n"

lemma eval_number:
  assumes "next_token l ns s = (T_literal w, rest)" "room n ns ops s" "2 \<le> length s"
  shows "eval_loop ev names n False (l, ns, ops) s = eval_loop ev names n False (TOK_NUM, slot (Value w) # ns, ops) rest"
  using assms by (subst eval_loop.simps) (auto simp: number_step_def room_def slot.simps)

lemma eval_name:
  assumes "next_token l ns s = (T_name v, rest)" "room n ns ops s" "2 \<le> length s"
  shows "eval_loop ev names n False (l, ns, ops) s = eval_loop ev names n False (TOK_NUM, slot (Variable v) # ns, ops) rest"
  using assms by (subst eval_loop.simps) (auto simp: number_step_def room_def slot.simps)

lemma eval_op:
  assumes "next_token l ns s = (T_op op, rest)"
  shows "eval_loop ev names n False (l, ns, ops) s =
    abind (operator_step ev names n op (l, ns, ops)) (\<lambda>p. eval_loop ev names n False p rest)"
  using assms by (subst eval_loop.simps) simp

text \<open>A binary operator behind a half-read expression makes a number of it.\<close>

lemma eval_binary_op:
  assumes e: "grammatical e" and op: "op \<in> set binary_ops \<union> {TOK_CONDITIONAL, TOK_CONDITIONAL_SEP}"
    and level: "PREC op < level e \<or> PREC op = level e \<and> \<not> is_right_associative (PREC op)"
    and "stays (PREC op) ops" and n: "length ops < n"
  shows "abind (partial ev names e ns) (\<lambda>(ns, pend, l). eval_loop ev names n False (l, ns, pend @ ops) (spell op @ CHR '' '' # rest))
    = abind (meaning ev names e) (\<lambda>x. eval_loop ev names n False (op, slot x # ns, op # ops) rest)"
proof -
  have prec: "fix_assignment_prec (PREC op) = PREC op" "0 < PREC op" "PREC op < 16" "op \<notin> {TOK_POST_INC, TOK_POST_DEC}"
    using op ops_prec(4) [of op] by (auto simp: fix_assignment_prec_def binary_ops_def)
  have tok: "(spell op, op) \<in> set op_tokens" using op spell_tokens(1) by blast
  have step: "eval_loop ev names n False (l', ns', pend @ ops) (spell op @ CHR '' '' # rest)
      = abind (reduce ev names pend ns') (\<lambda>ns'. eval_loop ev names n False (op, ns', op # ops) rest)"
    if "half_read e ns (ns', pend, l')" for ns' pend l'
  proof -
    have h: "l' \<in> {TOK_NUM, TOK_POST_INC, TOK_POST_DEC}" "ns' \<noteq> []" "\<forall>q \<in> set pend. level e \<le> fix_assignment_prec (PREC q)"
      using that by (auto simp: half_read_def)
    have read: "next_token l' ns' (spell op @ CHR '' '' # rest) = (T_op op, CHR '' '' # rest)"
      using next_token_op [OF tok, of l' ns' rest] h prec(4) by (auto simp: number_on_top_def)
    have pend: "\<forall>q \<in> set pend. PREC op < fix_assignment_prec (PREC q) \<or> PREC op = fix_assignment_prec (PREC q) \<and> \<not> is_right_associative (PREC op)"
    proof
      fix q assume "q \<in> set pend"
      then have "level e \<le> fix_assignment_prec (PREC q)" using h(3) by blast
      then show "PREC op < fix_assignment_prec (PREC q) \<or> PREC op = fix_assignment_prec (PREC q) \<and> \<not> is_right_associative (PREC op)"
        using level by auto
    qed
    show ?thesis
      using step_binary [OF h(1) prec(2,3), of ops n pend ev names ns'] assms(4) n pend
      by (simp add: eval_op [OF read] prec(1) abind_assoc eval_loop_blank)
  qed
  have "abind (partial ev names e ns) (\<lambda>(ns, pend, l). eval_loop ev names n False (l, ns, pend @ ops) (spell op @ CHR '' '' # rest))
    = abind (partial ev names e ns) (\<lambda>(ns, pend, _). abind (reduce ev names pend ns) (\<lambda>ns. eval_loop ev names n False (op, ns, op # ops) rest))"
    by (rule abind_cong_valid [OF partial_half_read [OF e]]) (auto simp: step)
  also have "\<dots> = abind (meaning ev names e) (\<lambda>x. eval_loop ev names n False (op, slot x # ns, op # ops) rest)"
    by (rule finish_then [OF e])
  finally show ?thesis .
qed

lemma level_pos: "grammatical e \<Longrightarrow> 0 < level e"
  using ops_prec(4) level_binary by (cases e) auto

lemma eval_rparen:
  assumes e: "grammatical e"
  shows "abind (partial ev names e ns) (\<lambda>(ns, pend, l). eval_loop ev names n False (l, ns, pend @ TOK_LPAREN # ops) (CHR '')'' # CHR '' '' # rest))
    = abind (meaning ev names e) (\<lambda>x. eval_loop ev names n False (TOK_NUM, slot x # ns, ops) rest)"
proof -
  have tok: "('')'', TOK_RPAREN) \<in> set op_tokens" by (simp add: op_tokens_def)
  have step: "eval_loop ev names n False (l', ns', pend @ TOK_LPAREN # ops) (CHR '')'' # CHR '' '' # rest)
      = abind (reduce ev names pend ns') (\<lambda>ns'. eval_loop ev names n False (TOK_NUM, ns', ops) rest)"
    if "half_read e ns (ns', pend, l')" for ns' pend l'
  proof -
    have h: "l' \<in> {TOK_NUM, TOK_POST_INC, TOK_POST_DEC}" "ns' \<noteq> []" "\<forall>q \<in> set pend. 0 < fix_assignment_prec (PREC q)"
      using that level_pos [OF e] by (auto simp: half_read_def)
    have read: "next_token l' ns' (CHR '')'' # CHR '' '' # rest) = (T_op TOK_RPAREN, CHR '' '' # rest)"
      using next_token_op [OF tok, of l' ns' rest] h by (auto simp: number_on_top_def)
    show ?thesis
      using step_rparen [OF h(1,3), of ev names n ns' ops] by (simp add: eval_op [OF read] abind_assoc eval_loop_blank)
  qed
  have "abind (partial ev names e ns) (\<lambda>(ns, pend, l). eval_loop ev names n False (l, ns, pend @ TOK_LPAREN # ops) (CHR '')'' # CHR '' '' # rest))
    = abind (partial ev names e ns) (\<lambda>(ns, pend, _). abind (reduce ev names pend ns) (\<lambda>ns. eval_loop ev names n False (TOK_NUM, ns, ops) rest))"
    by (rule abind_cong_valid [OF partial_half_read [OF e]]) (auto simp: step)
  also have "\<dots> = abind (meaning ev names e) (\<lambda>x. eval_loop ev names n False (TOK_NUM, slot x # ns, ops) rest)"
    by (rule finish_then [OF e])
  finally show ?thesis .
qed

text \<open>
  Reading a printed expression does what \<open>partial\<close> says, with any text behind it, when the
  operators below do not take its operands.
\<close>

lemma eval_partial:
  assumes "grammatical e" "l \<notin> {TOK_NUM, TOK_POST_INC, TOK_POST_DEC}" "guarded (level e) ops"
    and "room n ns ops (print_aexp e @ rest)"
  shows "eval_loop ev names n False (l, ns, ops) (print_aexp e @ rest) =
    abind (partial ev names e ns) (\<lambda>(ns, pend, l). eval_loop ev names n False (l, ns, pend @ ops) rest)"
  using assms
proof (induction e arbitrary: l ns ops rest)
  case (Lit k)
  have "next_token l ns (print_aexp (Lit k) @ rest) = (T_literal (of_nat k), CHR '' '' # rest)"
    using next_token_number [of k "CHR '' '' # rest"] Lit.prems(1) by simp
  from eval_number [OF this Lit.prems(4)] show ?case
    using length_print [OF Lit.prems(1)] by (simp add: eval_loop_blank)
next
  case (Name v)
  have "next_token l ns (print_aexp (Name v) @ rest) = (T_name v, CHR '' '' # rest)"
    using next_token_name [of v "CHR '' '' # rest"] Name.prems(1) by simp
  from eval_name [OF this Name.prems(4)] show ?case
    using length_print [OF Name.prems(1)] by (simp add: eval_loop_blank)
next
  case (Paren e)
  have tok: "(''('', TOK_LPAREN) \<in> set op_tokens" by (simp add: op_tokens_def)
  have g: "grammatical e" "guarded (level e) (TOK_LPAREN # ops)"
    using Paren.prems(1) level_pos by (auto simp: guarded_def stays_def fix_assignment_prec_def)
  have room: "room n ns (TOK_LPAREN # ops) (print_aexp e @ CHR '')'' # CHR '' '' # rest)" "length ops < n"
    using Paren.prems(4) by (auto simp: room_def)
  have "next_token l ns (print_aexp (Paren e) @ rest) = (T_op TOK_LPAREN, CHR '' '' # print_aexp e @ CHR '')'' # CHR '' '' # rest)"
    using next_token_op [OF tok, of l ns "print_aexp e @ CHR '')'' # CHR '' '' # rest"] Paren.prems(2) by (simp add: number_on_top_def)
  from eval_op [OF this] have "eval_loop ev names n False (l, ns, ops) (print_aexp (Paren e) @ rest)
      = eval_loop ev names n False (TOK_LPAREN, ns, TOK_LPAREN # ops) (print_aexp e @ CHR '')'' # CHR '' '' # rest)"
    using step_prefix [OF Paren.prems(2), of TOK_LPAREN TOK_LPAREN ops n ev names ns] room(2)
    by (simp add: eval_loop_blank unary_form_def)
  also have "\<dots> = abind (meaning ev names e) (\<lambda>x. eval_loop ev names n False (TOK_NUM, slot x # ns, ops) rest)"
    using Paren.IH [OF g(1) _ g(2) room(1), of TOK_LPAREN] eval_rparen [OF g(1)] by simp
  finally show ?case by (simp add: abind_assoc)
next
  case (Unary op e)
  then have g: "grammatical e" "op \<in> set unary_ops" "guarded (level e) (op # ops)" "op \<notin> {TOK_NUM, TOK_POST_INC, TOK_POST_DEC}"
    by (auto simp: guarded_def unary_ops_def)
  obtain tok where tok: "(spell op, tok) \<in> set op_tokens" "unary_form tok = op" using g(2) spell_tokens(2) by blast
  have room: "room n ns (op # ops) (print_aexp e @ rest)" "length ops < n" using Unary.prems(4) by (auto simp: room_def)
  have "next_token l ns (print_aexp (Unary op e) @ rest) = (T_op tok, CHR '' '' # print_aexp e @ rest)"
    using next_token_op [OF tok(1), of l ns "print_aexp e @ rest"] Unary.prems(2) by (simp add: number_on_top_def)
  from eval_op [OF this] have "eval_loop ev names n False (l, ns, ops) (print_aexp (Unary op e) @ rest)
      = eval_loop ev names n False (op, ns, op # ops) (print_aexp e @ rest)"
    using step_prefix [OF Unary.prems(2) tok(2), of ops n ev names ns] room(2) g(2) by (simp add: eval_loop_blank)
  then show ?case
    using Unary.IH [OF g(1,4,3) room(1)] by (simp add: abind_assoc split_abind)
next
  case (Prefix op v)
  have op: "op \<in> {TOK_PRE_INC, TOK_PRE_DEC}" "valid_name v" using Prefix.prems(1) by auto
  obtain tok where tok: "(spell op, tok) \<in> set op_tokens" "unary_form tok = op" using op(1) spell_tokens(2) by blast
  have room: "room n ns (op # ops) (v @ CHR '' '' # rest)" "length ops < n" using Prefix.prems(4) by (auto simp: room_def)
  have "next_token l ns (print_aexp (Prefix op v) @ rest) = (T_op tok, CHR '' '' # v @ CHR '' '' # rest)"
    using next_token_op [OF tok(1), of l ns "v @ CHR '' '' # rest"] Prefix.prems(2) by (simp add: number_on_top_def)
  from eval_op [OF this] have "eval_loop ev names n False (l, ns, ops) (print_aexp (Prefix op v) @ rest)
      = eval_loop ev names n False (op, ns, op # ops) (v @ CHR '' '' # rest)"
    using step_prefix [OF Prefix.prems(2) tok(2), of ops n ev names ns] room(2) op(1) by (auto simp: eval_loop_blank)
  also have "\<dots> = eval_loop ev names n False (TOK_NUM, slot (Variable v) # ns, op # ops) (CHR '' '' # rest)"
    using next_token_name [OF op(2)] room(1) op(2) by (intro eval_name) (auto simp: valid_name_code Suc_le_eq)
  finally show ?case by (simp add: eval_loop_blank)
next
  case (Postfix op v)
  have op: "op \<in> {TOK_POST_INC, TOK_POST_DEC}" "valid_name v" using Postfix.prems(1) by auto
  have tok: "(spell op, op) \<in> set op_tokens" using op(1) spell_tokens(1) by blast
  have room: "room n ns ops (v @ CHR '' '' # spell op @ CHR '' '' # rest)" "length ops < n" using Postfix.prems(4) by (auto simp: room_def)
  have "eval_loop ev names n False (l, ns, ops) (print_aexp (Postfix op v) @ rest)
      = eval_loop ev names n False (TOK_NUM, slot (Variable v) # ns, ops) (CHR '' '' # spell op @ CHR '' '' # rest)"
    using next_token_name [OF op(2)] room(1) op(2) by (intro eval_name) (auto simp: valid_name_code Suc_le_eq)
  also have "\<dots> = eval_loop ev names n False (TOK_NUM, slot (Variable v) # ns, ops) (spell op @ CHR '' '' # rest)"
    by (rule eval_loop_blank)
  also have "\<dots> = eval_loop ev names n False (op, slot (Variable v) # ns, op # ops) rest"
  proof -
    have "next_token TOK_NUM (slot (Variable v) # ns) (spell op @ CHR '' '' # rest) = (T_op op, CHR '' '' # rest)"
      using next_token_op [OF tok, of TOK_NUM "slot (Variable v) # ns" rest] by (simp add: number_on_top_def)
    from eval_op [OF this] show ?thesis
      using step_postfix [OF op(1) room(2), of ev names "slot (Variable v) # ns"] by (simp add: eval_loop_blank)
  qed
  finally show ?case by simp
next
  case (Binary op l' r)
  then have g: "grammatical l'" "grammatical r" "op \<in> set binary_ops" by (auto split: if_splits)
  note prec = ops_prec(4) [OF g(3)] and lvl = level_binary [OF g(3)]
  have lv: "PREC op < level l' \<or> PREC op = level l' \<and> \<not> is_right_associative (PREC op)"
      "PREC op < level r \<or> PREC op = level r \<and> is_right_associative (PREC op)" "PREC op \<le> level l'"
    using Binary.prems(1) g(3) lvl by (auto simp: binary_ops_def is_right_associative_def split: if_splits)
  have stay: "stays (PREC op) ops" using Binary.prems(3) prec lvl by (auto simp: guarded_def)
  have guard: "guarded (level l') ops" "guarded (level r) (op # ops)"
    using Binary.prems(3) guarded_mono lv prec lvl by (auto simp: guarded_def stays_def Let_def)
  have room: "room n ns ops (print_aexp l' @ spell op @ CHR '' '' # print_aexp r @ rest)" "length ops < n"
    using Binary.prems(4) by (auto simp: room_def)
  have room2: "room n (slot x # ns) (op # ops) (print_aexp r @ rest)" for x
    using room(1) length_print [OF g(1)] by (auto simp: room_def)
  have l: "op \<notin> {TOK_NUM, TOK_POST_INC, TOK_POST_DEC}" using g(3) by (auto simp: binary_ops_def)
  have "eval_loop ev names n False (l, ns, ops) (print_aexp (Binary op l' r) @ rest)
      = abind (meaning ev names l') (\<lambda>x. eval_loop ev names n False (op, slot x # ns, op # ops) (print_aexp r @ rest))"
    using Binary.IH(1) [OF g(1) Binary.prems(2) guard(1) room(1)] eval_binary_op [OF g(1) _ lv(1) stay room(2)] g(3) by simp
  then show ?case
    using Binary.IH(2) [OF g(2) l guard(2) room2] by (simp add: abind_assoc split_abind)
next
  case (Assign op v e)
  then have g: "grammatical e" "op \<in> set assign_ops" "valid_name v" "2 \<le> level e" by auto
  have tok: "(spell op, op) \<in> set op_tokens" using g(2) spell_tokens(1) by blast
  have opl: "op \<notin> {TOK_NUM, TOK_POST_INC, TOK_POST_DEC}" using g(2) by (auto simp: assign_ops_def)
  have prec: "0 < PREC op" "PREC op < 16" "fix_assignment_prec (PREC op) = 2"
    using g(2) ops_prec(3) [OF g(2)] by (auto simp: assign_ops_def)
  have stay: "stays 2 ops" using Assign.prems(3) by (simp add: guarded_def)
  have guard: "guarded (level e) (op # ops)"
    using g(4) prec by (auto simp: guarded_def stays_def is_right_associative_def Let_def)
  have room: "room n ns ops (v @ CHR '' '' # spell op @ CHR '' '' # print_aexp e @ rest)" "length ops < n"
    using Assign.prems(4) by (auto simp: room_def)
  have room2: "room n (slot (Variable v) # ns) (op # ops) (print_aexp e @ rest)"
    using room(1) g(3) by (auto simp: room_def valid_name_code)
  have "eval_loop ev names n False (l, ns, ops) (print_aexp (Assign op v e) @ rest)
      = eval_loop ev names n False (TOK_NUM, slot (Variable v) # ns, ops) (CHR '' '' # spell op @ CHR '' '' # print_aexp e @ rest)"
    using next_token_name [OF g(3)] room(1) g(3) by (intro eval_name) (auto simp: valid_name_code Suc_le_eq)
  also have "\<dots> = eval_loop ev names n False (TOK_NUM, slot (Variable v) # ns, ops) (spell op @ CHR '' '' # print_aexp e @ rest)"
    by (rule eval_loop_blank)
  also have "\<dots> = eval_loop ev names n False (op, slot (Variable v) # ns, op # ops) (print_aexp e @ rest)"
  proof -
    have "next_token TOK_NUM (slot (Variable v) # ns) (spell op @ CHR '' '' # print_aexp e @ rest) = (T_op op, CHR '' '' # print_aexp e @ rest)"
      using next_token_op [OF tok, of TOK_NUM "slot (Variable v) # ns"] by (simp add: number_on_top_def)
    from eval_op [OF this] show ?thesis
      using step_binary [of TOK_NUM op ops n "[]" ev names "slot (Variable v) # ns"] prec stay room(2)
      by (simp add: eval_loop_blank)
  qed
  finally show ?case
    using Assign.IH [OF g(1) opl guard room2] by (simp add: abind_assoc split_abind)
next
  case (Cond c a b)
  then have g: "grammatical c" "grammatical a" "grammatical b" "4 < level c" "4 < level a" "4 \<le> level b" by auto
  have stay: "stays 4 ops" using Cond.prems(3) by (simp add: guarded_def)
  have guard: "guarded (level c) ops" "guarded (level a) (TOK_CONDITIONAL # ops)"
      "guarded (level b) (TOK_CONDITIONAL_SEP # TOK_CONDITIONAL # ops)" "stays 4 (TOK_CONDITIONAL # ops)"
    using g stay guarded_mono [of 4 ops "level c"] by (auto simp: guarded_def stays_def fix_assignment_prec_def is_right_associative_def Let_def)
  have room: "room n ns ops (print_aexp c @ ''?'' @ CHR '' '' # print_aexp a @ '':'' @ CHR '' '' # print_aexp b @ rest)" "Suc (length ops) < n"
    using Cond.prems(4) length_print [OF g(1)] by (auto simp: room_def)
  have room2: "room n (slot x # ns) (TOK_CONDITIONAL # ops) (print_aexp a @ '':'' @ CHR '' '' # print_aexp b @ rest)" for x
    using room(1) length_print [OF g(1)] by (auto simp: room_def)
  have room3: "room n (slot y # slot x # ns) (TOK_CONDITIONAL_SEP # TOK_CONDITIONAL # ops) (print_aexp b @ rest)" for x y
    using room(1) length_print [OF g(1)] length_print [OF g(2)] by (auto simp: room_def)
  have "eval_loop ev names n False (l, ns, ops) (print_aexp (Cond c a b) @ rest)
      = abind (meaning ev names c) (\<lambda>x. eval_loop ev names n False (TOK_CONDITIONAL, slot x # ns, TOK_CONDITIONAL # ops)
          (print_aexp a @ '':'' @ CHR '' '' # print_aexp b @ rest))"
    using Cond.IH(1) [OF g(1) Cond.prems(2) guard(1) room(1)] eval_binary_op [OF g(1), of TOK_CONDITIONAL ops n] g(4) stay room(2)
    by (simp add: spell_table)
  also have "\<dots> = abind (meaning ev names c) (\<lambda>x. abind (meaning ev names a) (\<lambda>y.
      eval_loop ev names n False (TOK_CONDITIONAL_SEP, slot y # slot x # ns, TOK_CONDITIONAL_SEP # TOK_CONDITIONAL # ops) (print_aexp b @ rest)))"
    using Cond.IH(2) [OF g(2) _ guard(2) room2, of TOK_CONDITIONAL] eval_binary_op [OF g(2), of TOK_CONDITIONAL_SEP "TOK_CONDITIONAL # ops" n]
      g(5) guard(4) room(2) by (simp add: spell_table)
  finally show ?case
    using Cond.IH(3) [OF g(3) _ guard(3) room3, of TOK_CONDITIONAL_SEP] by (simp add: abind_assoc split_abind)
qed

lemma print_start: "grammatical e \<Longrightarrow> \<exists>c s. print_aexp e = c # s \<and> \<not> is_space c"
proof (induction e)
  case (Lit n)
  obtain d s where "show_nat n = show_digit d # s" "d < 10" using show_nat_first [of n] by blast
  then show ?case using show_digit(3) by simp
next
  case (Paren e)
  then show ?case by (simp add: is_space_def)
next
  case (Unary op e)
  then obtain tok where "(spell op, tok) \<in> set op_tokens" using spell_tokens(2) [of op] by auto
  from spelled_start [OF this] show ?case by auto
next
  case (Prefix op v)
  then obtain tok where "(spell op, tok) \<in> set op_tokens" using spell_tokens(2) [of op] by auto
  from spelled_start [OF this] show ?case by auto
next
  case (Binary op l r)
  then have "\<exists>c s. print_aexp l = c # s \<and> \<not> is_space c" by (auto split: if_splits)
  then show ?case by auto
next
  case (Name v)
  then show ?case using name_not_space by (cases v) (auto simp: valid_name_code)
next
  case (Postfix op v)
  then show ?case using name_not_space by (cases v) (auto simp: valid_name_code)
next
  case (Assign op v e)
  then show ?case using name_not_space by (cases v) (auto simp: valid_name_code)
qed auto

lemma eval_closed:
  "eval_loop ev names n True (l, [slot x], ops) [] = resolve ev names x"
  by (simp add: eval_loop_closed lookup_slot abind_assoc abind_ret) 

lemma arith_grammar_run:
  assumes "grammatical e"
  shows "arith (Suc depth) (print_aexp e) = abind (meaning (evaluate_string depth) [] e) (resolve (evaluate_string depth) [])"
proof -
  let ?ev = "evaluate_string depth"
  define n where "n = length (print_aexp e) + 2"
  obtain c s where c: "print_aexp e = c # s" "\<not> is_space c" using print_start [OF assms] by blast
  have close: "eval_loop ?ev [] n False (l, ns, pend @ [TOK_LPAREN]) []
      = abind (reduce ?ev [] pend ns) (\<lambda>ns. eval_loop ?ev [] n True (TOK_NUM, ns, []) [])"
    if "half_read e [] (ns, pend, l)" for l ns pend
  proof -
    have "l \<in> {TOK_NUM, TOK_POST_INC, TOK_POST_DEC}" "\<forall>q \<in> set pend. 0 < fix_assignment_prec (PREC q)"
      using that level_pos [OF assms] by (auto simp: half_read_def)
    from step_rparen [OF this, of ?ev "[]" n ns "[]"] show ?thesis by (simp add: eval_loop_end abind_assoc)
  qed
  have "eval_loop ?ev [] n False (TOK_LPAREN, [], [TOK_LPAREN]) (print_aexp e @ [])
      = abind (partial ?ev [] e []) (\<lambda>(ns, pend, l). eval_loop ?ev [] n False (l, ns, pend @ [TOK_LPAREN]) [])"
    using level_pos [OF assms] by (intro eval_partial assms) (auto simp: n_def guarded_def stays_def room_def fix_assignment_prec_def)
  also have "\<dots> = abind (partial ?ev [] e []) (\<lambda>(ns, pend, _). abind (reduce ?ev [] pend ns) (\<lambda>ns. eval_loop ?ev [] n True (TOK_NUM, ns, []) []))"
    by (rule abind_cong_valid [OF partial_half_read [OF assms]]) (auto simp: close)
  also have "\<dots> = abind (meaning ?ev [] e) (\<lambda>x. eval_loop ?ev [] n True (TOK_NUM, [slot x], []) [])"
    by (rule finish_then [OF assms])
  finally show ?thesis
    using c by (simp add: arith_def eval_closed n_def)
qed

text \<open>
  C15. The parser implements the grammar: for every expression with parentheses where precedence
  and associativity ask for them (unary operators, increments, all binary operators, assignments,
  and conditionals whose middle is no conditional or assignment), evaluating its text is evaluating
  the expression, each operator giving its exact value on the signed integers cut to 64 bits. The
  operators see their operands in the order of the grammar, errors and assignments included, and
  neither stack overflows. The expression is evaluated strictly: both branches of
  \<^verbatim>\<open>?:\<close> and both sides of \<^verbatim>\<open>&&\<close> and \<^verbatim>\<open>||\<close> are evaluated and do their assignments and
  errors, whatever the condition. That is what the code does; it is not what C does, nor what
  \<^verbatim>\<open>arith.tests\<close> of ash and hush ask for ("the unevaluated part of the ternary operator does not do
  evaluation or assignment").
\<close>

theorem arith_grammar:
  assumes "grammatical e"
  shows "arith (Suc depth) (print_aexp e) vars =
    abind (meaning (evaluate_string depth) [] e) (resolve (evaluate_string depth) []) vars"
  using arith_grammar_run [OF assms] by simp

theorem arith_grammar_witness:
  "arith 1 (print_aexp (Binary TOK_ADD (Lit 1) (Binary TOK_MUL (Lit 2) (Lit 3)))) (\<lambda>_. None) = (Inr 7, \<lambda>_. None)"
  using arith_grammar [of "Binary TOK_ADD (Lit 1) (Binary TOK_MUL (Lit 2) (Lit 3))" 0 "\<lambda>_. None"]
  by (simp add: binary_ops_def resolve_def lift_result_def binary_meaning_def abind_def ret_def)

section \<open>What the parser does not do\<close>

lemmas token_simps = next_token_def is_space_def endofname_def is_name_def is_in_name_def isalpha_def isdigit_def
  strto_arith_t_def strtoull_0_def digit_value_def op_tokens_def

lemma fst_run: "fst (stop e vars) = Inl e" "fst (ret x vars) = Inr x"
  by (simp_all add: stop_def ret_def)

lemmas step_simps = fix_assignment_prec_def is_right_associative_def UNARYPREC_def SPEC_PREC_def PREC_PRE_def PREC_POST_def
  is_assign_op_def

text \<open>
  C19. The number stack can overflow: a number literal ends at the first character that is no digit
  of its base, so numbers and names can follow each other without anything between them, and
  \<^verbatim>\<open>expr_len / 2\<close> places are not enough.
\<close>

theorem numstack_overrun: "fst (arith (Suc depth) ''1a 1a'' vars) = Inl Numstack_overrun"
proof -
  have "next_token l ns ''1a 1a'' = (T_literal 1, ''a 1a'')" "next_token l ns ''a 1a'' = (T_name ''a'', '' 1a'')"
    "next_token l ns '' 1a'' = (T_literal 1, ''a'')" "next_token l ns ''a'' = (T_name ''a'', [])" for l ns
    by (simp_all add: token_simps)
  moreover have "skip_whitespace ''1a 1a'' = ''1a 1a''" by (simp add: is_space_def)
  ultimately show ?thesis
    by (simp add: arith_def) (simp add: eval_loop.simps [of _ _ _ _ _ _ _ "_ # _"] number_step_def fst_run)
qed

text \<open>
  C20. A conditional between \<^verbatim>\<open>?\<close> and \<^verbatim>\<open>:\<close> is refused, where C and the other shells
  read it as nested.
\<close>

theorem nested_conditional: "fst (arith (Suc depth) ''1?2?3:4:5'' vars) = Inl Malformed_conditional"
proof -
  have "next_token TOK_LPAREN [] ''1?2?3:4:5'' = (T_literal 1, ''?2?3:4:5'')"
    "next_token TOK_CONDITIONAL ns ''2?3:4:5'' = (T_literal 2, ''?3:4:5'')"
    "next_token TOK_CONDITIONAL ns ''3:4:5'' = (T_literal 3, '':4:5'')"
    "next_token TOK_CONDITIONAL_SEP ns ''4:5'' = (T_literal 4, '':5'')"
    "next_token TOK_CONDITIONAL_SEP ns ''5'' = (T_literal 5, [])"
    "next_token TOK_NUM (t # ns) ''?2?3:4:5'' = (T_op TOK_CONDITIONAL, ''2?3:4:5'')"
    "next_token TOK_NUM (t # ns) ''?3:4:5'' = (T_op TOK_CONDITIONAL, ''3:4:5'')"
    "next_token TOK_NUM (t # ns) '':4:5'' = (T_op TOK_CONDITIONAL_SEP, ''4:5'')"
    "next_token TOK_NUM (t # ns) '':5'' = (T_op TOK_CONDITIONAL_SEP, ''5'')" for t ns
    by (simp_all add: token_simps)
  moreover have "skip_whitespace ''1?2?3:4:5'' = ''1?2?3:4:5''" by (simp add: is_space_def)
  ultimately show ?thesis
    by (simp add: arith_def) (simp add: eval_loop.simps [of _ _ _ _ _ _ _ "_ # _"] number_step_def operator_step_def step_simps eval_loop_end
      arith_apply_def arith_unary_def arith_two_def lookup_number arith_store_def store_plain fst_run)
qed

text \<open>
  The right side of \<^verbatim>\<open>&&\<close> and \<^verbatim>\<open>||\<close> is always evaluated: the assignment in
  \<^verbatim>\<open>0 && (x = 1)\<close> takes place.
\<close>

theorem no_short_circuit:
  "arith (Suc depth) (print_aexp (Binary TOK_AND (Lit 0) (Paren (Assign TOK_ASSIGN ''x'' (Lit 1))))) vars = (Inr 0, vars(''x'' \<mapsto> ''1''))"
proof -
  have g: "grammatical (Binary TOK_AND (Lit 0) (Paren (Assign TOK_ASSIGN ''x'' (Lit 1))))"
    by (simp add: binary_ops_def assign_ops_def valid_name_def letter_def)
  have "fmt_lld 1 = ''1''" by (simp add: fmt_lld_def show_nat.simps show_digit_def)
  then show ?thesis
    unfolding arith_grammar_run [OF g]
    by (simp add: resolve_def lift_result_def binary_meaning_def assign_def abind_def ret_def truth_def)
qed


text \<open>The branch of a conditional that is not taken does its assignment.\<close>

theorem untaken_branch_assigned:
  "arith (Suc depth) (print_aexp (Cond (Lit 0) (Paren (Assign TOK_ASSIGN ''y'' (Lit 2))) (Lit 30))) vars
    = (Inr 30, vars(''y'' \<mapsto> ''2''))"
proof -
  have g: "grammatical (Cond (Lit 0) (Paren (Assign TOK_ASSIGN ''y'' (Lit 2))) (Lit 30))"
    by (simp add: assign_ops_def valid_name_def letter_def)
  have "fmt_lld 2 = ''2''" by (simp add: fmt_lld_def show_nat.simps show_digit_def)
  then show ?thesis
    unfolding arith_grammar_run [OF g] by (simp add: resolve_def assign_def abind_def ret_def)
qed

section \<open>Stored values\<close>

lemma arith_variable:
  assumes "valid_name x"
  shows "arith (Suc (Suc depth)) x (vars(x \<mapsto> fmt_lld w)) = (Inr w, vars(x \<mapsto> fmt_lld w))"
proof -
  have tok: "next_token l ns x = (T_name x, [])" for l ns using next_token_name [OF assms, of "[]"] by simp
  have x: "skip_whitespace x = x" "x \<noteq> []"
    using assms name_not_space by (cases x; auto simp: valid_name_code)+
  have "eval_loop (evaluate_string (Suc depth)) [] (length x + 2) False (TOK_LPAREN, [], [TOK_LPAREN]) x (vars(x \<mapsto> fmt_lld w))
    = (Inr w, vars(x \<mapsto> fmt_lld w))"
    using tok x
    by (subst eval_loop.simps)
      (cases x, simp_all add: number_step_def eval_loop_end operator_step_def SPEC_PREC_def eval_loop_closed arith_lookup_val_def
        abind_def ret_def evaluate_fmt_lld del: evaluate_string.simps)
  then show ?thesis using x by (simp add: arith_def del: fun_upd_apply)
qed

text \<open>Whatever an assignment returns stands in the variable, printed.\<close>

lemma assignment_stores:
  assumes "grammatical (Assign op x e)" and "arith (Suc depth) (print_aexp (Assign op x e)) vars = (Inr w, vars')"
  shows "\<exists>vars1. vars' = vars1(x \<mapsto> fmt_lld w)"
  using assms(2) unfolding arith_grammar_run [OF assms(1)]
  by (auto simp: abind_def assign_def ret_def resolve_def split: prod.splits sum.splits)

text \<open>Every 64-bit value arises: the plain assignment of a number literal.\<close>

lemma assign_number:
  assumes "valid_name x"
  shows "arith (Suc depth) (print_aexp (Assign TOK_ASSIGN x (Lit (unat w)))) vars = (Inr w, vars(x \<mapsto> fmt_lld w))"
proof -
  have "grammatical (Assign TOK_ASSIGN x (Lit (unat w)))"
    using assms unat_bound [of w] by (simp add: assign_ops_def)
  from arith_grammar_run [OF this] show ?thesis
    by (simp add: resolve_def assign_def abind_def ret_def)
qed

text \<open>
  C16. An assignment and the variable it sets agree: when evaluating \<^verbatim>\<open>x = e\<close>, \<^verbatim>\<open>x += e\<close> or
  any other assignment to \<open>x\<close> returns a number, \<^verbatim>\<open>setvar\<close> has stored its decimal text, and
  evaluating \<open>x\<close> afterwards reads that text back as the same number, to any depth of nesting and
  without changing a variable. Every one of the 64-bit values, the least one included, is returned by
  an assignment: that of its literal.
\<close>

theorem arith_store_roundtrip:
  assumes "grammatical (Assign op x e)" and "arith (Suc depth) (print_aexp (Assign op x e)) vars = (Inr w, vars')"
  shows "vars' x = Some (fmt_lld w) \<and> arith (Suc (Suc depth')) x vars' = (Inr w, vars')
    \<and> arith (Suc depth) (print_aexp (Assign TOK_ASSIGN x (Lit (unat u)))) vars = (Inr u, vars(x \<mapsto> fmt_lld u))"
proof -
  obtain vars1 where "vars' = vars1(x \<mapsto> fmt_lld w)" using assignment_stores [OF assms] by blast
  moreover have "valid_name x" using assms(1) by simp
  ultimately show ?thesis using arith_variable assign_number by auto
qed

theorem arith_store_roundtrip_witness:
  "arith 1 ''x1 = 18446744073709551611 '' (\<lambda>_. None) = (Inr (- 5), [''x1'' \<mapsto> ''-5''])
   \<and> arith 2 ''x1'' [''x1'' \<mapsto> ''-5''] = (Inr (- 5), [''x1'' \<mapsto> ''-5''])"
proof -
  have x: "valid_name ''x1''" by (simp add: valid_name_def letter_def digit_def)
  then have g: "grammatical (Assign TOK_ASSIGN ''x1'' (Lit 18446744073709551611))" by (simp add: assign_ops_def)
  have p: "print_aexp (Assign TOK_ASSIGN ''x1'' (Lit 18446744073709551611)) = ''x1 = 18446744073709551611 ''"
    by (simp add: show_nat.simps show_digit_def)
  have f: "fmt_lld (- 5) = ''-5''" by (simp add: fmt_lld_def show_nat.simps show_digit_def)
  have run: "arith (Suc 0) (print_aexp (Assign TOK_ASSIGN ''x1'' (Lit 18446744073709551611))) (\<lambda>_. None)
      = (Inr (- 5), [''x1'' \<mapsto> ''-5''])"
    using assign_number [OF x, of 0 "- 5" "\<lambda>_. None"] by (simp add: f)
  show ?thesis
    using arith_store_roundtrip [OF g run, of 0] run unfolding p by (simp add: numeral_2_eq_2 f)
qed

end
