(* ===== verification/Factor.thy ===== *)
theory Factor
  imports Prelude "HOL-Library.Monad_Syntax"
begin

text \<open>
  The \<^verbatim>\<open>factor\<close> applet, \<^verbatim>\<open>coreutils/factor.c\<close>, with \<^verbatim>\<open>libbb/isqrt.c\<close>: trial division along a wheel
  of 480 gaps packed into 24 words, with the squares found on the way factored recursively. Numbers
  are \<open>nat\<close> with the wrap-around of \<^verbatim>\<open>half_t\<close> (32 bits) and \<^verbatim>\<open>wide_t\<close> (64) written out.
\<close>

section \<open>Integer square root\<close>

text \<open>The \<^verbatim>\<open>do\<close> loop, \<open>k\<close> rounds being left: \<open>shift\<close> is \<open>2 * (k - 1)\<close>.\<close>

fun isqrt_loop :: "nat \<Rightarrow> nat \<Rightarrow> nat \<Rightarrow> nat" where
  "isqrt_loop N x 0 = x"
| "isqrt_loop N x (Suc k) =
     (let x = (x * 2 + 1) mod 2 ^ 64
      in isqrt_loop N (if drop_bit (2 * k) N < (x * x) mod 2 ^ 64 then x - 1 else x) k)"

definition isqrt :: "nat \<Rightarrow> nat" where
  "isqrt N = isqrt_loop N 0 32"

section \<open>The wheel\<close>

text \<open>The macros \<open>P\<close> and \<open>R\<close>: twenty halved gaps of three bits each, above the lowest bit.\<close>

definition R :: "nat list \<Rightarrow> u64" where
  "R g = push_bit 1 (foldl (OR) 0 (map (\<lambda>i. push_bit (3 * i) (of_nat (g ! i))) [0..<10]))
     OR push_bit 31 (foldl (OR) 0 (map (\<lambda>i. push_bit (3 * i) (of_nat (g ! (10 + i)))) [0..<10]))"

definition P :: "nat list \<Rightarrow> u64" where
  "P g = R (map (\<lambda>a. a div 2) g)"

definition packed_wheel :: "u64 list" where
  "packed_wheel =
    [P [4, 2, 4, 6, 2, 6, 4, 2, 4, 6, 6, 2, 6, 4, 2, 6, 4, 6, 8, 4],
     P [2, 4, 2, 4, 14, 4, 6, 2, 10, 2, 6, 6, 4, 2, 4, 6, 2, 10, 2, 4],
     P [2, 12, 10, 2, 4, 2, 4, 6, 2, 6, 4, 6, 6, 6, 2, 6, 4, 2, 6, 4],
     P [6, 8, 4, 2, 4, 6, 8, 6, 10, 2, 4, 6, 2, 6, 6, 4, 2, 4, 6, 2],
     P [6, 4, 2, 6, 10, 2, 10, 2, 4, 2, 4, 6, 8, 4, 2, 4, 12, 2, 6, 4],
     P [2, 6, 4, 6, 12, 2, 4, 2, 4, 8, 6, 4, 6, 2, 4, 6, 2, 6, 10, 2],
     P [4, 6, 2, 6, 4, 2, 4, 2, 10, 2, 10, 2, 4, 6, 6, 2, 6, 6, 4, 6],
     P [6, 2, 6, 4, 2, 6, 4, 6, 8, 4, 2, 6, 4, 8, 6, 4, 6, 2, 4, 6],
     P [8, 6, 4, 2, 10, 2, 6, 4, 2, 4, 2, 10, 2, 10, 2, 4, 2, 4, 8, 6],
     P [4, 2, 4, 6, 6, 2, 6, 4, 8, 4, 6, 8, 4, 2, 4, 2, 4, 8, 6, 4],
     P [6, 6, 6, 2, 6, 6, 4, 2, 4, 6, 2, 6, 4, 2, 4, 2, 10, 2, 10, 2],
     P [6, 4, 6, 2, 6, 4, 2, 4, 6, 6, 8, 4, 2, 6, 10, 8, 4, 2, 4, 2],
     P [4, 8, 10, 6, 2, 4, 8, 6, 6, 4, 2, 4, 6, 2, 6, 4, 6, 2, 10, 2],
     P [10, 2, 4, 2, 4, 6, 2, 6, 4, 2, 4, 6, 6, 2, 6, 6, 6, 4, 6, 8],
     P [4, 2, 4, 2, 4, 8, 6, 4, 8, 4, 6, 2, 6, 6, 4, 2, 4, 6, 8, 4],
     P [2, 4, 2, 10, 2, 10, 2, 4, 2, 4, 6, 2, 10, 2, 4, 6, 8, 6, 4, 2],
     P [6, 4, 6, 8, 4, 6, 2, 4, 8, 6, 4, 6, 2, 4, 6, 2, 6, 6, 4, 6],
     P [6, 2, 6, 6, 4, 2, 10, 2, 10, 2, 4, 2, 4, 6, 2, 6, 4, 2, 10, 6],
     P [2, 6, 4, 2, 6, 4, 6, 8, 4, 2, 4, 2, 12, 6, 4, 6, 2, 4, 6, 2],
     P [12, 4, 2, 4, 8, 6, 4, 2, 4, 2, 10, 2, 10, 6, 2, 4, 6, 2, 6, 4],
     P [2, 4, 6, 6, 2, 6, 4, 2, 10, 6, 8, 6, 4, 2, 4, 8, 6, 4, 6, 2],
     P [4, 6, 2, 6, 6, 6, 4, 6, 2, 6, 4, 2, 4, 2, 10, 12, 2, 4, 2, 10],
     P [2, 6, 4, 2, 4, 6, 6, 2, 10, 2, 6, 4, 14, 4, 2, 4, 2, 4, 8, 6],
     P [4, 6, 2, 4, 6, 2, 6, 6, 4, 2, 4, 6, 2, 6, 4, 2, 4, 12, 2, 12]]"

lemma unat_drop_3: "unat (drop_bit 3 v) = unat v div 8" for v :: u64
  unfolding unat_drop_bit_eq by (simp add: drop_bit_eq_div)

function unpack_word :: "u64 \<Rightarrow> nat list" where
  "unpack_word v = (if v AND 0xe \<noteq> 0 then unat (v AND 0xe) # unpack_word (drop_bit 3 v) else [])"
  by pat_completeness auto
termination
proof (relation "measure unat")
  fix v :: u64
  assume "v AND 0xe \<noteq> 0"
  then have "v \<noteq> 0" by auto
  then have "unat v div 8 < unat v" by (simp add: unat_gt_0)
  then show "(drop_bit 3 v, v) \<in> measure unat" by (simp add: unat_drop_3 del: unat_drop_bit_eq)
qed simp

declare unpack_word.simps [simp del]

definition WHEEL_START :: nat where "WHEEL_START = 5"
definition WHEEL_SIZE :: nat where "WHEEL_SIZE = 5 + 24 * 20"

text \<open>The table \<^verbatim>\<open>unpack_wheel\<close> leaves in \<^verbatim>\<open>wheel_tab\<close>.\<close>

definition unpack_wheel :: "nat list" where
  "unpack_wheel = [1, 2, 2, 4, 2] @ concat (map unpack_word packed_wheel)"

section \<open>Factoring\<close>

text \<open>
  Printing a factor once for each multiplicity of the square it was found in: \<^verbatim>\<open>print_w\<close> counts
  an \<^verbatim>\<open>unsigned\<close> down to zero.
\<close>

definition print_w :: "nat \<Rightarrow> nat \<Rightarrow> nat list" where
  "print_w square_count n = replicate (if square_count = 0 then 2 ^ 32 else square_count) n"

definition print_rest :: "nat \<Rightarrow> nat \<Rightarrow> nat list" where
  "print_rest square_count N = (if N > 1 then print_w square_count N else [])"

text \<open>\<open>None\<close> when \<open>N\<close> is a square: the caller then factors the root and returns.\<close>

definition isqrt_odd :: "nat \<Rightarrow> nat option" where
  "isqrt_odd N =
     (let s = isqrt N in if s * s mod 2 ^ 64 = N then None else Some ((s - 1) OR 1))"

text \<open>
  The points of \<^verbatim>\<open>factorize\<close>: its entry, and the trial of a factor with \<^verbatim>\<open>max_factor\<close> and the
  position on the wheel. The result is the list of numbers printed before the newline; not
  returning is \<open>None\<close>.
\<close>

datatype factor_point = Entry | Trial nat nat nat

partial_function (option) factorize_at :: "nat \<Rightarrow> nat \<Rightarrow> factor_point \<Rightarrow> nat list option" where
  "factorize_at square_count N point =
     (case point of
        Entry \<Rightarrow>
          (if N < 4 then Some (print_rest square_count N)
           else case isqrt_odd N of
                  None \<Rightarrow> factorize_at (square_count * 2 mod 256) (isqrt N) Entry
                | Some max_factor \<Rightarrow> factorize_at square_count N (Trial 2 max_factor 0))
      | Trial factor max_factor w \<Rightarrow>
          (if N mod factor = 0 then
             do {
               out \<leftarrow> (case isqrt_odd (N div factor) of
                  None \<Rightarrow> factorize_at (square_count * 2 mod 256) (isqrt (N div factor)) Entry
                | Some max_factor \<Rightarrow> factorize_at square_count (N div factor) (Trial factor max_factor w));
               Some (print_w square_count factor @ out)
             }
           else if max_factor \<le> factor then Some (print_rest square_count N)
           else
             (let fw = (factor + unpack_wheel ! w) mod 2 ^ 32
              in if fw < factor then Some (print_rest square_count N)
                 else factorize_at square_count N
                   (Trial fw max_factor (if w + 1 < WHEEL_SIZE then w + 1 else WHEEL_START)))))"

definition factorize :: "nat \<Rightarrow> nat list option" where
  "factorize N = factorize_at 1 N Entry"

section \<open>The square root\<close>

lemma isqrt_loop_step:
  fixes N x k :: nat
  assumes "x * x \<le> drop_bit (2 * Suc k) N" "drop_bit (2 * Suc k) N < (x + 1) * (x + 1)" "x < 2 ^ 31"
  shows "let x1 = (x * 2 + 1) mod 2 ^ 64; x' = (if drop_bit (2 * k) N < (x1 * x1) mod 2 ^ 64 then x1 - 1 else x1) in
    x' * x' \<le> drop_bit (2 * k) N \<and> drop_bit (2 * k) N < (x' + 1) * (x' + 1)"
proof -
  define M r where "M = drop_bit (2 * Suc k) N" and "r = drop_bit (2 * k) N mod 4"
  have "M = drop_bit (2 * k) N div 4"
    by (simp add: M_def drop_bit_eq_div div_mult2_eq [symmetric] mult.commute)
  then have N: "drop_bit (2 * k) N = 4 * M + r" "r < 4" by (simp_all add: r_def)
  have le: "x * 2 + 1 \<le> 2 ^ 32 - 1" using assms(3) by simp
  then have "(x * 2 + 1) * (x * 2 + 1) \<le> (2 ^ 32 - 1) * (2 ^ 32 - 1)" by (intro mult_le_mono) simp_all
  then have small: "(x * 2 + 1) mod 2 ^ 64 = x * 2 + 1" "(x * 2 + 1) * (x * 2 + 1) mod 2 ^ 64 = (x * 2 + 1) * (x * 2 + 1)"
    using le by simp_all
  have lo: "4 * (x * x) \<le> 4 * M" and hi: "4 * M + 4 \<le> 4 * ((x + 1) * (x + 1))"
    using assms(1,2) by (simp_all add: M_def Suc_le_eq)
  have "(x * 2) * (x * 2) \<le> 4 * M + r" "4 * M + r < (x * 2 + 1 + 1) * (x * 2 + 1 + 1)"
    using lo hi N(2) by (simp_all add: algebra_simps)
  then show ?thesis unfolding Let_def small N(1) by simp
qed

lemma isqrt_loop_correct:
  fixes N x k :: nat
  assumes "x * x \<le> drop_bit (2 * k) N" "drop_bit (2 * k) N < (x + 1) * (x + 1)" "k \<le> 32" "x < 2 ^ (32 - k)"
  shows "isqrt_loop N x k * isqrt_loop N x k \<le> N \<and> N < (isqrt_loop N x k + 1) * (isqrt_loop N x k + 1)"
  using assms
proof (induction k arbitrary: x)
  case 0
  then show ?case by simp
next
  case (Suc k)
  have p: "(2 :: nat) ^ (32 - k) = 2 * 2 ^ (32 - Suc k)"
    using Suc.prems(3) by (simp add: Suc_diff_Suc flip: power_Suc)
  have x31: "x < 2 ^ 31"
  proof -
    have "(2 :: nat) ^ (32 - Suc k) \<le> 2 ^ 31" by (rule power_increasing) auto
    then show ?thesis using Suc.prems(4) by linarith
  qed
  define x1 where "x1 = (x * 2 + 1) mod 2 ^ 64"
  define x' where "x' = (if drop_bit (2 * k) N < (x1 * x1) mod 2 ^ 64 then x1 - 1 else x1)"
  have "x1 = x * 2 + 1" using x31 by (simp add: x1_def)
  then have bound: "x' < 2 ^ (32 - k)" using Suc.prems(4) p by (auto simp: x'_def)
  from isqrt_loop_step [OF Suc.prems(1,2) x31]
  have "x' * x' \<le> drop_bit (2 * k) N" "drop_bit (2 * k) N < (x' + 1) * (x' + 1)"
    unfolding Let_def x1_def [symmetric] x'_def [symmetric] by blast+
  moreover have "isqrt_loop N x (Suc k) = isqrt_loop N x' k"
    unfolding isqrt_loop.simps Let_def x1_def [symmetric] x'_def [symmetric] ..
  ultimately show ?case using Suc.IH [of x'] bound Suc.prems(3) by simp
qed

lemma isqrt_correct:
  assumes "N < 2 ^ 64"
  shows "isqrt N * isqrt N \<le> N" "N < (isqrt N + 1) * (isqrt N + 1)" "isqrt N < 2 ^ 32"
proof -
  have "isqrt N * isqrt N \<le> N \<and> N < (isqrt N + 1) * (isqrt N + 1)"
    unfolding isqrt_def
    by (rule isqrt_loop_correct) (use assms in \<open>simp_all add: drop_bit_eq_div\<close>)
  then show "isqrt N * isqrt N \<le> N" "N < (isqrt N + 1) * (isqrt N + 1)" by simp_all
  show "isqrt N < 2 ^ 32"
  proof (rule ccontr)
    assume "\<not> isqrt N < 2 ^ 32"
    then have "2 ^ 32 * 2 ^ 32 \<le> isqrt N * isqrt N" by (intro mult_le_mono) simp_all
    then show False using \<open>isqrt N * isqrt N \<le> N\<close> assms by simp
  qed
qed

section \<open>The wheel skips no prime\<close>

text \<open>A packed word as a number in base eight, and the gaps it holds.\<close>

fun pack :: "nat list \<Rightarrow> nat" where
  "pack [] = 0"
| "pack (g # gs) = g + 8 * pack gs"

definition gap_ok :: "nat \<Rightarrow> bool" where
  "gap_ok g \<longleftrightarrow> g \<in> {2, 4, 6, 8, 10, 12, 14}"

lemma pack_even: "list_all gap_ok gs \<Longrightarrow> even (pack gs)"
  by (induction gs) (auto simp: gap_ok_def)

lemma pack_less: "list_all gap_ok gs \<Longrightarrow> pack gs + 2 \<le> 2 * 8 ^ length gs"
  by (induction gs) (auto simp: gap_ok_def)

lemma and_14: "n AND 14 = 2 * (n div 2 mod 8)" for n :: nat
proof -
  have "n AND 14 = 2 * (n div 2 AND mask 3)"
    by (subst and_rec) (simp add: mask_eq_exp_minus_1)
  then show ?thesis by (simp add: take_bit_eq_mod flip: take_bit_eq_mask)
qed

text \<open>
  A gap of eight or more reaches into the lowest bit of the next place, which \<^verbatim>\<open>v & 0xe\<close> does
  not see.
\<close>

lemma unpack_pack:
  assumes "list_all gap_ok gs" "length gs \<le> 20" "b \<le> 1"
  shows "unpack_word (of_nat (pack gs + b)) = gs"
  using assms
proof (induction gs arbitrary: b)
  case Nil
  then have "b = 0 \<or> b = 1" by linarith
  then show ?case by (subst unpack_word.simps) auto
next
  case (Cons g gs)
  have ev: "even (pack gs)" using Cons.prems by (simp add: pack_even)
  have less: "pack (g # gs) + b < 2 ^ 64"
  proof -
    have "pack (g # gs) + 2 \<le> 2 * 8 ^ length (g # gs)" using Cons.prems by (intro pack_less) simp
    also have "\<dots> \<le> 2 * 8 ^ 20" using Cons.prems(2) by (intro mult_left_mono power_increasing) auto
    finally show ?thesis using Cons.prems(3) by simp
  qed
  define n where "n = pack (g # gs) + b"
  have v: "unat (of_nat n :: u64) = n" using less by (simp add: unat_of_nat n_def del: of_nat_add of_nat_mult)
  obtain c where c: "pack gs = 2 * c" using ev by blast
  have g: "g = 2 \<or> g = 4 \<or> g = 6 \<or> g = 8 \<or> g = 10 \<or> g = 12 \<or> g = 14" "b = 0 \<or> b = 1"
    using Cons.prems by (auto simp: gap_ok_def)
  have n: "n = (g + b) + 16 * c" by (simp add: n_def c)
  have "(x + 16 * c) div 2 = x div 2 + 8 * c" "(x + 16 * c) div 8 = x div 8 + 2 * c" for x
    by (simp_all add: div_plus_div_distrib_dvd_right)
  then have "n div 2 = (g + b) div 2 + 8 * c" "n div 8 = pack gs + (g + b) div 8" by (simp_all add: n c)
  moreover have "2 * ((g + b) div 2 mod 8) = g" "(g + b) div 8 \<le> 1" using g by auto
  ultimately have low: "2 * (n div 2 mod 8) = g" "n div 8 = pack gs + (g + b) div 8" "(g + b) div 8 \<le> 1" by simp_all
  have u: "unat ((of_nat n :: u64) AND 0xe) = g" by (simp add: unsigned_and_eq v and_14 low(1))
  have "drop_bit 3 (of_nat n :: u64) = of_nat (pack gs + (g + b) div 8)"
  proof (rule word_unat_eq_iff [THEN iffD2])
    have "n div 8 < 2 ^ 64" using less by (simp add: n_def)
    then show "unat (drop_bit 3 (of_nat n :: u64)) = unat (of_nat (pack gs + (g + b) div 8) :: u64)"
      by (simp only: unat_drop_3 v low(2) [symmetric]) (simp add: unat_of_nat)
  qed
  moreover have "(of_nat n :: u64) AND 0xe \<noteq> 0" using u g(1) by (metis unat_0 zero_neq_numeral)
  ultimately have "unpack_word (of_nat n) = g # unpack_word (of_nat (pack gs + (g + b) div 8))"
    using u by (subst unpack_word.simps) simp
  then show ?case using Cons.IH [OF _ _ low(3)] Cons.prems by (simp add: n_def)
qed

text \<open>The gaps after the first five, as the words hold them.\<close>

definition gaps :: "nat list list" where
  "gaps =
    [[4, 2, 4, 6, 2, 6, 4, 2, 4, 6, 6, 2, 6, 4, 2, 6, 4, 6, 8, 4],
     [2, 4, 2, 4, 14, 4, 6, 2, 10, 2, 6, 6, 4, 2, 4, 6, 2, 10, 2, 4],
     [2, 12, 10, 2, 4, 2, 4, 6, 2, 6, 4, 6, 6, 6, 2, 6, 4, 2, 6, 4],
     [6, 8, 4, 2, 4, 6, 8, 6, 10, 2, 4, 6, 2, 6, 6, 4, 2, 4, 6, 2],
     [6, 4, 2, 6, 10, 2, 10, 2, 4, 2, 4, 6, 8, 4, 2, 4, 12, 2, 6, 4],
     [2, 6, 4, 6, 12, 2, 4, 2, 4, 8, 6, 4, 6, 2, 4, 6, 2, 6, 10, 2],
     [4, 6, 2, 6, 4, 2, 4, 2, 10, 2, 10, 2, 4, 6, 6, 2, 6, 6, 4, 6],
     [6, 2, 6, 4, 2, 6, 4, 6, 8, 4, 2, 6, 4, 8, 6, 4, 6, 2, 4, 6],
     [8, 6, 4, 2, 10, 2, 6, 4, 2, 4, 2, 10, 2, 10, 2, 4, 2, 4, 8, 6],
     [4, 2, 4, 6, 6, 2, 6, 4, 8, 4, 6, 8, 4, 2, 4, 2, 4, 8, 6, 4],
     [6, 6, 6, 2, 6, 6, 4, 2, 4, 6, 2, 6, 4, 2, 4, 2, 10, 2, 10, 2],
     [6, 4, 6, 2, 6, 4, 2, 4, 6, 6, 8, 4, 2, 6, 10, 8, 4, 2, 4, 2],
     [4, 8, 10, 6, 2, 4, 8, 6, 6, 4, 2, 4, 6, 2, 6, 4, 6, 2, 10, 2],
     [10, 2, 4, 2, 4, 6, 2, 6, 4, 2, 4, 6, 6, 2, 6, 6, 6, 4, 6, 8],
     [4, 2, 4, 2, 4, 8, 6, 4, 8, 4, 6, 2, 6, 6, 4, 2, 4, 6, 8, 4],
     [2, 4, 2, 10, 2, 10, 2, 4, 2, 4, 6, 2, 10, 2, 4, 6, 8, 6, 4, 2],
     [6, 4, 6, 8, 4, 6, 2, 4, 8, 6, 4, 6, 2, 4, 6, 2, 6, 6, 4, 6],
     [6, 2, 6, 6, 4, 2, 10, 2, 10, 2, 4, 2, 4, 6, 2, 6, 4, 2, 10, 6],
     [2, 6, 4, 2, 6, 4, 6, 8, 4, 2, 4, 2, 12, 6, 4, 6, 2, 4, 6, 2],
     [12, 4, 2, 4, 8, 6, 4, 2, 4, 2, 10, 2, 10, 6, 2, 4, 6, 2, 6, 4],
     [2, 4, 6, 6, 2, 6, 4, 2, 10, 6, 8, 6, 4, 2, 4, 8, 6, 4, 6, 2],
     [4, 6, 2, 6, 6, 6, 4, 6, 2, 6, 4, 2, 4, 2, 10, 12, 2, 4, 2, 10],
     [2, 6, 4, 2, 4, 6, 6, 2, 10, 2, 6, 4, 14, 4, 2, 4, 2, 4, 8, 6],
     [4, 6, 2, 4, 6, 2, 6, 6, 4, 2, 4, 6, 2, 6, 4, 2, 4, 12, 2, 12]]"

lemma packed_gaps: "packed_wheel = map (\<lambda>gs. of_nat (pack gs)) gaps"
  unfolding packed_wheel_def gaps_def by (simp add: P_def R_def upt_rec)

lemma gaps_ok: "list_all (\<lambda>gs. list_all gap_ok gs \<and> length gs = 20) gaps" "length gaps = 24"
  by (simp_all add: gaps_def gap_ok_def)

lemma unpack_wheel_gaps: "unpack_wheel = [1, 2, 2, 4, 2] @ concat gaps"
proof -
  have "unpack_word (of_nat (pack gs)) = gs" if "gs \<in> set gaps" for gs
    using unpack_pack [of gs 0] gaps_ok(1) that by (auto simp: list_all_iff)
  then have "map unpack_word packed_wheel = gaps" by (simp add: packed_gaps map_idI)
  then show ?thesis by (simp add: unpack_wheel_def)
qed

fun wheel_ok :: "nat \<Rightarrow> nat list \<Rightarrow> bool" where
  "wheel_ok r [] \<longleftrightarrow> r = 2323"
| "wheel_ok r (g # gs) \<longleftrightarrow>
     list_all (\<lambda>n. n mod 3 = 0 \<or> n mod 5 = 0 \<or> n mod 7 = 0 \<or> n mod 11 = 0) (map (\<lambda>k. r + 2 * k) [1..<g div 2]) \<and> wheel_ok (r + g) gs"

lemma wheel_check: "wheel_ok 13 (concat gaps)"
  unfolding gaps_def by (simp add: upt_rec)

end
