(* ===== verification/Factor_Correct.thy ===== *)
theory Factor_Correct
  imports Factor
begin

text \<open>
  Correctness of \<^verbatim>\<open>factorize\<close> (\<^verbatim>\<open>coreutils/factor.c\<close>): it returns for every number, and prints
  the prime factors in order.
\<close>

section \<open>The position on the wheel\<close>

definition wheel_pos :: "nat \<Rightarrow> nat" where
  "wheel_pos w = 2 + sum_list (take w unpack_wheel)"

definition on_wheel :: "nat \<Rightarrow> nat \<Rightarrow> bool" where
  "on_wheel f w \<longleftrightarrow> w < WHEEL_SIZE \<and> (\<exists>q. f = wheel_pos w + 2310 * q \<and> (w < WHEEL_START \<longrightarrow> q = 0))"

definition next_w :: "nat \<Rightarrow> nat" where
  "next_w w = (if w + 1 < WHEEL_SIZE then w + 1 else WHEEL_START)"

definition no_divisor_below :: "nat \<Rightarrow> nat \<Rightarrow> bool" where
  "no_divisor_below f N \<longleftrightarrow> (\<forall>d. 2 \<le> d \<longrightarrow> d < f \<longrightarrow> \<not> d dvd N)"

lemma concat_length: "list_all (\<lambda>gs. length gs = k) gss \<Longrightarrow> length (concat gss) = length gss * k"
  by (induction gss) auto

lemma length_wheel: "length unpack_wheel = 485"
proof -
  have "list_all (\<lambda>gs. length gs = 20) gaps" using gaps_ok(1) by (auto simp: list_all_iff)
  from concat_length [OF this] show ?thesis by (simp add: unpack_wheel_gaps gaps_ok(2))
qed

lemma gap_even: "g \<in> set (concat gaps) \<Longrightarrow> gap_ok g"
  using gaps_ok(1) by (auto simp: list_all_iff)

lemma wheel_ok_sum: "wheel_ok r gs \<Longrightarrow> r + sum_list gs = 2323"
  by (induction r gs rule: wheel_ok.induct) auto

lemma wheel_ok_nth:
  assumes "wheel_ok r gs" "i < length gs" "0 < k" "2 * k < gs ! i" "list_all even gs"
  shows "\<exists>d \<in> {3, 5, 7, 11}. d dvd r + sum_list (take i gs) + 2 * k"
  using assms
proof (induction r gs arbitrary: i rule: wheel_ok.induct)
  case (2 r g gs)
  show ?case
  proof (cases i)
    case 0
    then have "even g" "2 * k < g" using "2.prems"(4,5) by simp_all
    then have "k \<in> set [1..<g div 2]" using "2.prems"(3) by (auto elim!: evenE)
    then have "r + 2 * k \<in> set (map (\<lambda>k. r + 2 * k) [1..<g div 2])" unfolding set_map by (rule imageI)
    from bspec [OF conjunct1 [OF "2.prems"(1) [unfolded wheel_ok.simps list_all_iff]] this]
    have "(r + 2 * k) mod 3 = 0 \<or> (r + 2 * k) mod 5 = 0 \<or> (r + 2 * k) mod 7 = 0 \<or> (r + 2 * k) mod 11 = 0" .
    then show ?thesis unfolding 0 dvd_eq_mod_eq_0 by simp
  next
    case (Suc j)
    then show ?thesis using "2.IH" [of j] "2.prems" by (simp add: add.assoc)
  qed
qed simp

lemma even_gaps: "list_all even (concat gaps)"
  by (auto dest!: gap_even simp: list_all_iff gap_ok_def simp del: set_concat)

lemma even_sum_list: "(\<And>x. x \<in> set xs \<Longrightarrow> even x) \<Longrightarrow> even (sum_list xs)" for xs :: "nat list"
  by (induction xs) auto

lemma wheel_pos_Suc: "w < 485 \<Longrightarrow> wheel_pos (Suc w) = wheel_pos w + unpack_wheel ! w"
  by (simp add: wheel_pos_def take_Suc_conv_app_nth length_wheel)

lemma wheel_pos_late: "wheel_pos (5 + i) = 13 + sum_list (take i (concat gaps))"
  by (simp add: wheel_pos_def unpack_wheel_gaps take_add)

lemma wheel_pos_early: "wheel_pos 0 = 2" "wheel_pos 1 = 3" "wheel_pos 2 = 5" "wheel_pos 3 = 7" "wheel_pos 4 = 11" "wheel_pos 5 = 13"
  by (simp_all add: wheel_pos_def unpack_wheel_gaps numeral_eq_Suc)

lemma wheel_pos_end: "wheel_pos 485 = 2323"
  using wheel_pos_late [of 480] wheel_ok_sum [OF wheel_check] length_wheel by (simp add: unpack_wheel_gaps)

lemma wheel_early: "unpack_wheel ! 0 = 1" "unpack_wheel ! 1 = 2" "unpack_wheel ! 2 = 2" "unpack_wheel ! 3 = 4" "unpack_wheel ! 4 = 2"
  by (simp_all add: unpack_wheel_gaps)

lemma wheel_gap_bounds:
  assumes "w < 485"
  shows "0 < unpack_wheel ! w" "unpack_wheel ! w \<le> 14"
proof -
  have "unpack_wheel ! w \<in> set unpack_wheel" using assms by (simp add: length_wheel)
  then have "unpack_wheel ! w \<in> {1, 2, 4} \<or> gap_ok (unpack_wheel ! w)"
    using gap_even by (auto simp: unpack_wheel_gaps simp del: set_concat)
  then show "0 < unpack_wheel ! w" "unpack_wheel ! w \<le> 14" by (auto simp: gap_ok_def)
qed

text \<open>The next candidate is on the wheel again.\<close>

lemma on_wheel_next:
  assumes "on_wheel f w"
  shows "on_wheel (f + unpack_wheel ! w) (next_w w)"
proof -
  obtain q where q: "w < 485" "f = wheel_pos w + 2310 * q" "w < 5 \<longrightarrow> q = 0"
    using assms by (auto simp: on_wheel_def WHEEL_SIZE_def WHEEL_START_def)
  show ?thesis
  proof (cases "w = 484")
    case True
    then have "f + unpack_wheel ! w = wheel_pos 5 + 2310 * Suc q"
      using q(2) wheel_pos_Suc [of 484] wheel_pos_end by (simp add: wheel_pos_early)
    then show ?thesis using True by (auto simp: on_wheel_def WHEEL_SIZE_def WHEEL_START_def next_w_def intro!: exI [of _ "Suc q"])
  next
    case False
    then have "f + unpack_wheel ! w = wheel_pos (Suc w) + 2310 * q" using q wheel_pos_Suc by simp
    then show ?thesis using False q by (auto simp: on_wheel_def WHEEL_SIZE_def WHEEL_START_def next_w_def intro!: exI [of _ q])
  qed
qed

text \<open>Every number between two candidates has a smaller divisor.\<close>

lemma between:
  assumes "on_wheel f w" "f < n" "n < f + unpack_wheel ! w"
  shows "\<exists>d. 2 \<le> d \<and> d < n \<and> d dvd n"
proof -
  obtain q where q: "w < 485" "f = wheel_pos w + 2310 * q" "w < 5 \<longrightarrow> q = 0"
    using assms(1) by (auto simp: on_wheel_def WHEEL_SIZE_def WHEEL_START_def)
  show ?thesis
  proof (cases "w < 5")
    case True
    then consider "w = 0" | "w = 1" | "w = 2" | "w = 3" | "w = 4" by linarith
    then show ?thesis
    proof cases
      case 1 then show ?thesis using assms(2,3) q wheel_early wheel_pos_early by simp
    next
      case 2
      then have "n = 4" using assms(2,3) q wheel_early wheel_pos_early by simp
      then show ?thesis by (intro exI [of _ 2]) simp
    next
      case 3
      then have "n = 6" using assms(2,3) q wheel_early wheel_pos_early by simp
      then show ?thesis by (intro exI [of _ 2]) simp
    next
      case 4
      then have "n = 8 \<or> n = 9 \<or> n = 10" using assms(2,3) q wheel_early wheel_pos_early by auto
      then show ?thesis by (elim disjE) (rule exI [of _ 2] exI [of _ 3], simp)+
    next
      case 5
      then have "n = 12" using assms(2,3) q wheel_early wheel_pos_early by simp
      then show ?thesis by (intro exI [of _ 2]) simp
    qed
  next
    case False
    define i where "i = w - 5"
    have i: "w = 5 + i" "i < 480" using False q(1) by (simp_all add: i_def)
    have nth: "unpack_wheel ! w = concat gaps ! i" using i by (simp add: unpack_wheel_gaps nth_append)
    have len: "length (concat gaps) = 480" using length_wheel by (simp add: unpack_wheel_gaps)
    have f: "f = 13 + sum_list (take i (concat gaps)) + 2310 * q" using q(2) i wheel_pos_late by simp
    have big: "13 < n" using assms(2) f by linarith
    show ?thesis
    proof (cases "even n")
      case True
      then show ?thesis using big by (intro exI [of _ 2]) simp
    next
      case odd: False
      have "even (sum_list (take i (concat gaps)))"
        using even_gaps by (intro even_sum_list) (auto simp: list_all_iff simp del: set_concat dest: in_set_takeD)
      then have "odd f" using f by simp
      then have "even (n - f)" using odd by simp
      then obtain k where "n - f = 2 * k" by (rule evenE)
      then have k: "n = f + 2 * k" using assms(2) by simp
      have "\<exists>d \<in> {3, 5, 7, 11}. d dvd 13 + sum_list (take i (concat gaps)) + 2 * k"
        by (rule wheel_ok_nth [OF wheel_check]) (use i len nth k assms(2,3) even_gaps in auto)
      then obtain d where d: "d \<in> {3, 5, 7, 11}" "d dvd 13 + sum_list (take i (concat gaps)) + 2 * k" by blast
      have "d dvd 2310" using d(1) by auto
      then have "d dvd n" using d(2) unfolding k f by (metis add.assoc add.commute dvd_add dvd_mult2)
      then show ?thesis using d(1) big by (intro exI [of _ d]) auto
    qed
  qed
qed

lemma no_divisor_next:
  assumes "on_wheel f w" "no_divisor_below f N" "\<not> f dvd N"
  shows "no_divisor_below (f + unpack_wheel ! w) N"
  unfolding no_divisor_below_def
proof (intro allI impI notI)
  fix n
  assume n: "2 \<le> n" "n < f + unpack_wheel ! w" "n dvd N"
  show False
    using n
  proof (induction n rule: less_induct)
    case (less n)
    then have "f < n" using assms(2,3) by (metis linorder_neqE_nat no_divisor_below_def)
    from between [OF assms(1) this less.prems(2)] obtain d where "2 \<le> d" "d < n" "d dvd n" by blast
    then show False using less.IH [of d] less.prems by (meson dvd_trans less_trans)
  qed
qed

section \<open>Correctness\<close>

definition is_prime :: "nat \<Rightarrow> bool" where
  "is_prime p \<longleftrightarrow> 2 \<le> p \<and> (\<forall>d \<in> {2..<p}. \<not> d dvd p)"

lemma least_divisor_prime:
  assumes "2 \<le> p" "p dvd N" "no_divisor_below p N"
  shows "is_prime p"
  using assms unfolding is_prime_def no_divisor_below_def by (meson atLeastLessThan_iff dvd_trans)

lemma no_divisor_prime:
  assumes "2 \<le> N" "no_divisor_below f N" "N < f * f"
  shows "is_prime N"
  unfolding is_prime_def
proof (intro conjI ballI notI)
  fix d
  assume d: "d \<in> {2..<N}" "d dvd N"
  then obtain e where e: "N = d * e" by blast
  have "2 \<le> e" using d e by (cases e; cases "e - 1"; auto)
  have "f \<le> d" using d assms(2) by (meson atLeastLessThan_iff linorder_not_le no_divisor_below_def)
  moreover have "f \<le> e"
    using \<open>2 \<le> e\<close> e assms(2) by (metis dvd_triv_right linorder_not_le no_divisor_below_def)
  ultimately have "f * f \<le> N" unfolding e by (rule mult_le_mono)
  then show False using assms(3) by simp
qed (use assms in simp)

text \<open>What is printed for \<open>N\<close> with every factor \<open>sc\<close> times.\<close>

definition factors_of :: "nat \<Rightarrow> nat \<Rightarrow> nat list option \<Rightarrow> bool" where
  "factors_of sc N r \<longleftrightarrow> (\<exists>out. r = Some out \<and> sorted out \<and> (\<forall>p \<in> set out. is_prime p \<and> p dvd N) \<and> prod_list out = N ^ sc)"

lemma sorted_replicate: "sorted (replicate k (n :: nat))"
  by (induction k) auto

lemma prod_list_replicate: "prod_list (replicate k (n :: nat)) = n ^ k"
  by (induction k) auto

lemma factors_of_one: "factors_of sc 1 (Some [])"
  by (simp add: factors_of_def)

lemma factors_of_prime:
  assumes "is_prime N" "0 < sc"
  shows "factors_of sc N (Some (print_rest sc N))"
  using assms by (auto simp: factors_of_def print_rest_def print_w_def is_prime_def sorted_replicate prod_list_replicate)

lemma factors_of_cons:
  assumes "is_prime f" "no_divisor_below f N" "0 < sc" "factors_of sc N r"
  shows "factors_of sc (f * N) (do { out \<leftarrow> r; Some (print_w sc f @ out) })"
proof -
  obtain out where out: "r = Some out" "sorted out" "\<forall>p \<in> set out. is_prime p \<and> p dvd N" "prod_list out = N ^ sc"
    using assms(4) by (auto simp: factors_of_def)
  have "f \<le> p" if "p \<in> set out" for p
    using out(3) that assms(2) by (meson is_prime_def linorder_not_le no_divisor_below_def)
  then show ?thesis
    using out assms(1,3)
    by (auto simp: factors_of_def print_w_def sorted_append sorted_replicate prod_list_replicate power_mult_distrib)
qed

lemma factors_of_square:
  assumes "factors_of (2 * sc) s r"
  shows "factors_of sc (s * s) r"
  using assms by (auto simp: factors_of_def power_mult power2_eq_square)

lemma is_prime_2_3: "is_prime 2" "is_prime 3"
proof -
  have "{2..<3 :: nat} = {2}" by auto
  then show "is_prime 2" "is_prime 3" by (simp_all add: is_prime_def)
qed

lemma small_power:
  fixes N :: nat
  assumes "N ^ sc < 2 ^ 64" "2 \<le> N"
  shows "sc < 64"
proof (rule ccontr)
  assume "\<not> sc < 64"
  then have "(2 :: nat) ^ 64 \<le> 2 ^ sc" by (intro power_increasing) auto
  also have "\<dots> \<le> N ^ sc" using assms(2) by (rule power_mono) simp
  finally show False using assms(1) by simp
qed

lemma small_base:
  fixes N :: nat
  assumes "N ^ sc < 2 ^ 64" "0 < sc"
  shows "N < 2 ^ 64"
proof -
  have "N \<le> N ^ sc" using assms(2) by (cases "N = 0") (auto intro: self_le_power)
  then show ?thesis using assms(1) by simp
qed

section \<open>The two points of the loop\<close>

lemma at_entry:
  "factorize_at sc N Entry =
    (if N < 4 then Some (print_rest sc N)
     else case isqrt_odd N of
            None \<Rightarrow> factorize_at (sc * 2 mod 256) (isqrt N) Entry
          | Some max_factor \<Rightarrow> factorize_at sc N (Trial 2 max_factor 0))"
  by (subst factorize_at.simps) simp

lemma at_trial:
  "factorize_at sc N (Trial f max_factor w) =
    (if N mod f = 0 then
       do {
         out \<leftarrow> (case isqrt_odd (N div f) of
            None \<Rightarrow> factorize_at (sc * 2 mod 256) (isqrt (N div f)) Entry
          | Some max_factor \<Rightarrow> factorize_at sc (N div f) (Trial f max_factor w));
         Some (print_w sc f @ out)
       }
     else if max_factor \<le> f then Some (print_rest sc N)
     else if (f + unpack_wheel ! w) mod 2 ^ 32 < f then Some (print_rest sc N)
     else factorize_at sc N (Trial ((f + unpack_wheel ! w) mod 2 ^ 32) max_factor (next_w w)))"
  by (subst factorize_at.simps) (simp add: next_w_def Let_def)

text \<open>
  The invariant of the loop: no number below the factor divides \<open>N\<close>, the factor is on the wheel,
  and \<open>max_factor\<close> is the odd root of a number that is no square.
\<close>

definition trial_ok :: "nat \<Rightarrow> nat \<Rightarrow> nat \<Rightarrow> nat \<Rightarrow> nat \<Rightarrow> bool" where
  "trial_ok sc N f max_factor w \<longleftrightarrow>
     0 < sc \<and> N ^ sc < 2 ^ 64 \<and> 2 \<le> N \<and> isqrt_odd N = Some max_factor \<and> 2 \<le> f \<and> f < 2 ^ 32 \<and> no_divisor_below f N \<and> on_wheel f w"

definition entry_ok :: "nat \<Rightarrow> nat \<Rightarrow> bool" where
  "entry_ok sc N \<longleftrightarrow> N = 1 \<or> 2 \<le> N \<and> 0 < sc \<and> N ^ sc < 2 ^ 64"

lemma isqrt_odd_None:
  assumes "N < 2 ^ 64" "isqrt_odd N = None"
  shows "isqrt N * isqrt N = N"
proof -
  have "isqrt N * isqrt N < 2 ^ 64" using isqrt_correct(1) [OF assms(1)] assms(1) by simp
  then show ?thesis using assms(2) by (simp add: isqrt_odd_def Let_def split: if_splits)
qed

lemma isqrt_odd_Some:
  assumes "N < 2 ^ 64" "isqrt_odd N = Some s"
  shows "isqrt N * isqrt N \<noteq> N" "s = (isqrt N - 1) OR 1"
proof -
  have "isqrt N * isqrt N < 2 ^ 64" using isqrt_correct(1) [OF assms(1)] assms(1) by simp
  then show "isqrt N * isqrt N \<noteq> N" "s = (isqrt N - 1) OR 1"
    using assms(2) by (simp_all add: isqrt_odd_def Let_def split: if_splits)
qed

lemma isqrt_one: "isqrt 1 = 1"
proof -
  have "isqrt 1 * isqrt 1 \<le> 1" "1 < (isqrt 1 + 1) * (isqrt 1 + 1)" using isqrt_correct [of 1] by simp_all
  then show ?thesis by (cases "isqrt 1"; cases "isqrt 1 - 1"; auto)
qed

lemma isqrt_less:
  assumes "2 \<le> N" "N < 2 ^ 64"
  shows "isqrt N < N" "1 \<le> isqrt N"
proof -
  have c: "isqrt N * isqrt N \<le> N" "N < (isqrt N + 1) * (isqrt N + 1)" using isqrt_correct [OF assms(2)] by simp_all
  show "1 \<le> isqrt N" using c(2) assms(1) by (cases "isqrt N") auto
  show "isqrt N < N"
  proof (rule ccontr)
    assume "\<not> isqrt N < N"
    then have "N * N \<le> isqrt N * isqrt N" by (intro mult_le_mono) auto
    moreover have "2 * N \<le> N * N" using assms(1) by (rule mult_le_mono1)
    ultimately show False using c(1) assms(1) by linarith
  qed
qed

text \<open>When the factor has reached \<^verbatim>\<open>max_factor\<close>, what is left is prime.\<close>

lemma exhausted:
  assumes "trial_ok sc N f max_factor w" "\<not> f dvd N" "max_factor \<le> f"
  shows "is_prime N"
proof -
  have N: "2 \<le> N" "N < 2 ^ 64" "isqrt_odd N = Some max_factor" "2 \<le> f" "no_divisor_below f N"
    using assms(1) small_base by (auto simp: trial_ok_def)
  define s where "s = isqrt N"
  have s: "1 \<le> s" "N < (s + 1) * (s + 1)" using isqrt_less isqrt_correct N(1,2) by (auto simp: s_def)
  have m: "max_factor = (if odd s then s else s - 1)"
    using isqrt_odd_Some(2) [OF N(2,3)] s(1) unfolding or_one_eq s_def [symmetric] by auto
  have f: "no_divisor_below (Suc f) N"
    using N(5) assms(2) by (auto simp: no_divisor_below_def less_Suc_eq)
  have "no_divisor_below (s + 1) N"
  proof (cases "s \<le> f")
    case True
    then show ?thesis using f by (auto simp: no_divisor_below_def)
  next
    case False
    then have "even s" "s = f + 1" using m assms(3) by (auto split: if_splits)
    then have "\<not> 2 dvd N" "2 dvd s" using N(4) f by (auto simp: no_divisor_below_def)
    then have "\<not> s dvd N" by (meson dvd_trans)
    then show ?thesis using f \<open>s = f + 1\<close> by (auto simp: no_divisor_below_def less_Suc_eq)
  qed
  from no_divisor_prime [OF N(1) this s(2)] show ?thesis .
qed

text \<open>A step to the next factor keeps the invariant, or the factor leaves the 32 bits and the rest is prime.\<close>

lemma next_factor:
  assumes "trial_ok sc N f max_factor w" "\<not> f dvd N"
  defines "fw \<equiv> (f + unpack_wheel ! w) mod 2 ^ 32"
  shows "if fw < f then is_prime N else f < fw \<and> trial_ok sc N fw max_factor (next_w w)"
proof -
  have w: "w < 485" "f < 2 ^ 32" "2 \<le> N" "N < 2 ^ 64"
    using assms(1) small_base by (auto simp: trial_ok_def on_wheel_def WHEEL_SIZE_def)
  have nd: "no_divisor_below (f + unpack_wheel ! w) N"
    using assms(1,2) by (intro no_divisor_next) (auto simp: trial_ok_def)
  show ?thesis
  proof (cases "f + unpack_wheel ! w < 2 ^ 32")
    case True
    then have "fw = f + unpack_wheel ! w" by (simp add: fw_def)
    then show ?thesis using wheel_gap_bounds [OF w(1)] assms(1) nd True on_wheel_next by (auto simp: trial_ok_def)
  next
    case False
    then have "fw = f + unpack_wheel ! w - 2 ^ 32"
      using w(2) wheel_gap_bounds [OF w(1)] by (simp add: fw_def mod_if)
    then have "fw < f" using wheel_gap_bounds [OF w(1)] w(2) False by simp
    moreover have "2 ^ 32 * 2 ^ 32 \<le> (f + unpack_wheel ! w) * (f + unpack_wheel ! w)"
      using False by (intro mult_le_mono) simp_all
    ultimately show ?thesis using no_divisor_prime [OF w(3) nd] w(4) by simp
  qed
qed

lemma square_case:
  assumes "isqrt_odd N = None" "N ^ sc < 2 ^ 64" "0 < sc" "sc < 64" "1 \<le> N"
    "\<And>sc'. entry_ok sc' (isqrt N) \<Longrightarrow> factors_of sc' (isqrt N) (factorize_at sc' (isqrt N) Entry)"
  shows "factors_of sc N (factorize_at (sc * 2 mod 256) (isqrt N) Entry)"
proof -
  have sq: "isqrt N * isqrt N = N" using small_base isqrt_odd_None assms(1-3) by blast
  have "isqrt N ^ (sc * 2) = N ^ sc"
    by (metis mult.commute power2_eq_square power_mult sq)
  moreover have "isqrt N \<noteq> 0" using sq assms(5) by (metis mult_0 not_one_le_zero)
  ultimately have "entry_ok (sc * 2) (isqrt N)" using assms(2,3) by (auto simp: entry_ok_def)
  from factors_of_square [of sc "isqrt N", unfolded sq mult.commute [of 2], OF assms(6) [OF this]]
  show ?thesis using assms(4) by simp
qed

lemma trial_correct:
  assumes "\<And>N' sc'. N' < N \<Longrightarrow> entry_ok sc' N' \<Longrightarrow> factors_of sc' N' (factorize_at sc' N' Entry)"
    and "\<And>N' f w m. N' < N \<Longrightarrow> trial_ok sc N' f m w \<Longrightarrow> factors_of sc N' (factorize_at sc N' (Trial f m w))"
    and "trial_ok sc N f m w"
  shows "factors_of sc N (factorize_at sc N (Trial f m w))"
  using assms(3)
proof (induction "2 ^ 32 - f" arbitrary: f w rule: less_induct)
  case less
  have N: "2 \<le> N" "N ^ sc < 2 ^ 64" "0 < sc" "2 \<le> f" "no_divisor_below f N" "f < 2 ^ 32" "sc < 64"
    using less.prems small_power by (auto simp: trial_ok_def)
  show ?case
  proof (cases "f dvd N")
    case True
    define N' where "N' = N div f"
    have NN: "N = f * N'" using True by (simp add: N'_def)
    have "1 \<le> N'" using NN N(1) by (cases N') simp_all
    moreover have "2 * N' \<le> N" unfolding NN using N(4) by (rule mult_le_mono1)
    ultimately have N': "1 \<le> N'" "N' < N" by simp_all
    have pw: "N' ^ sc < 2 ^ 64" using N(2) N'(2) power_mono [of N' N sc] by linarith
    have nd: "no_divisor_below f N'" using N(5) NN by (auto simp: no_divisor_below_def)
    have "factors_of sc N' (case isqrt_odd N' of
            None \<Rightarrow> factorize_at (sc * 2 mod 256) (isqrt N') Entry
          | Some max_factor \<Rightarrow> factorize_at sc N' (Trial f max_factor w))"
    proof (cases "isqrt_odd N'")
      case None
      have "isqrt N' \<le> N'" using isqrt_less(1) [of N'] small_base [OF pw N(3)] isqrt_one N'(1) by (cases "N' = 1") auto
      then show ?thesis using None assms(1) N' square_case [OF None pw N(3,7) N'(1)] by simp
    next
      case (Some m')
      have "N' \<noteq> 1" using Some isqrt_odd_Some(1) [of 1 m'] isqrt_one by auto
      then have "trial_ok sc N' f m' w"
        using Some less.prems N' pw nd by (auto simp: trial_ok_def)
      then show ?thesis using Some assms(2) N'(2) by simp
    qed
    from factors_of_cons [OF least_divisor_prime [OF N(4) True N(5)] nd N(3) this]
    have "factors_of sc N (do {
         out \<leftarrow> (case isqrt_odd N' of
            None \<Rightarrow> factorize_at (sc * 2 mod 256) (isqrt N') Entry
          | Some max_factor \<Rightarrow> factorize_at sc N' (Trial f max_factor w));
         Some (print_w sc f @ out)
       })" unfolding NN [symmetric] .
    then show ?thesis using True by (subst at_trial) (simp flip: N'_def cong: option.case_cong)
  next
    case False
    then have nz: "N mod f \<noteq> 0" by (simp add: dvd_eq_mod_eq_0)
    have nf: "if (f + unpack_wheel ! w) mod 2 ^ 32 < f then is_prime N
      else f < (f + unpack_wheel ! w) mod 2 ^ 32 \<and> trial_ok sc N ((f + unpack_wheel ! w) mod 2 ^ 32) m (next_w w)"
      using next_factor [OF less.prems False] by simp
    show ?thesis
    proof (cases "m \<le> f \<or> (f + unpack_wheel ! w) mod 2 ^ 32 < f")
      case True
      then have "is_prime N" using exhausted [OF less.prems False] nf by auto
      from factors_of_prime [OF this N(3)] show ?thesis using True nz by (subst at_trial) auto
    next
      case cont: False
      have "factors_of sc N (factorize_at sc N (Trial ((f + unpack_wheel ! w) mod 2 ^ 32) m (next_w w)))"
        by (rule less.hyps) (use cont nf N(6) in auto)
      then show ?thesis using cont nz by (subst at_trial) simp
    qed
  qed
qed

lemma factorize_at_correct:
  "(entry_ok sc N \<longrightarrow> factors_of sc N (factorize_at sc N Entry)) \<and>
   (trial_ok sc N f m w \<longrightarrow> factors_of sc N (factorize_at sc N (Trial f m w)))"
proof (induction N arbitrary: sc f m w rule: less_induct)
  case (less N)
  have trial: "factors_of sc N (factorize_at sc N (Trial f m w))" if "trial_ok sc N f m w" for sc f m w
    using trial_correct [OF _ _ that] less.IH by blast
  have "factors_of sc N (factorize_at sc N Entry)" if e: "entry_ok sc N" for sc
  proof (cases "N < 4")
    case True
    then have "N = 1 \<or> N = 2 \<or> N = 3" using e unfolding entry_ok_def by linarith
    then have "N = 1 \<or> is_prime N" using is_prime_2_3 by blast
    then have "factors_of sc N (Some (print_rest sc N))"
    proof
      assume "N = 1"
      then show ?thesis using factors_of_one by (simp add: print_rest_def)
    next
      assume "is_prime N"
      then show ?thesis using e factors_of_prime by (auto simp: entry_ok_def is_prime_def)
    qed
    then show ?thesis using True by (subst at_entry) simp
  next
    case False
    then have N: "2 \<le> N" "0 < sc" "N ^ sc < 2 ^ 64" "sc < 64" "N < 2 ^ 64"
      using e small_power small_base by (auto simp: entry_ok_def)
    show ?thesis
    proof (cases "isqrt_odd N")
      case None
      have "factors_of sc N (factorize_at (sc * 2 mod 256) (isqrt N) Entry)"
        by (rule square_case [OF None N(3,2,4)]) (use N less.IH isqrt_less in auto)
      then show ?thesis using None False by (subst at_entry) simp
    next
      case (Some m)
      have "on_wheel 2 0" by (simp add: on_wheel_def wheel_pos_def WHEEL_SIZE_def)
      then have "trial_ok sc N 2 m 0" using Some N by (simp add: trial_ok_def no_divisor_below_def)
      then show ?thesis using trial Some False by (subst at_entry) simp
    qed
  qed
  then show ?case using trial by blast
qed

text \<open>
  C21. \<^verbatim>\<open>factorize\<close> returns for every 64-bit number but zero, and what it prints are the prime
  factors with their multiplicity, in ascending order.
\<close>

theorem factorize_correct:
  assumes "0 < N" "N < 2 ^ 64"
  shows "\<exists>out. factorize N = Some out \<and> sorted out \<and> (\<forall>p \<in> set out. is_prime p) \<and> prod_list out = N"
proof -
  have "entry_ok 1 N" using assms by (auto simp: entry_ok_def)
  then show ?thesis using factorize_at_correct by (fastforce simp: factorize_def factors_of_def)
qed

theorem factorize_correct_witness:
  "\<exists>out. factorize 18446744073709551557 = Some out \<and> sorted out \<and> (\<forall>p \<in> set out. is_prime p) \<and> prod_list out = 18446744073709551557"
  by (rule factorize_correct) simp_all

end
