(* ===== verification/Uu_Codec.thy ===== *)
theory Uu_Codec
  imports Prelude
begin

text \<open>
  The encoders and decoders of \<^verbatim>\<open>libbb/uuencode.c\<close> and the base32 encoder of
  \<^verbatim>\<open>coreutils/uudecode.c\<close>. The encoders write through a pointer into the memory they read from (the
  applet places source and destination in one buffer), so they are modelled on one byte memory with
  two positions. A decoder gets the text up to its NUL and returns the decoded bytes with the part
  of the text it leaves to the caller.
\<close>

section \<open>Tables\<close>

definition bb_uuenc_tbl_base32 :: bytes where
  "bb_uuenc_tbl_base32 = ascii ''ABCDEFGHIJKLMNOPQRSTUVWXYZ234567''"

definition bb_uuenc_tbl_base64 :: bytes where
  "bb_uuenc_tbl_base64 = ascii ''ABCDEFGHIJKLMNOPQRSTUVWXYZabcdefghijklmnopqrstuvwxyz0123456789+/=''"

definition bb_uuenc_tbl_std :: bytes where
  "bb_uuenc_tbl_std =
     ascii ([CHR 0x60] @ ''!'' @ [CHR 0x22] @ ''#$%&'' @ [CHR 0x27] @ ''()*+,-./'' @ ''0123456789:;<=>?'' @
       ''@ABCDEFGHIJKLMNOPQRSTUVWXYZ['' @ [CHR 0x5C] @ '']^_'' @ [CHR 0x60])"

section \<open>Encoders\<close>

text \<open>The loop of \<^verbatim>\<open>bb_uuencode\<close>: memory, \<open>p\<close>, \<open>s\<close> and the \<^verbatim>\<open>int\<close> length.\<close>

function uu_loop :: "bytes \<Rightarrow> bytes \<Rightarrow> nat \<Rightarrow> nat \<Rightarrow> int \<Rightarrow> bytes \<times> nat \<times> int" where
  "uu_loop tbl mem p s len =
     (if len > 0 then
        (let len = len - 3;
             s1 = (if len \<ge> -1 then ucast (mem ! (s + 1)) else 0 :: u32);
             s2 = (if len \<ge> 0 then ucast (mem ! (s + 2)) else 0 :: u32);
             mem = mem[p := tbl ! unat (drop_bit 2 (ucast (mem ! s) :: u32))];
             mem = mem[p + 1 := tbl ! unat (push_bit 4 (ucast (mem ! s) AND 3) + drop_bit 4 s1 :: u32)];
             mem = mem[p + 2 := tbl ! unat (push_bit 2 (s1 AND 0xf) + drop_bit 6 s2)];
             mem = mem[p + 3 := tbl ! unat (s2 AND 0x3f)]
         in uu_loop tbl mem (p + 4) (s + 3) len)
      else (mem, p, len))"
  by pat_completeness auto
termination by (relation "measure (\<lambda>(_, _, _, _, len). nat len)") auto

declare uu_loop.simps [simp del]

fun uu_pad :: "u8 \<Rightarrow> bytes \<Rightarrow> nat \<Rightarrow> nat \<Rightarrow> bytes" where
  "uu_pad c mem p 0 = mem"
| "uu_pad c mem p (Suc k) = uu_pad c (mem[p - 1 := c]) (p - 1) k"

definition bb_uuencode :: "bytes \<Rightarrow> nat \<Rightarrow> nat \<Rightarrow> nat \<Rightarrow> bytes \<Rightarrow> bytes" where
  "bb_uuencode mem p s len tbl =
     (let (mem, p, len) = uu_loop tbl mem p s (int len);
          mem = mem[p := 0]
      in uu_pad (tbl ! 64) mem p (nat (- len)))"

text \<open>The loop of \<^verbatim>\<open>bb_b32encode\<close>. A byte is read only while the length says there is one.\<close>

definition b32_next :: "bytes \<Rightarrow> nat \<Rightarrow> int \<Rightarrow> u32 \<times> nat" where
  "b32_next mem s len = (if len \<ge> 0 then (ucast (mem ! s), s + 1) else (0, s))"

function b32_loop :: "bytes \<Rightarrow> nat \<Rightarrow> nat \<Rightarrow> int \<Rightarrow> bytes \<times> nat \<times> int" where
  "b32_loop mem p s len =
     (let tbl = (\<lambda>k :: u32. bb_uuenc_tbl_base32 ! unat k) in
      if len > 0 then
        (let len = len - 1;
             (cur, s) = (ucast (mem ! s) :: u32, s + 1);
             mem = mem[p := tbl (drop_bit 3 cur)];
             cur = cur AND 7;
             len = len - 1;
             (nxt, s) = b32_next mem s len;
             mem = mem[p + 1 := tbl (push_bit 2 cur + drop_bit 6 nxt)];
             cur = nxt AND 0x3f;
             mem = mem[p + 2 := tbl (drop_bit 1 cur)];
             cur = cur AND 1;
             len = len - 1;
             (nxt, s) = b32_next mem s len;
             mem = mem[p + 3 := tbl (push_bit 4 cur + drop_bit 4 nxt)];
             cur = nxt AND 0xf;
             len = len - 1;
             (nxt, s) = b32_next mem s len;
             mem = mem[p + 4 := tbl (push_bit 1 cur + drop_bit 7 nxt)];
             cur = nxt AND 0x7f;
             mem = mem[p + 5 := tbl (drop_bit 2 cur)];
             cur = cur AND 3;
             len = len - 1;
             (nxt, s) = b32_next mem s len;
             mem = mem[p + 6 := tbl (push_bit 3 cur + drop_bit 5 nxt)];
             cur = nxt AND 0x1f;
             mem = mem[p + 7 := tbl cur]
         in b32_loop mem (p + 8) s len)
      else (mem, p, len))"
  by pat_completeness auto
termination by (relation "measure (\<lambda>(_, _, _, len). nat len)") auto

declare b32_loop.simps [simp del]

definition bb_b32encode :: "bytes \<Rightarrow> nat \<Rightarrow> nat \<Rightarrow> nat \<Rightarrow> bytes" where
  "bb_b32encode mem p s len =
     (let (mem, p, len) = b32_loop mem p s (int len);
          mem = mem[p := 0]
      in uu_pad (of_char CHR ''='') mem p (nat (drop_bit 1 (- len * 3))))"

section \<open>Decoders\<close>

text \<open>
  The value \<open>t\<close> of a character, with its place \<open>i\<close> in the group and the text after it; \<open>None\<close>
  where the code skips the character.
\<close>

definition base64_value :: "u32 \<Rightarrow> nat \<Rightarrow> bytes \<Rightarrow> u32 option" where
  "base64_value t i src =
     (if t \<ge> 48 \<and> t \<le> 57 then Some (t - 48 + 52)
      else if t \<ge> 65 \<and> t \<le> 90 then Some (t - 65)
      else if t \<ge> 97 \<and> t \<le> 122 then Some (t - 97 + 26)
      else if t = 43 then Some 62
      else if t = 47 then Some 63
      else if t = 61 \<and> (i = 3 \<or> i = 2 \<and> src \<noteq> [] \<and> hd src = 61) then Some 0x1000000
      else None)"

fun decode_base64_loop :: "u32 \<Rightarrow> nat \<Rightarrow> bytes \<Rightarrow> bytes \<Rightarrow> bytes \<times> bytes \<times> nat" where
  "decode_base64_loop ch i dst [] = (dst, [], i)"
| "decode_base64_loop ch i dst (c # src) =
     (case base64_value (ucast c) i src of
        None \<Rightarrow> decode_base64_loop ch i dst src
      | Some t \<Rightarrow>
          (let ch = push_bit 6 ch OR t; i = (i + 1) AND 3
           in if i = 0 then
                (let dst = dst @ [ucast (drop_bit 16 ch), ucast (drop_bit 8 ch), ucast ch]
                 in if ch AND 0x1000000 \<noteq> 0 then
                      (if ch AND push_bit 6 0x1000000 \<noteq> 0 then butlast (butlast dst) else butlast dst, src, i)
                    else decode_base64_loop 0 i dst src)
              else decode_base64_loop ch i dst src))"

text \<open>The decoded bytes, and the text from \<^verbatim>\<open>src - i\<close> on.\<close>

definition decode_base64 :: "bytes \<Rightarrow> bytes \<times> bytes" where
  "decode_base64 text =
     (let (dst, src, i) = decode_base64_loop 0 0 [] text
      in (dst, drop (length text - length src - i) text))"

definition base32_value :: "u32 \<Rightarrow> nat \<Rightarrow> u32 option" where
  "base32_value t i =
     (if t \<ge> 50 \<and> t \<le> 55 then Some (t - 50 + 26)
      else if t = 61 \<and> i > 1 then Some 0
      else (let t = (t OR 0x20) - 97 in if t > 25 then None else Some t))"

text \<open>The label \<^verbatim>\<open>tail\<close>: \<open>prev\<close> is the text read so far, the last character first.\<close>

definition decode_base32_tail :: "u64 \<Rightarrow> bytes \<Rightarrow> bytes \<Rightarrow> bytes" where
  "decode_base32_tail ch dst prev =
     (let i = length (takeWhile (\<lambda>c. c = 61) prev);
          dst = dst @ [ucast (drop_bit 24 ch), ucast (drop_bit 16 ch), ucast (drop_bit 8 ch), ucast ch]
      in take (length dst - (i + 1) * 2 div 3) dst)"

fun decode_base32_loop :: "u64 \<Rightarrow> nat \<Rightarrow> bytes \<Rightarrow> bytes \<Rightarrow> bytes \<Rightarrow> bytes \<times> bytes \<times> nat" where
  "decode_base32_loop ch i dst prev [] = (dst, [], i)"
| "decode_base32_loop ch i dst prev (c # src) =
     (case base32_value (ucast c) i of
        None \<Rightarrow> decode_base32_loop ch i dst (c # prev) src
      | Some t \<Rightarrow>
          (let ch = push_bit 5 ch OR ucast t; i = (i + 1) AND 7
           in if i = 0 then
                (let dst = dst @ [ucast (drop_bit 32 ch)]
                 in if c = 61 then (decode_base32_tail ch dst (c # prev), src, 0)
                    else decode_base32_loop ch i
                      (dst @ [ucast (drop_bit 24 ch), ucast (drop_bit 16 ch), ucast (drop_bit 8 ch), ucast ch]) (c # prev) src)
              else decode_base32_loop ch i dst (c # prev) src))"

definition decode_base32 :: "bytes \<Rightarrow> bytes \<times> bytes" where
  "decode_base32 text =
     (let (dst, src, i) = decode_base32_loop 0 0 [] [] text
      in (dst, drop (length text - length src - i) text))"

section \<open>Memory\<close>

lemma write_at_one: "p < length mem \<Longrightarrow> mem[p := a] = write_at p [a] mem"
  by (simp add: write_at_def upd_conv_take_nth_drop)

lemma write_at_snoc:
  assumes "p + length xs < length mem"
  shows "(write_at p xs mem)[p + length xs := c] = write_at p (xs @ [c]) mem"
proof -
  have "(write_at p xs mem)[p + length xs := c] = write_at (p + length xs) [c] (write_at p xs mem)"
    using assms by (intro write_at_one) (simp add: len_simps)
  then show ?thesis using assms by (simp add: write_at_append)
qed

lemma write_at_update:
  assumes "p + length xs + length (y # ys) \<le> length mem"
  shows "(write_at p (xs @ y # ys) mem)[p + length xs := c] = write_at p (xs @ c # ys) mem"
  using assms by (auto intro!: nth_equalityI simp: len_simps nth_write_at nth_list_update nth_append)

text \<open>A read outside of what was written.\<close>

lemma read_outside:
  assumes "p + length q \<le> length mem" "p + length q \<le> s \<or> s + n \<le> p"
  shows "take n (drop s (write_at p q mem)) = take n (drop s mem)"
proof (rule nth_equalityI)
  fix i
  assume "i < length (take n (drop s (write_at p q mem)))"
  then have "i < n" "s + i < length mem" using assms by (auto simp: len_simps)
  then show "take n (drop s (write_at p q mem)) ! i = take n (drop s mem) ! i"
    using assms by (auto simp: nth_write_at len_simps)
qed (use assms in \<open>simp add: len_simps\<close>)

lemma take_drop_Cons: "n > 0 \<Longrightarrow> s < length mem \<Longrightarrow> take n (drop s mem) = mem ! s # take (n - 1) (drop (s + 1) mem)"
  by (cases n) (simp_all flip: Cons_nth_drop_Suc)

lemma uu_pad_writes:
  assumes "k \<le> length xs" "p + length xs + length ys \<le> length mem"
  shows "uu_pad c (write_at p (xs @ ys) mem) (p + length xs) k = write_at p (take (length xs - k) xs @ replicate k c @ ys) mem"
  using assms
proof (induction k arbitrary: xs ys)
  case (Suc k)
  then obtain zs z where xs: "xs = zs @ [z]" by (cases xs rule: rev_cases) auto
  have "uu_pad c (write_at p (xs @ ys) mem) (p + length xs) (Suc k)
    = uu_pad c ((write_at p (zs @ z # ys) mem)[p + length zs := c]) (p + length zs) k" by (simp add: xs)
  also have "\<dots> = uu_pad c (write_at p (zs @ c # ys) mem) (p + length zs) k"
    using Suc.prems by (subst write_at_update) (simp_all add: xs)
  also have "\<dots> = write_at p (take (length zs - k) zs @ replicate k c @ c # ys) mem"
    using Suc.prems by (intro Suc.IH) (simp_all add: xs)
  also have "replicate k c @ c # ys = replicate (Suc k) c @ ys" by (simp add: replicate_append_same)
  finally show ?case by (simp add: xs)
qed simp

section \<open>The encoded text\<close>

text \<open>
  Groups of six bits, three bytes to four characters, and the padding of an incomplete group
  (RFC 4648, section 4, with the table as a parameter).
\<close>

definition uu_quad :: "bytes \<Rightarrow> nat \<Rightarrow> nat \<Rightarrow> nat \<Rightarrow> bytes" where
  "uu_quad tbl a b c = [tbl ! (a div 4), tbl ! (a mod 4 * 16 + b div 16), tbl ! (b mod 16 * 4 + c div 64), tbl ! (c mod 64)]"

fun uu_groups :: "bytes \<Rightarrow> bytes \<Rightarrow> bytes" where
  "uu_groups tbl [] = []"
| "uu_groups tbl [a] = uu_quad tbl (unat a) 0 0"
| "uu_groups tbl [a, b] = uu_quad tbl (unat a) (unat b) 0"
| "uu_groups tbl (a # b # c # xs) = uu_quad tbl (unat a) (unat b) (unat c) @ uu_groups tbl xs"

fun uu_text :: "bytes \<Rightarrow> bytes \<Rightarrow> bytes" where
  "uu_text tbl [] = []"
| "uu_text tbl [a] = take 2 (uu_quad tbl (unat a) 0 0) @ [tbl ! 64, tbl ! 64]"
| "uu_text tbl [a, b] = take 3 (uu_quad tbl (unat a) (unat b) 0) @ [tbl ! 64]"
| "uu_text tbl (a # b # c # xs) = uu_quad tbl (unat a) (unat b) (unat c) @ uu_text tbl xs"

lemma length_uu_quad [len_simps]: "length (uu_quad tbl a b c) = 4"
  by (simp add: uu_quad_def)

lemma length_uu_groups [len_simps]: "length (uu_groups tbl xs) = 4 * ((length xs + 2) div 3)"
  by (induction tbl xs rule: uu_groups.induct) (simp_all add: len_simps div_if)

lemma take_front: "k \<le> length ys \<Longrightarrow> take (length (xs @ ys) - k) (xs @ ys) = xs @ take (length ys - k) ys"
  by simp

lemma uu_text_groups:
  "uu_text tbl xs =
    take (length (uu_groups tbl xs) - (3 - length xs mod 3) mod 3) (uu_groups tbl xs) @ replicate ((3 - length xs mod 3) mod 3) (tbl ! 64)"
proof (induction tbl xs rule: uu_text.induct)
  case (4 tbl a b c xs)
  have "(3 - length xs mod 3) mod 3 \<le> length (uu_groups tbl xs)" by (cases xs) (simp_all add: len_simps)
  then show ?case using 4 by (simp add: len_simps)
qed (simp_all add: len_simps numeral_2_eq_2)

section \<open>Words as numbers\<close>

lemma unat_widened: "unat (ucast (a :: u8) :: u32) = unat a"
  using unat_bound [of a] by (simp add: unsigned_ucast_eq take_bit_eq_mod)

lemma unat_drop: "unat (drop_bit n w) = unat w div 2 ^ n" for w :: "'a::len word"
  unfolding unat_drop_bit_eq by (simp add: drop_bit_eq_div)

lemma unat_and_mask: "unat (w AND mask n) = unat w mod 2 ^ n" for w :: "'a::len word"
  unfolding take_bit_eq_mask [symmetric] unsigned_take_bit_eq by (simp add: take_bit_eq_mod)

lemma masks: "1 = (mask 1 :: u32)" "3 = (mask 2 :: u32)" "7 = (mask 3 :: u32)" "0xf = (mask 4 :: u32)" "0x1f = (mask 5 :: u32)" "0x3f = (mask 6 :: u32)" "0x7f = (mask 7 :: u32)"
  by (simp_all add: mask_eq_exp_minus_1)

lemma unat_push_add:
  fixes x y :: u32
  assumes "unat x * 2 ^ k + unat y < 2 ^ 32"
  shows "unat (push_bit k x + y) = unat x * 2 ^ k + unat y"
proof -
  have "unat (push_bit k x) = unat x * 2 ^ k mod 2 ^ 32"
    unfolding unsigned_push_bit_eq by (simp add: take_bit_eq_mod push_bit_eq_mult)
  then have "unat (push_bit k x) = unat x * 2 ^ k" using assms by simp
  then show ?thesis using assms by (simp only: unat_word_ariths) simp
qed

text \<open>The indexes the encoders compute.\<close>

lemma uu_index:
  fixes a b c :: u8
  shows "unat (drop_bit 2 (ucast a :: u32)) = unat a div 4"
    "unat (push_bit 4 (ucast a AND 3) + drop_bit 4 (ucast b) :: u32) = unat a mod 4 * 16 + unat b div 16"
    "unat (push_bit 2 (ucast b AND 0xf) + drop_bit 6 (ucast c) :: u32) = unat b mod 16 * 4 + unat c div 64"
    "unat (ucast c AND 0x3f :: u32) = unat c mod 64"
proof -
  have "unat x < 256" for x :: u8 using unat_bound [of x] by simp
  note this [of a] this [of b] this [of c]
  then show "unat (push_bit 4 (ucast a AND 3) + drop_bit 4 (ucast b) :: u32) = unat a mod 4 * 16 + unat b div 16"
    "unat (push_bit 2 (ucast b AND 0xf) + drop_bit 6 (ucast c) :: u32) = unat b mod 16 * 4 + unat c div 64"
    by (subst unat_push_add; simp only: masks unat_and_mask unat_drop unat_widened; simp)+
qed (simp_all only: masks unat_and_mask unat_drop unat_widened, simp_all)

section \<open>The loop of bb_uuencode\<close>

lemma uu_loop_done: "len \<le> 0 \<Longrightarrow> uu_loop tbl mem p s len = (mem, p, len)"
  by (subst uu_loop.simps) simp

lemma uu_loop_step:
  fixes tbl mem :: bytes
  assumes "0 < n" "s + n \<le> length mem" "p + 4 \<le> length mem" "p < s \<or> s + n \<le> p"
  shows "uu_loop tbl mem p s (int n) =
    uu_loop tbl (write_at p (uu_quad tbl (unat (mem ! s)) (if 2 \<le> n then unat (mem ! (s + 1)) else 0) (if 3 \<le> n then unat (mem ! (s + 2)) else 0)) mem)
      (p + 4) (s + 3) (int n - 3)"
proof -
  define b c :: u8 where "b = (if 2 \<le> n then mem ! (s + 1) else 0)" and "c = (if 3 \<le> n then mem ! (s + 2) else 0)"
  have s1: "(if int n - 3 \<ge> -1 then ucast (mem ! (s + 1)) else 0 :: u32) = ucast b"
    and s2: "(if int n - 3 \<ge> 0 then ucast (mem ! (s + 2)) else 0 :: u32) = ucast c"
    and s3: "(if 2 \<le> n then unat (mem ! (s + 1)) else 0) = unat b" "(if 3 \<le> n then unat (mem ! (s + 2)) else 0) = unat c"
    by (simp_all add: b_def c_def)
  have ne: "p \<noteq> s" using assms(1,4) by auto
  have pos: "(int n > 0) = True" using assms(1) by simp
  have four: "mem[p := w, p + 1 := x, p + 2 := y, p + 3 := z] = write_at p [w, x, y, z] mem" for w x y z :: u8
    using assms(3) write_at_snoc [of p "[w]" mem x] write_at_snoc [of p "[w, x]" mem y] write_at_snoc [of p "[w, x, y]" mem z]
    by (simp add: write_at_one numeral_eq_Suc)
  show ?thesis
    by (subst uu_loop.simps) (simp only: Let_def pos if_True s1 s2 s3 nth_list_update_neq [OF ne] uu_index four uu_quad_def)
qed

lemma uu_loop_writes:
  assumes "s + n \<le> length mem" "p + 4 * ((n + 2) div 3) \<le> length mem" "p + (n + 2) div 3 \<le> s \<or> s + n \<le> p"
  shows "uu_loop tbl mem p s (int n) =
    (write_at p (uu_groups tbl (take n (drop s mem))) mem, p + 4 * ((n + 2) div 3), int n - 3 * int ((n + 2) div 3))"
  using assms
proof (induction n arbitrary: mem p s rule: less_induct)
  case (less n)
  consider "n = 0" | "n = 1" | "n = 2" | m where "n = m + 3"
    using le_Suc_ex [of 3 n] by (cases "3 \<le> n") (auto simp: numeral_eq_Suc not_le less_Suc_eq add.commute)
  then show ?case
  proof cases
    case 1
    then show ?thesis by (simp add: uu_loop_done)
  next
    case 2
    then show ?thesis using less.prems using uu_loop_step [of 1 s mem p tbl] by (auto simp: uu_loop_done take_drop_Cons Suc_le_eq)
  next
    case 3
    then show ?thesis using less.prems uu_loop_step [of 2 s mem p tbl] by (auto simp: uu_loop_done take_drop_Cons Suc_le_eq)
  next
    case 4
    let ?q = "uu_quad tbl (unat (mem ! s)) (unat (mem ! (s + 1))) (unat (mem ! (s + 2)))"
    let ?mem = "write_at p ?q mem"
    have d: "(n + 2) div 3 = Suc ((m + 2) div 3)" using 4 by simp
    have pl: "p + 4 \<le> length mem" and gap: "p < s \<or> s + n \<le> p" using less.prems(2,3) d by linarith+
    have step: "uu_loop tbl mem p s (int n) = uu_loop tbl ?mem (p + 4) (s + 3) (int m)"
      using uu_loop_step [OF _ less.prems(1) pl, of tbl] gap 4 by simp
    have out: "take m (drop (s + 3) ?mem) = take m (drop (s + 3) mem)"
      using less.prems(3) 4 d pl by (intro read_outside) (auto simp: len_simps)
    have src: "take n (drop s mem) = mem ! s # mem ! (s + 1) # mem ! (s + 2) # take m (drop (s + 3) mem)"
      using less.prems(1) 4 by (simp add: take_drop_Cons numeral_eq_Suc)
    have "uu_loop tbl ?mem (p + 4) (s + 3) (int m) =
      (write_at (p + 4) (uu_groups tbl (take m (drop (s + 3) ?mem))) ?mem, p + 4 + 4 * ((m + 2) div 3), int m - 3 * int ((m + 2) div 3))"
      using less.prems 4 d by (intro less.IH) (auto simp: len_simps)
    moreover have "write_at (p + 4) (uu_groups tbl (take m (drop (s + 3) mem))) ?mem
      = write_at p (?q @ uu_groups tbl (take m (drop (s + 3) mem))) mem"
    proof -
      have "length (take m (drop (s + 3) mem)) = m" using less.prems(1) 4 by simp
      then have "length (uu_groups tbl (take m (drop (s + 3) mem))) = 4 * ((m + 2) div 3)" by (simp only: length_uu_groups)
      then show ?thesis
        using write_at_append [of p ?q "uu_groups tbl (take m (drop (s + 3) mem))" mem] less.prems(2) d by (simp only: length_uu_quad) simp
    qed
    ultimately show ?thesis unfolding step out src using 4 d by simp
  qed
qed

lemma pad_count: "3 * ((n + 2) div 3) - n = (3 - n mod 3) mod (3 :: nat)"
proof -
  obtain q r where n: "n = 3 * q + r" "r < 3" by (metis mod_less_divisor mult_div_mod_eq zero_less_numeral)
  then have "r = 0 \<or> r = 1 \<or> r = 2" by linarith
  then show ?thesis unfolding n(1) by auto
qed

text \<open>
  What \<^verbatim>\<open>bb_uuencode\<close> does to memory, when the destination stays behind the source: after \<open>k\<close>
  groups it is at \<open>p + 4 * k\<close>, and the source at \<open>s + 3 * k\<close>.
\<close>

lemma bb_uuencode_writes:
  assumes "s + n \<le> length mem" "p + 4 * ((n + 2) div 3) < length mem" "p + (n + 2) div 3 \<le> s \<or> s + n \<le> p"
  shows "bb_uuencode mem p s n tbl = write_at p (uu_text tbl (take n (drop s mem)) @ [0]) mem"
proof -
  let ?xs = "take n (drop s mem)" and ?k = "(3 - n mod 3) mod 3"
  have len: "length ?xs = n" "length (uu_groups tbl ?xs) = 4 * ((n + 2) div 3)" using assms(1) by (simp_all add: len_simps)
  have k: "nat (- (int n - 3 * int ((n + 2) div 3))) = ?k"
  proof -
    have "nat (- (int n - 3 * int d)) = 3 * d - n" for d by linarith
    then show ?thesis by (simp only: pad_count)
  qed
  have "?k \<le> length (uu_groups tbl ?xs)" unfolding len pad_count [symmetric] by simp
  then have "uu_pad (tbl ! 64) (write_at p (uu_groups tbl ?xs @ [0]) mem) (p + length (uu_groups tbl ?xs)) ?k
    = write_at p (take (length (uu_groups tbl ?xs) - ?k) (uu_groups tbl ?xs) @ replicate ?k (tbl ! 64) @ [0]) mem"
    using assms(2) len by (intro uu_pad_writes) simp_all
  also have "\<dots> = write_at p (uu_text tbl ?xs @ [0]) mem" unfolding uu_text_groups [of tbl ?xs] len(1) by simp
  finally have "uu_pad (tbl ! 64) (write_at p (uu_groups tbl ?xs @ [0]) mem) (p + 4 * ((n + 2) div 3)) ?k = write_at p (uu_text tbl ?xs @ [0]) mem"
    by (simp only: len)
  moreover have "(write_at p (uu_groups tbl ?xs) mem)[p + 4 * ((n + 2) div 3) := 0] = write_at p (uu_groups tbl ?xs @ [0]) mem"
    using write_at_snoc [of p "uu_groups tbl ?xs" mem 0] assms(2) by (simp only: len)
  ultimately show ?thesis
    unfolding bb_uuencode_def uu_loop_writes [OF assms(1) less_imp_le [OF assms(2)] assms(3)] Let_def prod.case k by simp
qed

section \<open>The loop of bb_b32encode\<close>

definition b32_oct :: "nat \<Rightarrow> nat \<Rightarrow> nat \<Rightarrow> nat \<Rightarrow> nat \<Rightarrow> bytes" where
  "b32_oct a b c d e = map ((!) bb_uuenc_tbl_base32)
     [a div 8, a mod 8 * 4 + b div 64, b mod 64 div 2, b mod 2 * 16 + c div 16, c mod 16 * 2 + d div 128, d mod 128 div 4,
      d mod 4 * 8 + e div 32, e mod 32]"

fun b32_groups :: "bytes \<Rightarrow> bytes" where
  "b32_groups [] = []"
| "b32_groups [a] = b32_oct (unat a) 0 0 0 0"
| "b32_groups [a, b] = b32_oct (unat a) (unat b) 0 0 0"
| "b32_groups [a, b, c] = b32_oct (unat a) (unat b) (unat c) 0 0"
| "b32_groups [a, b, c, d] = b32_oct (unat a) (unat b) (unat c) (unat d) 0"
| "b32_groups (a # b # c # d # e # xs) = b32_oct (unat a) (unat b) (unat c) (unat d) (unat e) @ b32_groups xs"

text \<open>Base32 of RFC 4648, section 6.\<close>

fun b32_text :: "bytes \<Rightarrow> bytes" where
  "b32_text [] = []"
| "b32_text [a] = take 2 (b32_oct (unat a) 0 0 0 0) @ ascii ''======''"
| "b32_text [a, b] = take 4 (b32_oct (unat a) (unat b) 0 0 0) @ ascii ''====''"
| "b32_text [a, b, c] = take 5 (b32_oct (unat a) (unat b) (unat c) 0 0) @ ascii ''===''"
| "b32_text [a, b, c, d] = take 7 (b32_oct (unat a) (unat b) (unat c) (unat d) 0) @ ascii ''=''"
| "b32_text (a # b # c # d # e # xs) = b32_oct (unat a) (unat b) (unat c) (unat d) (unat e) @ b32_text xs"

definition b32_pads :: "nat \<Rightarrow> nat" where
  "b32_pads n = (5 - n mod 5) mod 5 * 3 div 2"

lemma length_b32_oct [len_simps]: "length (b32_oct a b c d e) = 8"
  by (simp add: b32_oct_def)

lemma length_b32_groups [len_simps]: "length (b32_groups xs) = 8 * ((length xs + 4) div 5)"
proof (induction xs rule: b32_groups.induct)
  case (6 a b c d e xs)
  have "(9 + length xs) div 5 = (length xs + 4) div 5 + 1" by presburger
  then show ?case using 6 by (simp add: len_simps)
qed (simp_all add: len_simps)

lemma equals_signs:
  "ascii ''======'' = replicate 6 (of_char CHR ''='')" "ascii ''===='' = replicate 4 (of_char CHR ''='')"
  "ascii ''==='' = replicate 3 (of_char CHR ''='')" "ascii ''='' = replicate 1 (of_char CHR ''='')"
  by (simp_all add: ascii_def eval_nat_numeral)

lemma b32_text_groups:
  "b32_text xs = take (length (b32_groups xs) - b32_pads (length xs)) (b32_groups xs) @ replicate (b32_pads (length xs)) (of_char CHR ''='')"
proof (induction xs rule: b32_text.induct)
  case (6 a b c d e xs)
  have "b32_pads (length xs) \<le> length (b32_groups xs)"
    by (cases xs) (auto simp: len_simps b32_pads_def intro: order_trans [of _ 8])
  from take_front [OF this] show ?case using 6 by (simp add: b32_pads_def)
qed (simp_all only: b32_text.simps b32_groups.simps equals_signs, simp_all add: len_simps b32_pads_def)

lemma b32_index:
  fixes a b c d e :: u8
  shows "unat (drop_bit 3 (ucast a :: u32)) = unat a div 8"
    "unat (push_bit 2 (ucast a AND 7) + drop_bit 6 (ucast b) :: u32) = unat a mod 8 * 4 + unat b div 64"
    "unat (drop_bit 1 (ucast b AND 0x3f :: u32)) = unat b mod 64 div 2"
    "unat (push_bit 4 ((ucast b AND 0x3f) AND 1) + drop_bit 4 (ucast c) :: u32) = unat b mod 2 * 16 + unat c div 16"
    "unat (push_bit 1 (ucast c AND 0xf) + drop_bit 7 (ucast d) :: u32) = unat c mod 16 * 2 + unat d div 128"
    "unat (drop_bit 2 (ucast d AND 0x7f :: u32)) = unat d mod 128 div 4"
    "unat (push_bit 3 ((ucast d AND 0x7f) AND 3) + drop_bit 5 (ucast e) :: u32) = unat d mod 4 * 8 + unat e div 32"
    "unat (ucast e AND 0x1f :: u32) = unat e mod 32"
proof -
  have lt: "unat x < 256" for x :: u8 using unat_bound [of x] by simp
  have mm: "unat b mod 64 mod 2 = unat b mod 2" "unat d mod 128 mod 4 = unat d mod 4" by (simp_all add: mod_mod_cancel)
  show "unat (drop_bit 3 (ucast a :: u32)) = unat a div 8" "unat (drop_bit 1 (ucast b AND 0x3f :: u32)) = unat b mod 64 div 2"
    "unat (drop_bit 2 (ucast d AND 0x7f :: u32)) = unat d mod 128 div 4" "unat (ucast e AND 0x1f :: u32) = unat e mod 32"
    by (simp_all only: masks unat_and_mask unat_drop unat_widened) simp_all
  note lt [of a] lt [of b] lt [of c] lt [of d] lt [of e]
  then show "unat (push_bit 2 (ucast a AND 7) + drop_bit 6 (ucast b) :: u32) = unat a mod 8 * 4 + unat b div 64"
    "unat (push_bit 4 ((ucast b AND 0x3f) AND 1) + drop_bit 4 (ucast c) :: u32) = unat b mod 2 * 16 + unat c div 16"
    "unat (push_bit 1 (ucast c AND 0xf) + drop_bit 7 (ucast d) :: u32) = unat c mod 16 * 2 + unat d div 128"
    "unat (push_bit 3 ((ucast d AND 0x7f) AND 3) + drop_bit 5 (ucast e) :: u32) = unat d mod 4 * 8 + unat e div 32"
    by (subst unat_push_add; simp only: masks unat_and_mask unat_drop unat_widened mm power_0 power_one_right; simp add: mm)+
qed

lemma b32_loop_done: "len \<le> 0 \<Longrightarrow> b32_loop mem p s len = (mem, p, len)"
  by (subst b32_loop.simps) simp

text \<open>
  The bytes of a group are read between the writes; a read finds what was there at the start while
  the destination is two places behind.
\<close>

lemma b32_loop_step:
  fixes mem :: bytes
  assumes "0 < n" "s + n \<le> length mem" "p + 8 \<le> length mem" "p + 2 \<le> s \<or> s + n \<le> p"
  shows "\<exists>s'. (5 \<le> n \<longrightarrow> s' = s + 5) \<and> b32_loop mem p s (int n) =
    b32_loop (write_at p (b32_oct (unat (mem ! s)) (if 2 \<le> n then unat (mem ! (s + 1)) else 0) (if 3 \<le> n then unat (mem ! (s + 2)) else 0)
        (if 4 \<le> n then unat (mem ! (s + 3)) else 0) (if 5 \<le> n then unat (mem ! (s + 4)) else 0)) mem)
      (p + 8) s' (int n - 5)"
proof -
  define b c d e :: u8 where "b = (if 2 \<le> n then mem ! (s + 1) else 0)" and "c = (if 3 \<le> n then mem ! (s + 2) else 0)"
    and "d = (if 4 \<le> n then mem ! (s + 3) else 0)" and "e = (if 5 \<le> n then mem ! (s + 4) else 0)"
  have vals: "(if 2 \<le> n then unat (mem ! (s + 1)) else 0) = unat b" "(if 3 \<le> n then unat (mem ! (s + 2)) else 0) = unat c"
    "(if 4 \<le> n then unat (mem ! (s + 3)) else 0) = unat d" "(if 5 \<le> n then unat (mem ! (s + 4)) else 0) = unat e"
    by (simp_all add: b_def c_def d_def e_def)
  have ne: "p + i \<noteq> s + j" if "j < n" "i \<le> j + 1" for i j using assms(4) that by auto
  define s2 s3 s4 s5 where "s2 = s + min 2 n" and "s3 = s + min 3 n" and "s4 = s + min 4 n" and "s5 = s + min 5 n"
  have pos: "(int n > 0) = True" using assms(1) by simp
  have r1: "b32_next (mem[p := w0]) (s + 1) (int n - 1 - 1) = (ucast b, s2)" for w0
    using assms(1) ne [of 1 0] by (auto simp: b32_next_def b_def s2_def)
  have r2: "b32_next (mem[p := w0, p + 1 := w1, p + 2 := w2]) s2 (int n - 1 - 1 - 1) = (ucast c, s3)" for w0 w1 w2
    using assms(1) ne [of 2 0] ne [of 2 1] ne [of 2 2] by (auto simp: b32_next_def c_def s2_def s3_def numeral_eq_Suc)
  have r3: "b32_next (mem[p := w0, p + 1 := w1, p + 2 := w2, p + 3 := w3]) s3 (int n - 1 - 1 - 1 - 1) = (ucast d, s4)" for w0 w1 w2 w3
    using assms(1) ne [of 3 0] ne [of 3 1] ne [of 3 2] ne [of 3 3] by (auto simp: b32_next_def d_def s3_def s4_def numeral_eq_Suc)
  have r4: "b32_next (mem[p := w0, p + 1 := w1, p + 2 := w2, p + 3 := w3, p + 4 := w4, p + 5 := w5]) s4 (int n - 1 - 1 - 1 - 1 - 1) = (ucast e, s5)"
    for w0 w1 w2 w3 w4 w5
    using assms(1) ne [of 4 0] ne [of 4 1] ne [of 4 2] ne [of 4 3] ne [of 4 4] ne [of 4 5] by (auto simp: b32_next_def e_def s4_def s5_def numeral_eq_Suc)
  have eight: "mem[p := w0, p + 1 := w1, p + 2 := w2, p + 3 := w3, p + 4 := w4, p + 5 := w5, p + 6 := w6, p + 7 := w7]
    = write_at p [w0, w1, w2, w3, w4, w5, w6, w7] mem" for w0 w1 w2 w3 w4 w5 w6 w7 :: u8
    using assms(3) write_at_snoc [of p "[w0]" mem w1] write_at_snoc [of p "[w0, w1]" mem w2] write_at_snoc [of p "[w0, w1, w2]" mem w3]
      write_at_snoc [of p "[w0, w1, w2, w3]" mem w4] write_at_snoc [of p "[w0, w1, w2, w3, w4]" mem w5]
      write_at_snoc [of p "[w0, w1, w2, w3, w4, w5]" mem w6] write_at_snoc [of p "[w0, w1, w2, w3, w4, w5, w6]" mem w7]
    by (simp add: write_at_one numeral_eq_Suc)
  have "b32_loop mem p s (int n) =
    b32_loop (write_at p (b32_oct (unat (mem ! s)) (unat b) (unat c) (unat d) (unat e)) mem) (p + 8) s5 (int n - 1 - 1 - 1 - 1 - 1)"
    by (subst b32_loop.simps) (simp only: Let_def prod.case pos if_True r1 r2 r3 r4 b32_index eight b32_oct_def list.map)
  then show ?thesis unfolding vals by (intro exI [of _ s5]) (simp add: s5_def)
qed

lemma b32_loop_writes:
  assumes "s + n \<le> length mem" "p + 8 * ((n + 4) div 5) \<le> length mem" "p + 3 * ((n + 4) div 5) \<le> s \<or> s + n \<le> p"
  shows "b32_loop mem p s (int n) =
    (write_at p (b32_groups (take n (drop s mem))) mem, p + 8 * ((n + 4) div 5), int n - 5 * int ((n + 4) div 5))"
  using assms
proof (induction n arbitrary: mem p s rule: less_induct)
  case (less n)
  show ?case
  proof (cases "n = 0")
    case True
    then show ?thesis by (simp add: b32_loop_done)
  next
    case nz: False
    let ?q = "b32_oct (unat (mem ! s)) (if 2 \<le> n then unat (mem ! (s + 1)) else 0) (if 3 \<le> n then unat (mem ! (s + 2)) else 0)
        (if 4 \<le> n then unat (mem ! (s + 3)) else 0) (if 5 \<le> n then unat (mem ! (s + 4)) else 0)"
    let ?mem = "write_at p ?q mem"
    define m where "m = n - 5"
    have d: "(n + 4) div 5 = Suc ((m + 4) div 5)" 
    proof (cases "5 \<le> n")
      case True
      then obtain l where "n = 5 + l" using le_Suc_ex by blast
      then show ?thesis by (simp add: m_def)
    next
      case False
      then have "m = 0" "n + 4 = 5 + (n - 1)" "n - 1 < 5" using nz by (simp_all add: m_def)
      then show ?thesis by simp
    qed
    have pl: "p + 8 \<le> length mem" and gap: "p + 2 \<le> s \<or> s + n \<le> p" using less.prems(2,3) d by linarith+
    obtain s' where s': "5 \<le> n \<longrightarrow> s' = s + 5" "b32_loop mem p s (int n) = b32_loop ?mem (p + 8) s' (int n - 5)"
      using b32_loop_step [OF _ less.prems(1) pl gap] nz by auto
    show ?thesis
    proof (cases "5 \<le> n")
      case False
      have src: "b32_groups (take n (drop s mem)) = ?q"
      proof -
        consider "n = 1" | "n = 2" | "n = 3" | "n = 4" using nz False by linarith
        then show ?thesis using less.prems(1) by cases (simp_all add: take_drop_Cons numeral_eq_Suc)
      qed
      have "int n - 5 \<le> 0" "(n + 4) div 5 = 1" using False d by (simp_all add: m_def)
      then show ?thesis unfolding s'(2) src by (simp add: b32_loop_done)
    next
      case True
      then have n: "n = m + 5" "s' = s + 5" using s' by (simp_all add: m_def)
      have out: "take m (drop (s + 5) ?mem) = take m (drop (s + 5) mem)"
        using less.prems(3) n d pl by (intro read_outside) (auto simp: len_simps)
      have src: "b32_groups (take n (drop s mem)) = ?q @ b32_groups (take m (drop (s + 5) mem))"
        using less.prems(1) n by (simp add: take_drop_Cons numeral_eq_Suc)
      have len: "length (b32_groups (take m (drop (s + 5) mem))) = 8 * ((m + 4) div 5)"
        using less.prems(1) n(1) by (simp add: len_simps)
      have "b32_loop ?mem (p + 8) (s + 5) (int m) =
        (write_at (p + 8) (b32_groups (take m (drop (s + 5) ?mem))) ?mem, p + 8 + 8 * ((m + 4) div 5), int m - 5 * int ((m + 4) div 5))"
        using less.prems n(1) d by (intro less.IH) (auto simp: len_simps)
      moreover have "write_at (p + 8) (b32_groups (take m (drop (s + 5) mem))) ?mem = write_at p (?q @ b32_groups (take m (drop (s + 5) mem))) mem"
        using write_at_append [of p ?q "b32_groups (take m (drop (s + 5) mem))" mem] less.prems(2) d len by (simp only: length_b32_oct) simp
      ultimately show ?thesis unfolding s'(2) src out d using n by simp
    qed
  qed
qed

lemma b32_pad_count: "nat (drop_bit 1 (- (int n - 5 * int ((n + 4) div 5)) * 3)) = b32_pads n"
proof -
  obtain q r where n: "n = 5 * q + r" "r < 5" by (metis mod_less_divisor mult_div_mod_eq zero_less_numeral)
  have d: "(5 * q + r + 4) div 5 = q + (r + 4) div 5" "(5 * q + r) mod 5 = r" using n(2) by simp_all
  have i: "int (5 * q + r) - 5 * int (q + k) = int r - 5 * int k" for k by simp
  have "r = 0 \<or> r = 1 \<or> r = 2 \<or> r = 3 \<or> r = 4" using n(2) by linarith
  then show ?thesis unfolding n(1) b32_pads_def d i by (elim disjE) (simp_all add: drop_bit_eq_div)
qed

lemma b32_pads_le: "b32_pads n \<le> 8 * ((n + 4) div 5)"
proof (cases "n = 0")
  case False
  then have "5 div 5 \<le> (n + 4) div 5" by (intro div_le_mono) simp
  moreover have "(5 - n mod 5) mod 5 < 5" by (rule mod_less_divisor) simp
  then have "(5 - n mod 5) mod 5 * 3 \<le> 12" by linarith
  then have "(5 - n mod 5) mod 5 * 3 div 2 \<le> 12 div 2" by (rule div_le_mono)
  ultimately show ?thesis unfolding b32_pads_def by simp
qed (simp add: b32_pads_def)

lemma bb_b32encode_writes:
  assumes "s + n \<le> length mem" "p + 8 * ((n + 4) div 5) < length mem" "p + 3 * ((n + 4) div 5) \<le> s \<or> s + n \<le> p"
  shows "bb_b32encode mem p s n = write_at p (b32_text (take n (drop s mem)) @ [0]) mem"
proof -
  let ?xs = "take n (drop s mem)"
  have len: "length ?xs = n" "length (b32_groups ?xs) = 8 * ((n + 4) div 5)" using assms(1) by (simp_all add: len_simps)
  have "uu_pad (of_char CHR ''='') (write_at p (b32_groups ?xs @ [0]) mem) (p + length (b32_groups ?xs)) (b32_pads n)
    = write_at p (take (length (b32_groups ?xs) - b32_pads n) (b32_groups ?xs) @ replicate (b32_pads n) (of_char CHR ''='') @ [0]) mem"
    using assms(2) len b32_pads_le by (intro uu_pad_writes) simp_all
  also have "\<dots> = write_at p (b32_text ?xs @ [0]) mem" unfolding b32_text_groups [of ?xs] len(1) by simp
  finally have "uu_pad (of_char CHR ''='') (write_at p (b32_groups ?xs @ [0]) mem) (p + 8 * ((n + 4) div 5)) (b32_pads n)
    = write_at p (b32_text ?xs @ [0]) mem"
    by (simp only: len)
  moreover have "(write_at p (b32_groups ?xs) mem)[p + 8 * ((n + 4) div 5) := 0] = write_at p (b32_groups ?xs @ [0]) mem"
    using write_at_snoc [of p "b32_groups ?xs" mem 0] assms(2) by (simp only: len)
  ultimately show ?thesis
    unfolding bb_b32encode_def b32_loop_writes [OF assms(1) less_imp_le [OF assms(2)] assms(3)] Let_def prod.case b32_pad_count by simp
qed

end
