(* ===== verification/Uu_Decode.thy ===== *)
theory Uu_Decode
  imports Uu_Codec
begin

text \<open>
  The decoders of \<^verbatim>\<open>libbb/uuencode.c\<close> on encoded text, cut anywhere: what is decoded are the
  bytes of the whole groups, what is left are the characters of the last one.
\<close>

section \<open>Collecting digits\<close>

lemma push_or:
  fixes x y :: "'a::len word"
  assumes "take_bit n y = y"
  shows "push_bit n x OR y = push_bit n x + y"
proof -
  have "push_bit n x AND y = 0"
    by (rule bit_eqI) (metis assms bit_0_eq bit_and_iff bit_push_bit_iff bit_take_bit_iff bot_apply bot_bool_def linorder_not_le)
  then show ?thesis by (simp add: disjunctive_add_eq_or)
qed

lemma push_or_nat:
  assumes "k < 2 ^ n" "n \<le> LENGTH('a)"
  shows "push_bit n (of_nat m :: 'a::len word) OR of_nat k = of_nat (m * 2 ^ n + k)"
proof -
  have "take_bit n (of_nat k :: 'a word) = of_nat k"
    using assms by (simp add: take_bit_of_nat take_bit_nat_eq_self)
  from push_or [OF this] show ?thesis by (simp add: push_bit_eq_mult)
qed

lemma ucast_nat: "ucast (w :: 'a::len word) = (of_nat (unat w) :: u8)"
  by simp

text \<open>A byte of the collected number.\<close>

lemma byte_of:
  assumes "m < 2 ^ LENGTH('a)"
  shows "ucast (drop_bit n (of_nat m :: 'a::len word)) = (of_nat (m div 2 ^ n) :: u8)"
proof -
  have "unat (drop_bit n (of_nat m :: 'a word)) = m div 2 ^ n" using assms by (simp add: unat_drop unat_of_nat)
  then show ?thesis by (metis ucast_nat)
qed

lemma flag_bit:
  assumes "m < 2 ^ 32" "n < 32"
  shows "(of_nat m :: u32) AND 2 ^ n \<noteq> 0 \<longleftrightarrow> odd (m div 2 ^ n)"
proof -
  have "(of_nat m :: u32) AND 2 ^ n \<noteq> 0 \<longleftrightarrow> bit (of_nat m :: u32) n"
    using bit_iff_and_push_bit_not_eq_0 [of "of_nat m :: u32" n] by (simp add: push_bit_eq_mult)
  also have "\<dots> \<longleftrightarrow> bit (unat (of_nat m :: u32)) n" using assms(2) by (simp add: bit_unsigned_iff)
  also have "\<dots> \<longleftrightarrow> odd (m div 2 ^ n)" using assms(1) by (simp add: unat_of_nat bit_iff_odd)
  finally show ?thesis .
qed

lemma base64_value_digit:
  assumes "k < 64"
  shows "base64_value (ucast (bb_uuenc_tbl_base64 ! k)) i src = Some (of_nat k)"
proof -
  have "list_all (\<lambda>k. base64_value (ucast (bb_uuenc_tbl_base64 ! k)) i src = Some (of_nat k)) [0..<64]"
    by (simp add: upt_rec bb_uuenc_tbl_base64_def ascii_def base64_value_def)
  then show ?thesis using assms by (simp add: list_all_iff)
qed

lemma base32_value_digit:
  assumes "k < 32"
  shows "base32_value (ucast (bb_uuenc_tbl_base32 ! k)) i = Some (of_nat k)"
proof -
  have "list_all (\<lambda>k. base32_value (ucast (bb_uuenc_tbl_base32 ! k)) i = Some (of_nat k)) [0..<32]"
    by (simp add: upt_rec bb_uuenc_tbl_base32_def ascii_def base32_value_def)
  then show ?thesis using assms by (simp add: list_all_iff)
qed

section \<open>Base64\<close>

definition d64 :: "nat \<Rightarrow> u8" where
  "d64 k = bb_uuenc_tbl_base64 ! k"

lemma place64: "Suc i AND 3 = Suc i mod 4"
  using take_bit_eq_mask [of 2 "Suc i"] by (simp add: take_bit_eq_mod mask_eq_exp_minus_1)

text \<open>One digit, not the last of a group.\<close>

lemma loop64_digit:
  assumes "k < 64" "i < 3"
  shows "decode_base64_loop (of_nat m) i dst (d64 k # src) = decode_base64_loop (of_nat (m * 64 + k)) (i + 1) dst src"
proof -
  have "Suc i AND 3 = Suc i" using assms(2) by (simp add: place64)
  then show ?thesis
    using assms(1) push_or_nat [of k 6 m, where 'a = 32]
    by (simp add: d64_def base64_value_digit Let_def)
qed

lemma loop64_last:
  assumes "k < 64" "m < 2 ^ 18"
  shows "decode_base64_loop (of_nat m) 3 dst (d64 k # src) =
    decode_base64_loop 0 0 (dst @ [of_nat ((m * 64 + k) div 65536), of_nat ((m * 64 + k) div 256), of_nat (m * 64 + k)]) src"
proof -
  have "m * 64 + k < 2 ^ 24" using assms by simp
  then have "(of_nat (m * 64 + k) :: u32) AND 2 ^ 24 = 0" "m * 64 + k < 2 ^ LENGTH(32)"
    using flag_bit [of "m * 64 + k" 24] by simp_all
  then show ?thesis
    using push_or_nat [of k 6 m, where 'a = 32] assms(1) byte_of [of "m * 64 + k" 16, where 'a = 32] byte_of [of "m * 64 + k" 8, where 'a = 32]
      byte_of [of "m * 64 + k" 0, where 'a = 32]
    by (simp add: d64_def base64_value_digit Let_def del: of_nat_add of_nat_mult)
qed

lemma push_or_flag:
  assumes "m < 2 ^ 18"
  shows "push_bit 6 (of_nat m :: u32) OR 0x1000000 = of_nat (m * 64 + 2 ^ 24)"
proof -
  have less: "m * 64 < 2 ^ 24" using assms by simp
  have "(of_nat (m * 64) :: u32) AND 2 ^ 24 = 0" using flag_bit [of "m * 64" 24] less by simp
  then have "(of_nat (m * 64) :: u32) OR 2 ^ 24 = of_nat (m * 64) + 2 ^ 24" by (rule disjunctive_add_eq_or [symmetric])
  then show ?thesis by (simp add: push_bit_eq_mult mult.commute)
qed

lemma base64_value_pad: "base64_value (ucast (61 :: u8)) 3 src = Some 0x1000000" "base64_value (ucast (61 :: u8)) 2 (61 # src) = Some 0x1000000"
  by (simp_all add: base64_value_def)

text \<open>One equals sign after three digits, two after two.\<close>

lemma loop64_pad1:
  assumes "m < 2 ^ 18"
  shows "decode_base64_loop (of_nat m) 3 dst (61 # src) = (dst @ [of_nat (m div 1024), of_nat (m div 4)], src, 0)"
proof -
  let ?m = "m * 64 + 2 ^ 24"
  have less: "m * 64 < 2 ^ 24" using assms by simp
  have "(x + 2 ^ 24) div 2 ^ 24 = x div 2 ^ 24 + 1" for x :: nat by simp
  from this [of "m * 64"] have "(of_nat ?m :: u32) AND 2 ^ 24 \<noteq> 0" "(of_nat ?m :: u32) AND 2 ^ 30 = 0"
    using flag_bit [of ?m 24] flag_bit [of ?m 30] less by simp_all
  moreover have "?m div 2 ^ 16 = m div 1024 + 2 ^ 8" "?m div 2 ^ 8 = m div 4 + 2 ^ 16"
    using div_mult_mult1 [of 64 "m + 2 ^ 18" 1024] div_mult_mult1 [of 64 "m + 2 ^ 18" 4] by (simp_all add: mult.commute)
  then have "ucast (drop_bit 16 (of_nat ?m :: u32)) = (of_nat (m div 1024) :: u8)" "ucast (drop_bit 8 (of_nat ?m :: u32)) = (of_nat (m div 4) :: u8)"
    using byte_of [of ?m 16, where 'a = 32] byte_of [of ?m 8, where 'a = 32] less by simp_all
  ultimately show ?thesis
    using push_or_flag [OF assms] base64_value_pad(1) [of src]
    by (simp add: Let_def butlast_append del: of_nat_add of_nat_mult)
qed

lemma loop64_pad2:
  assumes "m < 2 ^ 12"
  shows "decode_base64_loop (of_nat m) 2 dst (61 # 61 # src) = (dst @ [of_nat (m div 16)], src, 0)"
proof -
  let ?m = "m * 64 + 2 ^ 24"
  have "decode_base64_loop (of_nat m) 2 dst (61 # 61 # src) = decode_base64_loop (of_nat ?m) 3 dst (61 # src)"
    using push_or_flag [of m] assms base64_value_pad(2) [of src] by (simp add: Let_def)
  moreover have "push_bit 6 (of_nat ?m :: u32) OR 0x1000000 = of_nat (?m * 64 + 2 ^ 24)"
  proof -
    have "?m * 64 div 2 ^ 24 = m * 2 ^ 12 div 2 ^ 24 + 64" by simp
    moreover have "m * 2 ^ 12 div 2 ^ 24 = 0" using assms by simp
    ultimately have "(of_nat (?m * 64) :: u32) AND 2 ^ 24 = 0" using flag_bit [of "?m * 64" 24] assms by simp
    then have "(of_nat (?m * 64) :: u32) OR 2 ^ 24 = of_nat (?m * 64) + 2 ^ 24" by (rule disjunctive_add_eq_or [symmetric])
    then show ?thesis by (simp add: push_bit_eq_mult algebra_simps)
  qed
  moreover have "(of_nat (?m * 64 + 2 ^ 24) :: u32) AND 2 ^ 24 \<noteq> 0" "(of_nat (?m * 64 + 2 ^ 24) :: u32) AND 2 ^ 30 \<noteq> 0"
    "ucast (drop_bit 16 (of_nat (?m * 64 + 2 ^ 24) :: u32)) = (of_nat (m div 16) :: u8)"
  proof -
    have t: "?m * 64 + 2 ^ 24 = m * 4096 + (64 + 1) * 2 ^ 24" by simp
    have less: "m * 4096 < 2 ^ 24" using assms by simp
    have "(m * 4096 + 65 * 2 ^ 24) div 2 ^ 24 = m * 4096 div 2 ^ 24 + 65" by simp
    then have 24: "(?m * 64 + 2 ^ 24) div 2 ^ 24 = 65" using less unfolding t by simp
    have "n div 2 ^ 30 = n div 2 ^ 24 div 2 ^ 6" for n :: nat using div_mult2_eq [of n "2 ^ 24" "2 ^ 6"] by simp
    from this [of "?m * 64 + 2 ^ 24"] have 30: "(?m * 64 + 2 ^ 24) div 2 ^ 30 = 1" unfolding 24 by simp
    have "?m * 64 + 2 ^ 24 = 4096 * (m + 266240)" by simp
    moreover have "4096 * (m + 266240) div (4096 * 16) = (m + 266240) div 16" by (rule div_mult_mult1) simp
    moreover have "(m + 266240) div 16 = m div 16 + 266240 div 16" by (rule div_plus_div_distrib_dvd_right) simp
    ultimately have 16: "(?m * 64 + 2 ^ 24) div 2 ^ 16 = m div 16 + 65 * 2 ^ 8" by simp
    have lt: "?m * 64 + 2 ^ 24 < 2 ^ 32" using less unfolding t by simp
    show "(of_nat (?m * 64 + 2 ^ 24) :: u32) AND 2 ^ 24 \<noteq> 0"
      using flag_bit [OF lt, of 24] unfolding 24 by simp
    show "(of_nat (?m * 64 + 2 ^ 24) :: u32) AND 2 ^ 30 \<noteq> 0"
      using flag_bit [OF lt, of 30] unfolding 30 by simp
    show "ucast (drop_bit 16 (of_nat (?m * 64 + 2 ^ 24) :: u32)) = (of_nat (m div 16) :: u8)"
      using byte_of [of "?m * 64 + 2 ^ 24" 16, where 'a = 32] lt unfolding 16 by simp
  qed
  ultimately show ?thesis
    using base64_value_pad(1) [of src]
    by (simp add: Let_def butlast_append del: of_nat_add of_nat_mult)
qed

declare decode_base64_loop.simps(2) [simp del]

text \<open>Groups of the encoded text.\<close>

lemma uu_quad_digits: "uu_quad bb_uuenc_tbl_base64 a b c = [d64 (a div 4), d64 (a mod 4 * 16 + b div 16), d64 (b mod 16 * 4 + c div 64), d64 (c mod 64)]"
  by (simp add: uu_quad_def d64_def)

lemma u8_less: "unat (a :: u8) < 256"
  using unat_bound [of a] by simp

lemma of_nat_byte: "n mod 256 = unat a \<Longrightarrow> (of_nat n :: u8) = a"
  by (rule word_unat_eq_iff [THEN iffD2]) (simp add: unat_of_nat)

lemma loop64_start: "decode_base64_loop 0 0 dst (d64 k # src) = decode_base64_loop (of_nat k) 1 dst src" if "k < 64"
  using loop64_digit [of k 0 0 dst src] that by simp

lemma loop64_next:
  "k < 64 \<Longrightarrow> decode_base64_loop (of_nat m) 1 dst (d64 k # src) = decode_base64_loop (of_nat (m * 64 + k)) 2 dst src"
  "k < 64 \<Longrightarrow> decode_base64_loop (of_nat m) 2 dst (d64 k # src) = decode_base64_loop (of_nat (m * 64 + k)) 3 dst src"
  using loop64_digit [of k 1 m dst src] loop64_digit [of k 2 m dst src] by (simp_all only: one_add_one) simp_all

lemma loop64_three:
  assumes "i < 64" "j < 64" "k < 64"
  shows "decode_base64_loop 0 0 dst (d64 i # d64 j # d64 k # src) = decode_base64_loop (of_nat ((i * 64 + j) * 64 + k)) 3 dst src"
  using assms by (simp only: loop64_start loop64_next)

lemma digits_of_three:
  fixes a b c :: nat
  assumes "a < 256" "b < 256" "c < 256"
  shows "((a div 4 * 64 + (a mod 4 * 16 + b div 16)) * 64 + (b mod 16 * 4 + c div 64)) * 64 + c mod 64 = a * 65536 + b * 256 + c"
    "(a div 4 * 64 + (a mod 4 * 16 + b div 16)) * 64 + (b mod 16 * 4 + c div 64) < 2 ^ 18"
    "a div 4 < 64" "a mod 4 * 16 + b div 16 < 64" "b mod 16 * 4 + c div 64 < 64" "c mod 64 < 64"
proof -
  obtain x y where a: "a = 4 * x + y" "y < 4" by (metis mod_less_divisor mult_div_mod_eq zero_less_numeral)
  obtain z w where b: "b = 16 * z + w" "w < 16" by (metis mod_less_divisor mult_div_mod_eq zero_less_numeral)
  obtain u v where c: "c = 64 * u + v" "v < 64" by (metis mod_less_divisor mult_div_mod_eq zero_less_numeral)
  have e: "a div 4 = x" "a mod 4 = y" "b div 16 = z" "b mod 16 = w" "c div 64 = u" "c mod 64 = v"
    using a b c by simp_all
  show "((a div 4 * 64 + (a mod 4 * 16 + b div 16)) * 64 + (b mod 16 * 4 + c div 64)) * 64 + c mod 64 = a * 65536 + b * 256 + c"
    unfolding e unfolding a(1) b(1) c(1) by simp
  have r: "x < 64" "z < 16" "u < 4" using assms a b c by simp_all
  show "(a div 4 * 64 + (a mod 4 * 16 + b div 16)) * 64 + (b mod 16 * 4 + c div 64) < 2 ^ 18"
    "a div 4 < 64" "a mod 4 * 16 + b div 16 < 64" "b mod 16 * 4 + c div 64 < 64" "c mod 64 < 64"
    unfolding e using r a(2) b(2) c(2) by simp_all
qed

lemma bytes_of_three:
  fixes a b c :: nat
  assumes "b < 256" "c < 256"
  shows "(a * 65536 + b * 256 + c) div 65536 = a" "(a * 65536 + b * 256 + c) div 256 mod 256 = b" "(a * 65536 + b * 256 + c) mod 256 = c"
proof -
  have "b * 256 + c < 65536" using assms by simp
  then show "(a * 65536 + b * 256 + c) div 65536 = a" by (simp add: add.assoc)
  have t: "a * 65536 + b * 256 + c = c + (a * 256 + b) * 256" by simp
  show "(a * 65536 + b * 256 + c) mod 256 = c" unfolding t mod_mult_self1 using assms by simp
  have "(c + (a * 256 + b) * 256) div 256 = a * 256 + b" using assms(2) by simp
  then show "(a * 65536 + b * 256 + c) div 256 mod 256 = b" unfolding t using assms(1) by simp
qed

lemma loop64_group:
  "decode_base64_loop 0 0 dst (uu_quad bb_uuenc_tbl_base64 (unat a) (unat b) (unat c) @ src) = decode_base64_loop 0 0 (dst @ [a, b, c]) src"
proof -
  let ?m = "(unat a div 4 * 64 + (unat a mod 4 * 16 + unat b div 16)) * 64 + (unat b mod 16 * 4 + unat c div 64)"
  note d = digits_of_three [OF u8_less [of a] u8_less [of b] u8_less [of c]]
  have v: "?m * 64 + unat c mod 64 = unat a * 65536 + unat b * 256 + unat c" by (rule d(1))
  have "decode_base64_loop 0 0 dst (uu_quad bb_uuenc_tbl_base64 (unat a) (unat b) (unat c) @ src) =
    decode_base64_loop (of_nat ?m) 3 dst (d64 (unat c mod 64) # src)"
    using loop64_three [OF d(3-5)] by (simp add: uu_quad_digits del: of_nat_add of_nat_mult)
  also have "\<dots> = decode_base64_loop 0 0 (dst @ [of_nat ((?m * 64 + unat c mod 64) div 65536), of_nat ((?m * 64 + unat c mod 64) div 256), of_nat (?m * 64 + unat c mod 64)]) src"
    using loop64_last [OF d(6,2)] by simp
  also have "\<dots> = decode_base64_loop 0 0 (dst @ [a, b, c]) src"
  proof -
    note b = bytes_of_three [OF u8_less [of b] u8_less [of c], of "unat a"]
    then show ?thesis unfolding v by (simp add: of_nat_byte [OF b(2)] of_nat_byte [OF b(3)] del: of_nat_add of_nat_mult)
  qed
  finally show ?thesis .
qed

lemma loop64_group2:
  "decode_base64_loop 0 0 dst (take 3 (uu_quad bb_uuenc_tbl_base64 (unat a) (unat b) 0) @ 61 # src) = (dst @ [a, b], src, 0)"
proof -
  let ?m = "(unat a div 4 * 64 + (unat a mod 4 * 16 + unat b div 16)) * 64 + unat b mod 16 * 4"
  have d: "?m < 2 ^ 18" "unat a div 4 < 64" "unat a mod 4 * 16 + unat b div 16 < 64" "unat b mod 16 * 4 < 64"
    and v: "?m * 64 = unat a * 65536 + unat b * 256"
    using digits_of_three [OF u8_less [of a] u8_less [of b], of 0] by simp_all
  have "x * 64 = unat a * 65536 + unat b * 256 \<Longrightarrow> x = unat a * 1024 + unat b * 4" for x by linarith
  note m = this [OF v]
  have "decode_base64_loop 0 0 dst (take 3 (uu_quad bb_uuenc_tbl_base64 (unat a) (unat b) 0) @ 61 # src) = decode_base64_loop (of_nat ?m) 3 dst (61 # src)"
    using loop64_three [OF d(2-4)] by (simp add: uu_quad_digits del: of_nat_add of_nat_mult)
  also have "\<dots> = (dst @ [of_nat (?m div 1024), of_nat (?m div 4)], src, 0)" by (rule loop64_pad1 [OF d(1)])
  also have "\<dots> = (dst @ [a, b], src, 0)"
  proof -
    have "unat a * 1024 + unat b * 4 = 4 * (unat a * 256 + unat b)" by simp
    then have q: "(unat a * 1024 + unat b * 4) div 4 = unat a * 256 + unat b" by simp
    then have "(unat a * 1024 + unat b * 4) div 4 mod 256 = unat b" using u8_less [of b] by simp
    moreover have "(unat a * 1024 + unat b * 4) div 4 div 256 = unat a" unfolding q using u8_less [of b] by simp
    then have "(unat a * 1024 + unat b * 4) div 1024 = unat a" by (simp flip: div_mult2_eq)
    ultimately show ?thesis unfolding m by (simp add: of_nat_byte del: of_nat_add of_nat_mult)
  qed
  finally show ?thesis .
qed

lemma loop64_group1:
  "decode_base64_loop 0 0 dst (take 2 (uu_quad bb_uuenc_tbl_base64 (unat a) 0 0) @ 61 # 61 # src) = (dst @ [a], src, 0)"
proof -
  let ?m = "unat a div 4 * 64 + unat a mod 4 * 16"
  have d: "unat a div 4 < 64" "unat a mod 4 * 16 < 64" using u8_less [of a] by simp_all
  have m: "?m = unat a * 16" using mod_mult_div_eq [of "unat a" 4] by linarith
  then have "?m < 2 ^ 12" using u8_less [of a] by simp
  moreover have "decode_base64_loop 0 0 dst (take 2 (uu_quad bb_uuenc_tbl_base64 (unat a) 0 0) @ 61 # 61 # src) = decode_base64_loop (of_nat ?m) 2 dst (61 # 61 # src)"
    using loop64_start [OF d(1)] loop64_next(1) [OF d(2)]
    by (simp add: uu_quad_digits del: of_nat_add of_nat_mult)
  ultimately show ?thesis using loop64_pad2 [of ?m dst src] by (simp add: m del: of_nat_add of_nat_mult)
qed

text \<open>Less than four digits are left to the caller.\<close>

lemma loop64_short:
  assumes "length ks < 4" "\<forall>k \<in> set ks. k < 64"
  shows "decode_base64_loop 0 0 dst (map d64 ks) = (dst, [], length ks)"
proof -
  consider "ks = []" | a where "ks = [a]" | a b where "ks = [a, b]" | a b c where "ks = [a, b, c]"
    using assms(1) by (cases ks; cases "tl ks"; cases "tl (tl ks)"; cases "tl (tl (tl ks))") auto
  then show ?thesis
    using assms(2) by cases (simp_all only: list.map list.set insert_iff ball_simps loop64_start loop64_next decode_base64_loop.simps(1), simp_all)
qed

text \<open>The cut that separates the two equals signs.\<close>

definition splits_pad :: "bytes \<Rightarrow> nat \<Rightarrow> bool" where
  "splits_pad bs m \<longleftrightarrow> length bs mod 3 = 1 \<and> m + 1 = length (uu_text bb_uuenc_tbl_base64 bs)"

lemma pad64: "bb_uuenc_tbl_base64 ! 64 = 61"
  by (simp add: bb_uuenc_tbl_base64_def ascii_def)

lemma text64_digits:
  "uu_text bb_uuenc_tbl_base64 [a] = map d64 [unat a div 4, unat a mod 4 * 16] @ [61, 61]"
  "uu_text bb_uuenc_tbl_base64 [a, b] = map d64 [unat a div 4, unat a mod 4 * 16 + unat b div 16, unat b mod 16 * 4] @ [61]"
  by (simp_all add: uu_quad_digits pad64)

lemma loop64_cut:
  assumes "m \<le> length ks" "length ks < 4" "\<forall>k \<in> set ks. k < 64"
  shows "decode_base64_loop 0 0 dst (take m (map d64 ks @ src)) = (dst, [], m)"
  using loop64_short [of "take m ks" dst] assms by (auto simp: take_map dest: in_set_takeD)

lemma loop64_prefix:
  assumes "m \<le> length (uu_text bb_uuenc_tbl_base64 bs)" "\<not> splits_pad bs m"
  shows "decode_base64_loop 0 0 dst (take m (uu_text bb_uuenc_tbl_base64 bs)) = (dst @ take (3 * (m div 4)) bs, [], m mod 4)"
  using assms
proof (induction "bb_uuenc_tbl_base64" bs arbitrary: m dst rule: uu_text.induct)
  case 1
  then show ?case by simp
next
  case (2 a)
  then have "m \<le> 4" "m \<noteq> 3" by (simp_all add: len_simps splits_pad_def)
  then consider "m = 4" | "m \<le> 2" by linarith
  then show ?case
  proof cases
    case 1
    then show ?thesis using loop64_group1 [of dst a "[]"] by (simp add: uu_quad_digits pad64)
  next
    case 2
    have "\<forall>k \<in> set [unat a div 4, unat a mod 4 * 16]. k < 64" using digits_of_three [OF u8_less [of a], of 0 0] by simp
    with 2 show ?thesis unfolding text64_digits by (subst loop64_cut) simp_all
  qed
next
  case (3 a b)
  then have "m \<le> 4" by (simp add: len_simps)
  then consider "m = 4" | "m \<le> 3" by linarith
  then show ?case
  proof cases
    case 1
    then show ?thesis using loop64_group2 [of dst a b "[]"] by (simp add: uu_quad_digits pad64)
  next
    case 2
    have "\<forall>k \<in> set [unat a div 4, unat a mod 4 * 16 + unat b div 16, unat b mod 16 * 4]. k < 64"
      using digits_of_three [OF u8_less [of a] u8_less [of b], of 0] by simp
    with 2 show ?thesis unfolding text64_digits by (subst loop64_cut) simp_all
  qed
next
  case (4 a b c bs)
  let ?q = "uu_quad bb_uuenc_tbl_base64 (unat a) (unat b) (unat c)"
  show ?case
  proof (cases "4 \<le> m")
    case False
    have "\<forall>k \<in> set [unat a div 4, unat a mod 4 * 16 + unat b div 16, unat b mod 16 * 4 + unat c div 64]. k < 64"
      using digits_of_three [OF u8_less [of a] u8_less [of b] u8_less [of c]] by simp
    moreover have "uu_text bb_uuenc_tbl_base64 (a # b # c # bs) =
      map d64 [unat a div 4, unat a mod 4 * 16 + unat b div 16, unat b mod 16 * 4 + unat c div 64] @ d64 (unat c mod 64) # uu_text bb_uuenc_tbl_base64 bs"
      by (simp add: uu_quad_digits)
    ultimately show ?thesis using False by (simp only:) (subst loop64_cut, simp_all)
  next
    case True
    then obtain l where m: "m = 4 + l" using le_Suc_ex by blast
    have l: "l \<le> length (uu_text bb_uuenc_tbl_base64 bs)" "\<not> splits_pad bs l"
      using "4.prems" m by (simp_all add: len_simps splits_pad_def)
    have "take m (uu_text bb_uuenc_tbl_base64 (a # b # c # bs)) = ?q @ take l (uu_text bb_uuenc_tbl_base64 bs)"
      by (simp add: m len_simps)
    then have "decode_base64_loop 0 0 dst (take m (uu_text bb_uuenc_tbl_base64 (a # b # c # bs)))
      = decode_base64_loop 0 0 (dst @ [a, b, c]) (take l (uu_text bb_uuenc_tbl_base64 bs))"
      using loop64_group by simp
    also have "\<dots> = (dst @ [a, b, c] @ take (3 * (l div 4)) bs, [], l mod 4)"
      using "4.hyps" [OF l] by simp
    finally show ?thesis
    proof -
      assume "decode_base64_loop 0 0 dst (take m (uu_text bb_uuenc_tbl_base64 (a # b # c # bs))) = (dst @ [a, b, c] @ take (3 * (l div 4)) bs, [], l mod 4)"
      moreover have "3 * (m div 4) = Suc (Suc (Suc (3 * (l div 4))))" "m mod 4 = l mod 4" using div_add_self1 [of 4 l] unfolding m by simp_all
      ultimately show ?thesis by simp
    qed
  qed
qed

text \<open>
  What \<^verbatim>\<open>decode_base64\<close> does with a cut text: the whole groups are decoded, the rest is left.
\<close>

lemma decode_base64_prefix:
  assumes "m \<le> length (uu_text bb_uuenc_tbl_base64 bs)" "\<not> splits_pad bs m"
  shows "decode_base64 (take m (uu_text bb_uuenc_tbl_base64 bs)) =
    (take (3 * (m div 4)) bs, drop (4 * (m div 4)) (take m (uu_text bb_uuenc_tbl_base64 bs)))"
  using loop64_prefix [OF assms, of "[]"] assms(1) by (simp add: decode_base64_def minus_mod_eq_mult_div min_def)

section \<open>Base32\<close>

definition d32 :: "nat \<Rightarrow> u8" where
  "d32 k = bb_uuenc_tbl_base32 ! k"

lemma place32: "Suc i AND 7 = Suc i mod 8"
  using take_bit_eq_mask [of 3 "Suc i"] by (simp add: take_bit_eq_mod mask_eq_exp_minus_1)

lemma d32_no_pad: "k < 32 \<Longrightarrow> d32 k \<noteq> 61"
proof -
  have "list_all (\<lambda>k. d32 k \<noteq> 61) [0..<32]" by (simp add: d32_def upt_rec bb_uuenc_tbl_base32_def ascii_def)
  then show "k < 32 \<Longrightarrow> d32 k \<noteq> 61" by (simp add: list_all_iff)
qed

text \<open>A character of a group and its value: a digit, or after two digits an equals sign.\<close>

definition char32 :: "nat \<Rightarrow> u8 \<Rightarrow> nat \<Rightarrow> bool" where
  "char32 i c k \<longleftrightarrow> k < 32 \<and> (c = d32 k \<or> c = 61 \<and> 2 \<le> i \<and> k = 0)"

lemma base32_value_char: "char32 i c k \<Longrightarrow> base32_value (ucast c) i = Some (of_nat k)"
  by (auto simp: char32_def d32_def base32_value_digit) (simp add: base32_value_def)

lemma ucast_digit: "k < 32 \<Longrightarrow> ucast (of_nat k :: u32) = (of_nat k :: u64)"
proof -
  assume "k < 32"
  then have "unat (of_nat k :: u32) = k" by (simp add: unat_of_nat)
  then show ?thesis by (metis of_nat_unat)
qed

lemma loop32_char:
  assumes "char32 i c k" "i < 7"
  shows "decode_base32_loop (of_nat m) i dst prev (c # src) = decode_base32_loop (of_nat (m * 32 + k)) (Suc i) dst (c # prev) src"
proof -
  have "Suc i AND 7 = Suc i" using assms(2) by (simp add: place32)
  moreover have "k < 2 ^ 5" using assms(1) by (simp add: char32_def)
  ultimately show ?thesis
    using push_or_nat [of k 5 m, where 'a = 64] assms(1) by (simp add: base32_value_char Let_def ucast_digit)
qed

text \<open>The characters of a group but the last, all at once.\<close>

fun chars32 :: "nat \<Rightarrow> bytes \<Rightarrow> nat list \<Rightarrow> bool" where
  "chars32 i [] [] = True"
| "chars32 i (c # cs) (k # ks) \<longleftrightarrow> char32 i c k \<and> chars32 (Suc i) cs ks"
| "chars32 i _ _ = False"

fun number32 :: "nat \<Rightarrow> nat list \<Rightarrow> nat" where
  "number32 m [] = m"
| "number32 m (k # ks) = number32 (m * 32 + k) ks"

lemma loop32_chars:
  assumes "chars32 i cs ks" "i + length cs \<le> 7"
  shows "decode_base32_loop (of_nat m) i dst prev (cs @ src) =
    decode_base32_loop (of_nat (number32 m ks)) (i + length cs) dst (rev cs @ prev) src"
  using assms
proof (induction i cs ks arbitrary: m prev rule: chars32.induct)
  case (2 i c cs k ks)
  then show ?case
    using loop32_char [of i c k m dst prev "cs @ src"] by (simp del: decode_base32_loop.simps of_nat_add of_nat_mult)
qed simp_all

lemma length_chars32: "chars32 i cs ks \<Longrightarrow> length cs = length ks"
  by (induction i cs ks rule: chars32.induct) auto

lemma number32_mod: "number32 m ks = m * 32 ^ length ks + number32 0 ks"
proof (induction ks arbitrary: m)
  case (Cons k ks)
  show ?case using Cons [of "m * 32 + k"] Cons [of k] by (simp add: algebra_simps)
qed simp

lemma number32_less: "list_all (\<lambda>k. k < 32) ks \<Longrightarrow> number32 0 ks < 32 ^ length ks"
proof (induction ks)
  case (Cons k ks)
  have "k * 32 ^ length ks + number32 0 ks < (k + 1) * 32 ^ length ks" using Cons by simp
  also have "\<dots> \<le> 32 * 32 ^ length ks" using Cons.prems by (intro mult_le_mono1) simp
  finally show ?case using number32_mod [of k ks] by simp
qed simp

text \<open>The five bytes of a group; the digits of earlier groups are still in the number.\<close>

lemma len8: "LENGTH(8) = 8"
  by simp

lemma low_byte:
  fixes y :: nat
  assumes "n \<le> 32"
  shows "take_bit 8 (drop_bit n (take_bit 40 y)) = take_bit 8 (drop_bit n y)" "take_bit 8 (drop_bit n (take_bit 64 y)) = take_bit 8 (drop_bit n y)"
  by (rule bit_eqI, use assms in \<open>auto simp: bit_take_bit_iff bit_drop_bit_eq\<close>)+

lemma byte32:
  assumes "n \<le> 32"
  shows "ucast (drop_bit n (of_nat (m * 2 ^ 40 + x) :: u64)) = (of_nat (x div 2 ^ n) :: u8)"
proof -
  let ?y = "m * 2 ^ 40 + x"
  have "unat (drop_bit n (of_nat ?y :: u64)) = drop_bit n (take_bit 64 ?y)"
    unfolding unat_drop by (simp add: unat_of_nat take_bit_eq_mod drop_bit_eq_div del: of_nat_add of_nat_mult)
  then have "ucast (drop_bit n (of_nat ?y :: u64)) = (of_nat (drop_bit n (take_bit 64 ?y)) :: u8)" by (metis of_nat_unat)
  also have "\<dots> = of_nat (drop_bit n x)"
  proof -
    have "take_bit 40 ?y = take_bit 40 x" by (simp add: take_bit_eq_mod)
    then have "take_bit 8 (drop_bit n (take_bit 64 ?y)) = take_bit 8 (drop_bit n x)" by (metis assms low_byte)
    then show ?thesis by (intro word_unat_eq_iff [THEN iffD2]) (simp only: unat_of_nat len8 take_bit_eq_mod)
  qed
  finally show ?thesis by (simp only: drop_bit_eq_div)
qed

declare decode_base32_loop.simps(2) [simp del]

lemma loop32_eighth:
  assumes "char32 7 c k"
  shows "decode_base32_loop (of_nat m) 7 dst prev (c # src) =
    (let ch = of_nat (m * 32 + k); dst = dst @ [ucast (drop_bit 32 ch)]
     in if c = 61 then (decode_base32_tail ch dst (c # prev), src, 0)
        else decode_base32_loop ch 0 (dst @ [ucast (drop_bit 24 ch), ucast (drop_bit 16 ch), ucast (drop_bit 8 ch), ucast ch]) (c # prev) src)"
proof -
  have "k < 2 ^ 5" using assms by (simp add: char32_def)
  then show ?thesis
    using push_or_nat [of k 5 m, where 'a = 64] assms
    by (simp add: decode_base32_loop.simps(2) base32_value_char Let_def ucast_digit del: of_nat_add of_nat_mult)
qed

lemma chars32_append: "length cs = length ks \<Longrightarrow> chars32 i (cs @ [c]) (ks @ [k]) \<longleftrightarrow> chars32 i cs ks \<and> char32 (i + length cs) c k"
  by (induction cs ks arbitrary: i rule: list_induct2) auto

lemma number32_append: "number32 m (ks @ [k]) = number32 m ks * 32 + k"
  by (induction ks arbitrary: m) auto

text \<open>A whole group, with the number \<open>x\<close> of its 40 bits.\<close>

lemma loop32_group:
  assumes "chars32 0 cs ks" "length cs = 8" "number32 0 ks = x" "dst' = dst @ [of_nat (x div 2 ^ 32)]"
    "tail = [of_nat (x div 2 ^ 24), of_nat (x div 2 ^ 16), of_nat (x div 2 ^ 8), of_nat x]"
  shows "\<exists>m'. decode_base32_loop (of_nat m) 0 dst prev (cs @ src) =
    (if last cs = 61 then (take (length (dst' @ tail) - (length (takeWhile (\<lambda>c. c = 61) (rev cs @ prev)) + 1) * 2 div 3) (dst' @ tail), src, 0)
     else decode_base32_loop (of_nat m') 0 (dst' @ tail) (rev cs @ prev) src)"
proof -
  obtain cs7 c where cs: "cs = cs7 @ [c]" using assms(2) by (cases cs rule: rev_cases) auto
  have "length ks = 8" using assms(1,2) length_chars32 by metis
  then obtain ks7 k where ks: "ks = ks7 @ [k]" by (cases ks rule: rev_cases) auto
  have l7: "length cs7 = 7" using assms(2) cs by simp
  have "length ks7 = 7" using \<open>length ks = 8\<close> ks by simp
  then have ch: "chars32 0 cs7 ks7" "char32 7 c k" using assms(1) l7 by (auto simp: cs ks chars32_append)
  have n: "number32 m ks7 * 32 + k = m * 2 ^ 40 + x"
    using number32_mod [of m ks] assms(3) \<open>length ks = 8\<close> by (simp add: ks number32_append)
  have bytes: "ucast (drop_bit j (of_nat (m * 2 ^ 40 + x) :: u64)) = (of_nat (x div 2 ^ j) :: u8)" if "j \<le> 32" for j
    using byte32 [OF that] .
  have run: "decode_base32_loop (of_nat m) 0 dst prev (cs @ src) = decode_base32_loop (of_nat (number32 m ks7)) 7 dst (rev cs7 @ prev) (c # src)"
    using loop32_chars [OF ch(1), of m dst prev "c # src"] l7 by (simp add: cs)
  show ?thesis
    unfolding run loop32_eighth [OF ch(2)] n Let_def decode_base32_tail_def
    using bytes [of 32] bytes [of 24] bytes [of 16] bytes [of 8] bytes [of 0]
    by (intro exI [of _ "m * 2 ^ 40 + x"]) (simp add: cs assms(4,5) del: of_nat_add of_nat_mult)
qed

definition digits32 :: "nat \<Rightarrow> nat \<Rightarrow> nat \<Rightarrow> nat \<Rightarrow> nat \<Rightarrow> nat list" where
  "digits32 a b c d e = [a div 8, a mod 8 * 4 + b div 64, b mod 64 div 2, b mod 2 * 16 + c div 16, c mod 16 * 2 + d div 128,
     d mod 128 div 4, d mod 4 * 8 + e div 32, e mod 32]"

lemma b32_oct_digits: "b32_oct a b c d e = map d32 (digits32 a b c d e)"
  by (simp add: b32_oct_def digits32_def d32_def)

lemma number_of_five:
  assumes "a < 256" "b < 256" "c < 256" "d < 256" "e < 256"
  shows "number32 0 (digits32 a b c d e) = (((a * 256 + b) * 256 + c) * 256 + d) * 256 + e" "list_all (\<lambda>k. k < 32) (digits32 a b c d e)"
proof -
  obtain a1 a0 where a: "a = 8 * a1 + a0" "a0 < 8" by (metis mod_less_divisor mult_div_mod_eq zero_less_numeral)
  obtain b2 bx where b': "b = 64 * b2 + bx" "bx < 64" by (metis mod_less_divisor mult_div_mod_eq zero_less_numeral)
  obtain b1 b0 where b: "bx = 2 * b1 + b0" "b0 < 2" by (metis mod_less_divisor mult_div_mod_eq zero_less_numeral)
  obtain c1 c0 where c: "c = 16 * c1 + c0" "c0 < 16" by (metis mod_less_divisor mult_div_mod_eq zero_less_numeral)
  obtain d2 dx where d': "d = 128 * d2 + dx" "dx < 128" by (metis mod_less_divisor mult_div_mod_eq zero_less_numeral)
  obtain d1 d0 where d: "dx = 4 * d1 + d0" "d0 < 4" by (metis mod_less_divisor mult_div_mod_eq zero_less_numeral)
  obtain e1 e0 where e: "e = 32 * e1 + e0" "e0 < 32" by (metis mod_less_divisor mult_div_mod_eq zero_less_numeral)
  have q: "a div 8 = a1" "a mod 8 = a0" "b div 64 = b2" "b mod 64 = bx" "bx div 2 = b1" "c div 16 = c1" "c mod 16 = c0"
    "d div 128 = d2" "d mod 128 = dx" "dx div 4 = d1" "e div 32 = e1" "e mod 32 = e0"
    using a b b' c d d' e by simp_all
  have "b mod 2 = b mod 64 mod 2" "d mod 4 = d mod 128 mod 4" by (simp_all add: mod_mod_cancel)
  then have r: "b mod 2 = b0" "d mod 4 = d0" using q b d by simp_all
  have dig: "digits32 a b c d e = [a1, a0 * 4 + b2, b1, b0 * 16 + c1, c0 * 2 + d2, d1, d0 * 8 + e1, e0]"
    by (simp add: digits32_def q r)
  show "number32 0 (digits32 a b c d e) = (((a * 256 + b) * 256 + c) * 256 + d) * 256 + e"
    unfolding dig unfolding a(1) b'(1) b(1) c(1) d'(1) d(1) e(1) by simp
  show "list_all (\<lambda>k. k < 32) (digits32 a b c d e)"
    unfolding dig using assms a b b' c d d' e by simp
qed

text \<open>The text of a group, the digits of absent bytes replaced by equals signs from place \<open>n\<close> on.\<close>

lemma chars32_digits: "list_all (\<lambda>k. k < 32) ks \<Longrightarrow> chars32 i (map d32 ks) ks"
  by (induction ks arbitrary: i) (auto simp: char32_def)

lemma chars32_pads: "2 \<le> i \<Longrightarrow> chars32 i (replicate n 61) (replicate n 0)"
  by (induction n arbitrary: i) (auto simp: char32_def)

lemma chars32_join: "length cs = length ks \<Longrightarrow> chars32 i (cs @ cs') (ks @ ks') \<longleftrightarrow> chars32 i cs ks \<and> chars32 (i + length cs) cs' ks'"
  by (induction cs ks arbitrary: i rule: list_induct2) auto

lemma chars32_padded:
  assumes "list_all (\<lambda>k. k < 32) ks" "drop n ks = replicate p 0" "length ks = n + p" "2 \<le> n"
  shows "chars32 0 (take n (map d32 ks) @ replicate p 61) ks"
proof -
  have ks: "ks = take n ks @ replicate p 0" using assms(2) by (metis append_take_drop_id)
  have "list_all (\<lambda>k. k < 32) (take n ks)" using assms(1) by (auto simp: list_all_iff dest: in_set_takeD)
  then have "chars32 0 (map d32 (take n ks) @ replicate p 61) (take n ks @ replicate p 0)"
    using assms(3,4) by (simp add: chars32_join chars32_digits chars32_pads)
  then show ?thesis using ks by (simp add: take_map)
qed

text \<open>A cut inside a group: no byte is written.\<close>

lemma loop32_cut:
  assumes "chars32 0 cs ks" "m \<le> length cs" "m < 8"
  shows "decode_base32_loop (of_nat x) 0 dst prev (take m (cs @ src)) = (dst, [], m)"
proof -
  have "chars32 i (take m cs) (take m ks)" if "chars32 i cs ks" for i m
    using that
  proof (induction i cs ks arbitrary: m rule: chars32.induct)
    case (2 i c cs k ks)
    then show ?case by (cases m) auto
  qed auto
  from this [OF assms(1)] have "chars32 0 (take m cs) (take m ks)" .
  from loop32_chars [OF this, of x dst prev "[]"] show ?thesis using assms(2,3) by simp
qed

lemma bytes_of_five:
  fixes a b c d e :: u8
  defines "x \<equiv> (((unat a * 256 + unat b) * 256 + unat c) * 256 + unat d) * 256 + unat e"
  shows "[of_nat (x div 2 ^ 32), of_nat (x div 2 ^ 24), of_nat (x div 2 ^ 16), of_nat (x div 2 ^ 8), of_nat x] = [a, b, c, d, e]"
proof -
  have step: "(y * 256 + unat z) div 256 = y" "(y * 256 + unat z) mod 256 = unat z" for y and z :: u8
    using u8_less [of z] by (simp_all add: add.commute [of _ "unat z"])
  have pow: "n div 2 ^ 16 = n div 256 div 256" "n div 2 ^ 24 = n div 256 div 256 div 256" "n div 2 ^ 32 = n div 256 div 256 div 256 div 256" for n :: nat
    by (simp_all flip: div_mult2_eq)
  have eight: "(2 :: nat) ^ 8 = 256" by simp
  have v: "x div 2 ^ 32 = unat a" "x div 2 ^ 24 = unat a * 256 + unat b" "x div 2 ^ 16 = (unat a * 256 + unat b) * 256 + unat c"
    "x div 2 ^ 8 = ((unat a * 256 + unat b) * 256 + unat c) * 256 + unat d"
    by (simp_all only: pow eight x_def step)
  have "(of_nat (x div 2 ^ 32) :: u8) = a" unfolding v by simp
  moreover have "(of_nat (x div 2 ^ 24) :: u8) = b" unfolding v by (rule of_nat_byte) (rule step)
  moreover have "(of_nat (x div 2 ^ 16) :: u8) = c" unfolding v by (rule of_nat_byte) (rule step)
  moreover have "(of_nat (x div 2 ^ 8) :: u8) = d" unfolding v by (rule of_nat_byte) (rule step)
  moreover have "(of_nat x :: u8) = e" unfolding x_def by (rule of_nat_byte) (rule step)
  ultimately show ?thesis by simp
qed

lemma loop32_whole:
  fixes a b c d e :: u8
  shows "\<exists>m'. decode_base32_loop (of_nat m) 0 dst prev (b32_oct (unat a) (unat b) (unat c) (unat d) (unat e) @ src)
    = decode_base32_loop (of_nat m') 0 (dst @ [a, b, c, d, e]) (rev (b32_oct (unat a) (unat b) (unat c) (unat d) (unat e)) @ prev) src"
proof -
  let ?ks = "digits32 (unat a) (unat b) (unat c) (unat d) (unat e)"
  note n = number_of_five [OF u8_less [of a] u8_less [of b] u8_less [of c] u8_less [of d] u8_less [of e]]
  have "last (map d32 ?ks) \<noteq> 61" using n(2) d32_no_pad by (simp add: digits32_def)
  then show ?thesis
    using loop32_group [OF chars32_digits [OF n(2)] _ n(1) refl refl, of m dst prev src] bytes_of_five [of a b c d e]
    by (simp add: b32_oct_digits digits32_def)
qed

lemma replicate_pads:
  "replicate 6 x = [x, x, x, x, x, x]" "replicate 4 x = [x, x, x, x]" "replicate 3 x = [x, x, x]" "replicate 1 x = [x]"
  by (simp_all add: eval_nat_numeral)

definition pad_shape :: "nat \<Rightarrow> nat \<Rightarrow> nat \<Rightarrow> u8 \<Rightarrow> u8 \<Rightarrow> u8 \<Rightarrow> bool" where
  "pad_shape n t p b c d \<longleftrightarrow>
     n = 1 \<and> t = 2 \<and> p = 6 \<and> b = 0 \<and> c = 0 \<and> d = 0 \<or> n = 2 \<and> t = 4 \<and> p = 4 \<and> c = 0 \<and> d = 0 \<or> n = 3 \<and> t = 5 \<and> p = 3 \<and> d = 0 \<or> n = 4 \<and> t = 7 \<and> p = 1"

lemma pad_shape_digits:
  assumes "pad_shape n t p b c d"
  shows "drop t (digits32 (unat a) (unat b) (unat c) (unat d) 0) = replicate p 0"
  using assms unfolding pad_shape_def by (elim disjE conjE) (simp_all only: replicate_pads, simp_all add: digits32_def)

lemma pad_shape_num:
  assumes "pad_shape n t p b c d"
  shows "t + p = 8" "2 \<le> t" "0 < p" "(p + 1) * 2 div 3 + n = 5" "n \<le> 4" "t \<le> 7"
  using assms by (auto simp: pad_shape_def)

lemma pad_shape_chars:
  fixes a :: u8
  assumes "pad_shape n t p b c d"
  shows "chars32 0 (take t (map d32 (digits32 (unat a) (unat b) (unat c) (unat d) 0)) @ replicate p 61) (digits32 (unat a) (unat b) (unat c) (unat d) 0)"
proof -
  have "length (digits32 (unat a) (unat b) (unat c) (unat d) 0) = t + p"
    using pad_shape_num(1) [OF assms] by (simp add: digits32_def)
  moreover have "list_all (\<lambda>k. k < 32) (digits32 (unat a) (unat b) (unat c) (unat d) 0)"
    by (rule number_of_five(2)) (rule u8_less, rule u8_less, rule u8_less, rule u8_less, simp)
  ultimately show ?thesis using chars32_padded pad_shape_digits [OF assms] pad_shape_num(2) [OF assms] by blast
qed

lemma loop32_padded:
  fixes a b c d :: u8
  assumes "pad_shape n t p b c d"
  shows "decode_base32_loop (of_nat m) 0 dst prev (take t (b32_oct (unat a) (unat b) (unat c) (unat d) 0) @ replicate p 61 @ src)
    = (dst @ take n [a, b, c, d], src, 0)"
proof -
  let ?ks = "digits32 (unat a) (unat b) (unat c) (unat d) 0"
  let ?cs = "take t (map d32 ?ks) @ replicate p 61"
  note ntp = pad_shape_num [OF assms]
  have len: "length ?ks = 8" by (simp add: digits32_def)
  have n: "number32 0 ?ks = (((unat a * 256 + unat b) * 256 + unat c) * 256 + unat d) * 256 + unat (0 :: u8)" "list_all (\<lambda>k. k < 32) ?ks"
    using number_of_five [OF u8_less [of a] u8_less [of b] u8_less [of c] u8_less [of d], of 0] by simp_all
  have ch: "chars32 0 ?cs ?ks" by (rule pad_shape_chars [OF assms])
  have last: "last ?cs = 61" using ntp(3) by (simp add: last_replicate)
  obtain zs z where z: "take t (map d32 ?ks) = zs @ [z]"
    using len ntp(2) by (cases "take t (map d32 ?ks)" rule: rev_cases) auto
  have "z \<in> set (map d32 ?ks)" using z by (metis in_set_takeD in_set_conv_decomp)
  then have "z \<noteq> 61" using n(2) d32_no_pad by (auto simp: list_all_iff)
  then have pads: "length (takeWhile (\<lambda>c. c = 61) (rev ?cs @ prev)) = p" unfolding z by (simp add: takeWhile_append)
  have len8: "length ?cs = 8" using len ntp(1,6) by simp
  have out: "take (length (dst @ [a, b, c, d, 0]) - (p + 1) * 2 div 3) (dst @ [a, b, c, d, 0]) = dst @ take n [a, b, c, d]"
  proof -
    have "length (dst @ [a, b, c, d, 0]) - (p + 1) * 2 div 3 = length dst + n" using ntp(4) by simp
    moreover have "take n ([a, b, c, d] @ [0]) = take n [a, b, c, d]" using ntp(5) by (subst take_append) simp
    ultimately show ?thesis by simp
  qed
  have five: "(dst @ [x]) @ [y, z, v, w] = dst @ [a, b, c, d, 0]" if "[x, y, z, v, w] = [a, b, c, d, 0]" for x y z v w :: u8
    using that by simp
  show ?thesis
    using loop32_group [OF ch len8 n(1) refl refl, of m dst prev src]
    unfolding pads last five [OF bytes_of_five [of a b c d 0]] out by (simp add: b32_oct_digits)
qed

lemma of_char_equals: "(of_char CHR ''='' :: u8) = 61"
  by simp

lemma text32_padded:
  "b32_text [a] = take 2 (b32_oct (unat a) (unat (0 :: u8)) (unat (0 :: u8)) (unat (0 :: u8)) 0) @ replicate 6 61"
  "b32_text [a, b] = take 4 (b32_oct (unat a) (unat b) (unat (0 :: u8)) (unat (0 :: u8)) 0) @ replicate 4 61"
  "b32_text [a, b, c] = take 5 (b32_oct (unat a) (unat b) (unat c) (unat (0 :: u8)) 0) @ replicate 3 61"
  "b32_text [a, b, c, d] = take 7 (b32_oct (unat a) (unat b) (unat c) (unat d) 0) @ replicate 1 61"
  by (simp_all only: b32_text.simps equals_signs unsigned_0 of_char_equals)

lemma loop32_last_group:
  fixes a b c d :: u8
  assumes "pad_shape n t p b c d" "m \<le> 8"
  shows "decode_base32_loop (of_nat x) 0 dst prev (take m (take t (b32_oct (unat a) (unat b) (unat c) (unat d) 0) @ replicate p 61))
    = (dst @ take (5 * (m div 8)) (take n [a, b, c, d]), [], m mod 8)"
proof (cases "m = 8")
  case True
  have "length (take t (b32_oct (unat a) (unat b) (unat c) (unat d) 0) @ replicate p (61 :: u8)) \<le> m"
    using pad_shape_num [OF assms(1)] True by (simp add: len_simps)
  note whole = take_all [OF this]
  have "take (5 * (m div 8)) (take n [a, b, c, d]) = take n [a, b, c, d]"
    using True pad_shape_num(5) [OF assms(1)] by (simp add: min_def)
  then show ?thesis
    unfolding whole using loop32_padded [OF assms(1), of x dst prev a "[]"] True by simp
next
  case False
  let ?ks = "digits32 (unat a) (unat b) (unat c) (unat d) 0"
  have ch: "chars32 0 (take t (map d32 ?ks) @ replicate p 61) ?ks" by (rule pad_shape_chars [OF assms(1)])
  have "length (take t (map d32 ?ks) @ replicate p 61) = 8" using length_chars32 [OF ch] by (simp add: digits32_def)
  with False assms(2) show ?thesis using loop32_cut [OF ch, of m x dst prev "[]"] by (simp add: b32_oct_digits)
qed

lemma loop32_prefix:
  assumes "m \<le> length (b32_text bs)"
  shows "decode_base32_loop (of_nat x) 0 dst prev (take m (b32_text bs)) = (dst @ take (5 * (m div 8)) bs, [], m mod 8)"
  using assms
proof (induction bs arbitrary: m dst prev x rule: b32_text.induct)
  case 1
  then show ?case by simp
next
  case (2 a)
  then show ?case
    using loop32_last_group [of 1 2 6 0 0 0 m x dst prev a] unfolding text32_padded
    by (simp add: pad_shape_def len_simps)
next
  case (3 a b)
  then show ?case
    using loop32_last_group [of 2 4 4 b 0 0 m x dst prev a] unfolding text32_padded
    by (simp add: pad_shape_def len_simps)
next
  case (4 a b c)
  then show ?case
    using loop32_last_group [of 3 5 3 b c 0 m x dst prev a] unfolding text32_padded
    by (simp add: pad_shape_def len_simps)
next
  case (5 a b c d)
  then show ?case
    using loop32_last_group [of 4 7 1 b c d m x dst prev a] unfolding text32_padded
    by (simp add: pad_shape_def len_simps)
next
  case (6 a b c d e bs)
  let ?q = "b32_oct (unat a) (unat b) (unat c) (unat d) (unat e)"
  show ?case
  proof (cases "8 \<le> m")
    case False
    have "chars32 0 ?q (digits32 (unat a) (unat b) (unat c) (unat d) (unat e))"
      using number_of_five(2) [OF u8_less [of a] u8_less [of b] u8_less [of c] u8_less [of d] u8_less [of e]]
      by (simp only: b32_oct_digits chars32_digits)
    from loop32_cut [OF this, of m x dst prev "b32_text bs"] False show ?thesis by (simp add: len_simps)
  next
    case True
    then obtain l where m: "m = 8 + l" using le_Suc_ex by blast
    have l: "l \<le> length (b32_text bs)" using "6.prems" m by (simp add: len_simps)
    have "take m (b32_text (a # b # c # d # e # bs)) = ?q @ take l (b32_text bs)"
      by (simp add: m len_simps)
    then obtain x' where "decode_base32_loop (of_nat x) 0 dst prev (take m (b32_text (a # b # c # d # e # bs)))
      = decode_base32_loop (of_nat x') 0 (dst @ [a, b, c, d, e]) (rev ?q @ prev) (take l (b32_text bs))"
      using loop32_whole by metis
    then have "decode_base32_loop (of_nat x) 0 dst prev (take m (b32_text (a # b # c # d # e # bs)))
      = (dst @ [a, b, c, d, e] @ take (5 * (l div 8)) bs, [], l mod 8)"
      using "6.IH" [OF l] by simp
    moreover have "5 * (m div 8) = Suc (Suc (Suc (Suc (Suc (5 * (l div 8))))))" "m mod 8 = l mod 8"
      using div_add_self1 [of 8 l] unfolding m by simp_all
    ultimately show ?thesis by simp
  qed
qed

lemma decode_base32_prefix:
  assumes "m \<le> length (b32_text bs)"
  shows "decode_base32 (take m (b32_text bs)) = (take (5 * (m div 8)) bs, drop (8 * (m div 8)) (take m (b32_text bs)))"
  using loop32_prefix [OF assms, of 0 "[]" "[]"] assms by (simp add: decode_base32_def minus_mod_eq_mult_div min_def)

end
