(* ===== verification/Numbers.thy ===== *)
theory Numbers
  imports Prelude
begin

text \<open>
  Numbers from text: \<^verbatim>\<open>libbb/bb_strtonum.c\<close> and \<^verbatim>\<open>libbb/xatonum_template.c\<close>, which the applets
  use for their arguments. Text is the bytes before the NUL, values are words of the width
  of their C type.
\<close>

section \<open>Characters\<close>

definition bb_isdigit :: "u8 \<Rightarrow> bool" where
  "bb_isdigit a \<longleftrightarrow> a - 48 \<le> 9"

definition bb_isspace :: "u8 \<Rightarrow> bool" where
  "bb_isspace a \<longleftrightarrow> a = 32 \<or> a - 9 \<le> 13 - 9"

definition bb_isalnum :: "u8 \<Rightarrow> bool" where
  "bb_isalnum a \<longleftrightarrow> (if a - 48 \<le> 9 then True else (a OR 0x20) - 97 \<le> 25)"

fun first_char :: "bytes \<Rightarrow> u8" where
  "first_char [] = 0"
| "first_char (c # s) = c"

section \<open>The C library's conversion\<close>

text \<open>
  \<^verbatim>\<open>strtoull\<close> and \<^verbatim>\<open>strtoul\<close> (64 bits) on text without leading blanks or sign, as all callers here
  guarantee: the value, the rest, and whether \<^verbatim>\<open>errno\<close> is set to \<^verbatim>\<open>ERANGE\<close>. Without digits the
  rest is the whole text.
\<close>

definition digit_of :: "u8 \<Rightarrow> nat" where
  "digit_of c =
     (if bb_isdigit c then unat (c - 48) else if bb_isalnum c then unat ((c OR 0x20) - 97) + 10 else 99)"

fun scan_number :: "nat \<Rightarrow> nat \<Rightarrow> bytes \<Rightarrow> nat \<times> bytes" where
  "scan_number base n [] = (n, [])"
| "scan_number base n (c # s) = (if digit_of c < base then scan_number base (n * base + digit_of c) s else (n, c # s))"

definition strtoull :: "bytes \<Rightarrow> nat \<Rightarrow> u64 \<times> bytes \<times> bool" where
  "strtoull s base =
     (let hex = (case s of c # x # d # r \<Rightarrow> c = 48 \<and> x OR 0x20 = 120 \<and> digit_of d < 16 | _ \<Rightarrow> False);
          (base, s) =
            (if base = 0 then
               (if hex then (16, drop 2 s) else if first_char s = 48 then (8, s) else (10, s))
             else if base = 16 \<and> hex then (16, drop 2 s) else (base, s));
          (n, rest) = scan_number base 0 s
      in if n < 2 ^ 64 then (of_nat n, rest, False) else (-1, rest, True))"

text \<open>\<^verbatim>\<open>strtoll\<close> takes a minus sign.\<close>

definition strtoll :: "bytes \<Rightarrow> nat \<Rightarrow> u64 \<times> bytes \<times> bool" where
  "strtoll s base =
     (let neg = (first_char s = 45);
          digits = (if neg then tl s else s);
          (n, rest) = scan_number base 0 digits;
          rest = (if rest = digits then s else rest)
      in if neg then (if n \<le> 2 ^ 63 then (- of_nat n, rest, False) else (- (2 ^ 63), rest, True))
         else (if n < 2 ^ 63 then (of_nat n, rest, False) else (2 ^ 63 - 1, rest, True)))"

section \<open>bb_strtonum.c\<close>

datatype errno = E_OK | E_INVAL | E_RANGE

text \<open>The results are the value, \<^verbatim>\<open>*endp\<close> and \<^verbatim>\<open>errno\<close>.\<close>

definition ret_ERANGE :: "u64 \<times> errno" where
  "ret_ERANGE = (-1, E_RANGE)"

definition handle_errors :: "u64 \<Rightarrow> bytes \<Rightarrow> bool \<Rightarrow> u64 \<times> errno" where
  "handle_errors v endp erange =
     (if endp \<noteq> [] then
        (if bb_isalnum (first_char endp) \<or> erange then ret_ERANGE else (v, E_INVAL))
      else (v, if erange then E_RANGE else E_OK))"

definition bb_strtoull :: "bytes \<Rightarrow> nat \<Rightarrow> (u64 \<times> errno) \<times> bytes" where
  "bb_strtoull arg base =
     (if \<not> bb_isalnum (first_char arg) then (ret_ERANGE, arg)
      else (let (v, endp, erange) = strtoull arg base in (handle_errors v endp erange, endp)))"

text \<open>The character that must be alphanumeric for a signed number.\<close>

definition after_minus :: "bytes \<Rightarrow> u8" where
  "after_minus arg = (if first_char arg \<noteq> 45 then first_char arg else first_char (tl arg))"

definition bb_strtoll :: "bytes \<Rightarrow> nat \<Rightarrow> (u64 \<times> errno) \<times> bytes" where
  "bb_strtoll arg base =
     (if \<not> bb_isalnum (after_minus arg) then (ret_ERANGE, arg)
      else (let (v, endp, erange) = strtoll arg base in (handle_errors v endp erange, endp)))"

definition bb_strtou :: "bytes \<Rightarrow> nat \<Rightarrow> (u32 \<times> errno) \<times> bytes" where
  "bb_strtou arg base =
     (if \<not> bb_isalnum (first_char arg) then (apfst ucast ret_ERANGE, arg)
      else (let (v, endp, erange) = strtoull arg base
            in (apfst ucast (if v > 0xffffffff then ret_ERANGE else handle_errors v endp erange), endp)))"

definition bb_strtoi :: "bytes \<Rightarrow> nat \<Rightarrow> (u32 \<times> errno) \<times> bytes" where
  "bb_strtoi arg base =
     (if \<not> bb_isalnum (after_minus arg) then (apfst ucast ret_ERANGE, arg)
      else (let (v, endp, erange) = strtoll arg base
            in (apfst ucast
                  (if sint v > 2 ^ 31 - 1 then ret_ERANGE else if sint v < - (2 ^ 31) then ret_ERANGE else handle_errors v endp erange),
                endp)))"

section \<open>xatonum_template.c\<close>

text \<open>
  The template is instantiated with \<^verbatim>\<open>long long\<close> and \<^verbatim>\<open>int\<close>; the type is the word length here.
  An error is a message and exit: \<^verbatim>\<open>invalid number '%s'\<close> or \<^verbatim>\<open>number %s is not in %llu..%llu range\<close>.
\<close>

datatype num_error = Invalid_number bytes | Not_in_range bytes int int

text \<open>\<^verbatim>\<open>bb_strtoui\<close>, and the choice of \<^verbatim>\<open>XSTR_STRTOU\<close>.\<close>

definition bb_strtoui :: "bytes \<Rightarrow> nat \<Rightarrow> u64 \<times> bytes \<times> bool" where
  "bb_strtoui str b =
     (let (v, end', erange) = strtoull str b in if v > 0xffffffff then (0xffffffff, end', True) else (v, end', erange))"

definition XSTR_STRTOU :: "bytes \<Rightarrow> nat \<Rightarrow> 'a::len word \<times> bytes \<times> bool" where
  "XSTR_STRTOU str b = apfst ucast (if LENGTH('a) = 32 then bb_strtoui str b else strtoull str b)"

fun find_suffix :: "(bytes \<times> u32) list \<Rightarrow> bytes \<Rightarrow> u32 option" where
  "find_suffix [] e = None"
| "find_suffix ((suffix, mult) # suffixes) e =
     (if mult = 0 then None else if suffix = e then Some mult else find_suffix suffixes e)"

definition xstrtou_range_sfx :: "bytes \<Rightarrow> nat \<Rightarrow> 'a::len word \<Rightarrow> 'a word \<Rightarrow> (bytes \<times> u32) list option \<Rightarrow> num_error + 'a word" where
  "xstrtou_range_sfx numstr base lower upper suffixes =
     (if first_char numstr = 45 \<or> first_char numstr = 43 \<or> bb_isspace (first_char numstr) then Inl (Invalid_number numstr)
      else
        (let (r, e, erange) = XSTR_STRTOU numstr base;
             chk_range = (\<lambda>r. if r \<ge> lower \<and> r \<le> upper then Inr r else Inl (Not_in_range numstr (uint lower) (uint upper)))
         in if erange \<or> e = numstr then Inl (Invalid_number numstr)
            else case (case suffixes of None \<Rightarrow> None | Some sfx \<Rightarrow> find_suffix sfx e) of
                   Some mult \<Rightarrow>
                     (if (-1) div ucast mult < r then Inl (Not_in_range numstr (uint lower) (uint upper))
                      else chk_range (r * ucast mult))
                 | None \<Rightarrow> (if e \<noteq> [] then Inl (Invalid_number numstr) else chk_range r)))"

definition xstrtou_range :: "bytes \<Rightarrow> nat \<Rightarrow> 'a::len word \<Rightarrow> 'a word \<Rightarrow> num_error + 'a word" where
  "xstrtou_range numstr base lower upper = xstrtou_range_sfx numstr base lower upper None"

definition xstrtou_sfx :: "bytes \<Rightarrow> nat \<Rightarrow> (bytes \<times> u32) list option \<Rightarrow> num_error + 'a::len word" where
  "xstrtou_sfx numstr base suffixes = xstrtou_range_sfx numstr base 0 (-1) suffixes"

definition xstrtou :: "bytes \<Rightarrow> nat \<Rightarrow> num_error + 'a::len word" where
  "xstrtou numstr base = xstrtou_range_sfx numstr base 0 (-1) None"

definition xatou_range_sfx :: "bytes \<Rightarrow> 'a::len word \<Rightarrow> 'a word \<Rightarrow> (bytes \<times> u32) list option \<Rightarrow> num_error + 'a word" where
  "xatou_range_sfx numstr lower upper suffixes = xstrtou_range_sfx numstr 10 lower upper suffixes"

definition xatou_range :: "bytes \<Rightarrow> 'a::len word \<Rightarrow> 'a word \<Rightarrow> num_error + 'a word" where
  "xatou_range numstr lower upper = xstrtou_range_sfx numstr 10 lower upper None"

definition xatou_sfx :: "bytes \<Rightarrow> (bytes \<times> u32) list option \<Rightarrow> num_error + 'a::len word" where
  "xatou_sfx numstr suffixes = xstrtou_range_sfx numstr 10 0 (-1) suffixes"

definition xatou :: "bytes \<Rightarrow> num_error + 'a::len word" where
  "xatou numstr = xatou_sfx numstr None"

text \<open>The signed ones. \<open>TYPE_MIN\<close> and \<open>TYPE_MAX\<close> are those of the type.\<close>

definition TYPE_MAX :: "'a::len word" where
  "TYPE_MAX = mask (LENGTH('a) - 1)"

definition TYPE_MIN :: "'a::len word" where
  "TYPE_MIN = push_bit (LENGTH('a) - 1) 1"

definition xstrto_range_sfx :: "bytes \<Rightarrow> nat \<Rightarrow> 'a::len word \<Rightarrow> 'a word \<Rightarrow> (bytes \<times> u32) list option \<Rightarrow> num_error + 'a word" where
  "xstrto_range_sfx numstr base lower upper suffixes =
     (let u = TYPE_MAX;
          (p, u) =
            (if first_char numstr = 43 \<or> first_char numstr = 45 then
               (let p = tl numstr in (p, if first_char p = 45 then u + 1 else u))
             else (numstr, u))
      in case xstrtou_range_sfx p base 0 u suffixes of
           Inl e \<Rightarrow> Inl e
         | Inr r \<Rightarrow>
             (let r = (if first_char numstr = 45 then - r else r)
              in if sint r < sint lower \<or> sint r > sint upper then Inl (Not_in_range numstr (sint lower) (sint upper)) else Inr r))"

definition xstrto_range :: "bytes \<Rightarrow> nat \<Rightarrow> 'a::len word \<Rightarrow> 'a word \<Rightarrow> num_error + 'a word" where
  "xstrto_range numstr base lower upper = xstrto_range_sfx numstr base lower upper None"

definition xstrto :: "bytes \<Rightarrow> nat \<Rightarrow> num_error + 'a::len word" where
  "xstrto numstr base = xstrto_range_sfx numstr base TYPE_MIN TYPE_MAX None"

definition xato_range_sfx :: "bytes \<Rightarrow> 'a::len word \<Rightarrow> 'a word \<Rightarrow> (bytes \<times> u32) list option \<Rightarrow> num_error + 'a word" where
  "xato_range_sfx numstr lower upper suffixes = xstrto_range_sfx numstr 10 lower upper suffixes"

definition xato_range :: "bytes \<Rightarrow> 'a::len word \<Rightarrow> 'a word \<Rightarrow> num_error + 'a word" where
  "xato_range numstr lower upper = xstrto_range_sfx numstr 10 lower upper None"

definition xato_sfx :: "bytes \<Rightarrow> (bytes \<times> u32) list option \<Rightarrow> num_error + 'a::len word" where
  "xato_sfx numstr suffixes = xstrto_range_sfx numstr 10 TYPE_MIN TYPE_MAX suffixes"

definition xato :: "bytes \<Rightarrow> num_error + 'a::len word" where
  "xato numstr = xstrto_range_sfx numstr 10 TYPE_MIN TYPE_MAX None"

section \<open>xatonum.c\<close>

definition xatoi_positive :: "bytes \<Rightarrow> num_error + u32" where
  "xatoi_positive numstr = xatou_range numstr 0 TYPE_MAX"

definition xatou16 :: "bytes \<Rightarrow> num_error + u16" where
  "xatou16 numstr = map_sum id ucast (xatou_range numstr 0 0xffff :: num_error + u32)"

definition bkm_suffixes :: "(bytes \<times> u32) list" where
  "bkm_suffixes = [(ascii ''b'', 512), (ascii ''k'', 1024), (ascii ''m'', 1024 * 1024), ([], 0)]"

definition cwbkMG_suffixes :: "(bytes \<times> u32) list" where
  "cwbkMG_suffixes =
     [(ascii ''c'', 1), (ascii ''w'', 2), (ascii ''b'', 512), (ascii ''kB'', 1000), (ascii ''kD'', 1000), (ascii ''k'', 1024),
      (ascii ''KB'', 1000), (ascii ''KD'', 1000), (ascii ''K'', 1024), (ascii ''MB'', 1000000), (ascii ''MD'', 1000000),
      (ascii ''M'', 1024 * 1024), (ascii ''GB'', 1000000000), (ascii ''GD'', 1000000000), (ascii ''G'', 1024 * 1024 * 1024), ([], 0)]"

definition kmg_i_suffixes :: "(bytes \<times> u32) list" where
  "kmg_i_suffixes =
     [(ascii ''KiB'', 1024), (ascii ''kiB'', 1024), (ascii ''K'', 1024), (ascii ''k'', 1024), (ascii ''MiB'', 1048576),
      (ascii ''miB'', 1048576), (ascii ''M'', 1048576), (ascii ''m'', 1048576), (ascii ''GiB'', 1073741824), (ascii ''giB'', 1073741824),
      (ascii ''G'', 1073741824), (ascii ''g'', 1073741824), (ascii ''KB'', 1000), (ascii ''MB'', 1000000), (ascii ''GB'', 1000000000), ([], 0)]"

section \<open>Decimal numbers\<close>

definition is_decimal :: "bytes \<Rightarrow> bool" where
  "is_decimal ds \<longleftrightarrow> ds \<noteq> [] \<and> list_all (\<lambda>c. 48 \<le> c \<and> c \<le> 57) ds"

definition decimal_value :: "bytes \<Rightarrow> nat" where
  "decimal_value ds = foldl (\<lambda>n c. n * 10 + (unat c - 48)) 0 ds"

lemma decimal_cases:
  fixes c :: u8
  assumes "48 \<le> c" "c \<le> 57"
  shows "c \<in> {48, 49, 50, 51, 52, 53, 54, 55, 56, 57}"
proof -
  have "48 \<le> unat c" "unat c \<le> 57" using assms by (simp_all add: word_le_nat_alt)
  then have "unat c = 48 \<or> unat c = 49 \<or> unat c = 50 \<or> unat c = 51 \<or> unat c = 52 \<or> unat c = 53 \<or> unat c = 54 \<or> unat c = 55
    \<or> unat c = 56 \<or> unat c = 57" by presburger
  moreover have "c = of_nat (unat c)" by simp
  ultimately show ?thesis by (elim disjE) (simp only: insert_iff, simp)+
qed

lemma digit_of_decimal:
  assumes "48 \<le> c" "c \<le> 57"
  shows "digit_of c = unat c - 48 \<and> digit_of c < 10"
  using decimal_cases [OF assms] by (elim insertE emptyE) (simp_all add: digit_of_def bb_isdigit_def)

lemma scan_decimal:
  assumes "list_all (\<lambda>c. 48 \<le> c \<and> c \<le> 57) ds" "e = [] \<or> 10 \<le> digit_of (first_char e)"
  shows "scan_number 10 n (ds @ e) = (foldl (\<lambda>n c. n * 10 + (unat c - 48)) n ds, e)"
  using assms(1)
proof (induction ds arbitrary: n)
  case Nil
  then show ?case using assms(2) by (cases e) auto
next
  case (Cons c ds)
  then show ?case using digit_of_decimal [of c] by simp
qed

lemma strtoull_decimal:
  assumes "is_decimal ds" "e = [] \<or> 10 \<le> digit_of (first_char e)"
  shows "strtoull (ds @ e) 10 =
    (if decimal_value ds < 2 ^ 64 then (of_nat (decimal_value ds), e, False) else (-1, e, True))"
  using scan_decimal [of ds e 0] assms by (simp add: strtoull_def is_decimal_def decimal_value_def Let_def)

lemma decimal_first:
  assumes "is_decimal ds"
  shows "first_char (ds @ e) \<noteq> 45 \<and> first_char (ds @ e) \<noteq> 43 \<and> \<not> bb_isspace (first_char (ds @ e)) \<and> bb_isalnum (first_char (ds @ e))"
proof -
  obtain c r where ds: "ds = c # r" "48 \<le> c" "c \<le> 57" using assms by (cases ds) (auto simp: is_decimal_def)
  have "c \<noteq> 45 \<and> c \<noteq> 43 \<and> \<not> bb_isspace c \<and> bb_isalnum c"
    using decimal_cases [OF ds(2,3)] by (elim insertE emptyE) (simp_all add: bb_isspace_def bb_isalnum_def)
  then show ?thesis using ds by simp
qed

lemma XSTR_STRTOU_decimal:
  assumes "is_decimal ds" "e = [] \<or> 10 \<le> digit_of (first_char e)" "LENGTH('a::len) = 32 \<or> LENGTH('a) = 64"
  shows "decimal_value ds < 2 ^ LENGTH('a) \<Longrightarrow> XSTR_STRTOU (ds @ e) 10 = (of_nat (decimal_value ds) :: 'a word, e, False)"
    "\<not> decimal_value ds < 2 ^ LENGTH('a) \<Longrightarrow> \<exists>r :: 'a word. XSTR_STRTOU (ds @ e) 10 = (r, e, True)"
proof -
  have le: "(2 :: nat) ^ LENGTH('a) \<le> 2 ^ 64" using assms(3) by (intro power_increasing) auto
  have big: "of_nat n > (0xffffffff :: u64) \<longleftrightarrow> n \<ge> 2 ^ 32" if "n < 2 ^ 64" for n
  proof -
    have "unat (of_nat n :: u64) = n" using that by (simp add: unat_of_nat)
    then have "of_nat n > (0xffffffff :: u64) \<longleftrightarrow> n > 0xffffffff" by (simp only: word_less_nat_alt) simp
    then show ?thesis by auto
  qed
  have cast: "ucast (of_nat n :: u64) = (of_nat n :: 'a word)" if "n < 2 ^ LENGTH('a)" for n
    using that le by (intro word_unat_eq_iff [THEN iffD2]) (simp add: unsigned_ucast_eq unat_of_nat take_bit_eq_mod)
  show "decimal_value ds < 2 ^ LENGTH('a) \<Longrightarrow> XSTR_STRTOU (ds @ e) 10 = (of_nat (decimal_value ds) :: 'a word, e, False)"
    using assms(3) le big [of "decimal_value ds"] strtoull_decimal [OF assms(1,2)] cast
    by (auto simp: XSTR_STRTOU_def bb_strtoui_def)
  show "\<not> decimal_value ds < 2 ^ LENGTH('a) \<Longrightarrow> \<exists>r :: 'a word. XSTR_STRTOU (ds @ e) 10 = (r, e, True)"
    using assms(3) big [of "decimal_value ds"] strtoull_decimal [OF assms(1,2)]
    by (auto simp: XSTR_STRTOU_def bb_strtoui_def)
qed

text \<open>The multiplier of what follows the digits: that of a suffix of the table, or 1 at the end of the text.\<close>

definition multiplier :: "(bytes \<times> u32) list option \<Rightarrow> bytes \<Rightarrow> u32 option" where
  "multiplier suffixes e =
     (case (case suffixes of None \<Rightarrow> None | Some sfx \<Rightarrow> find_suffix sfx e) of
        Some mult \<Rightarrow> Some mult
      | None \<Rightarrow> if e = [] then Some 1 else None)"

lemma find_suffix_nonzero: "find_suffix sfx e = Some mult \<Longrightarrow> mult \<noteq> 0"
  by (induction sfx e rule: find_suffix.induct) (auto split: if_splits)

lemma ucast_32: "LENGTH('a::len) = 32 \<or> LENGTH('a) = 64 \<Longrightarrow> unat (ucast (m :: u32) :: 'a word) = unat m"
  using unat_bound [of m] by (auto simp: unsigned_ucast_eq take_bit_eq_mod)

lemma overflow_check:
  fixes r m :: "'a::len word"
  assumes "m \<noteq> 0"
  shows "(-1) div m < r \<longleftrightarrow> 2 ^ LENGTH('a) \<le> unat r * unat m"
proof -
  have "unat m > 0" using assms by (simp add: unat_gt_0)
  then have "(2 ^ LENGTH('a) - 1) div unat m < unat r \<longleftrightarrow> 2 ^ LENGTH('a) - 1 < unat r * unat m"
    by (rule div_less_iff_less_mult)
  also have "\<dots> \<longleftrightarrow> 2 ^ LENGTH('a) \<le> unat r * unat m" by (simp add: Suc_le_eq less_diff_conv2) linarith
  finally show ?thesis by (simp add: word_less_nat_alt unat_div unsigned_minus_1_eq_mask mask_eq_exp_minus_1)
qed

lemma xatou_run:
  fixes lower upper :: "'a::len word"
  assumes "LENGTH('a) = 32 \<or> LENGTH('a) = 64" and "is_decimal ds"
    and "e = [] \<or> 10 \<le> digit_of (first_char e)" and "multiplier suffixes e = Some mult"
  shows "xatou_range_sfx (ds @ e) lower upper suffixes =
    (let n = decimal_value ds * unat mult
     in if decimal_value ds \<ge> 2 ^ LENGTH('a) then Inl (Invalid_number (ds @ e))
        else if n \<ge> 2 ^ LENGTH('a) \<or> n < unat lower \<or> unat upper < n
        then Inl (Not_in_range (ds @ e) (uint lower) (uint upper))
        else Inr (of_nat n))"
proof (cases "decimal_value ds < 2 ^ LENGTH('a)")
  case False
  then show ?thesis
    using XSTR_STRTOU_decimal(2) [OF assms(2,3,1)] decimal_first [OF assms(2), of e]
    by (auto simp: xatou_range_sfx_def xstrtou_range_sfx_def Let_def)
next
  case True
  define r :: "'a word" where "r = of_nat (decimal_value ds)"
  have r: "unat r = decimal_value ds" using True by (simp add: r_def unat_of_nat)
  have ne: "e \<noteq> ds @ e" using assms(2) by (simp add: is_decimal_def)
  have run: "xatou_range_sfx (ds @ e) lower upper suffixes =
    (case (case suffixes of None \<Rightarrow> None | Some sfx \<Rightarrow> find_suffix sfx e) of
       Some mult \<Rightarrow>
         (if (-1) div ucast mult < r then Inl (Not_in_range (ds @ e) (uint lower) (uint upper))
          else if r * ucast mult \<ge> lower \<and> r * ucast mult \<le> upper then Inr (r * ucast mult) else Inl (Not_in_range (ds @ e) (uint lower) (uint upper)))
     | None \<Rightarrow> (if e \<noteq> [] then Inl (Invalid_number (ds @ e))
                else if r \<ge> lower \<and> r \<le> upper then Inr r else Inl (Not_in_range (ds @ e) (uint lower) (uint upper))))"
    using XSTR_STRTOU_decimal(1) [OF assms(2,3,1) True, folded r_def] decimal_first [OF assms(2), of e] ne
    by (simp add: xatou_range_sfx_def xstrtou_range_sfx_def Let_def)
  show ?thesis
  proof (cases "case suffixes of None \<Rightarrow> None | Some sfx \<Rightarrow> find_suffix sfx e")
    case None
    then have "e = []" "mult = 1" using assms(4) by (auto simp: multiplier_def split: if_splits)
    then show ?thesis using None run r True by (auto simp: Let_def word_le_nat_alt r_def)
  next
    case (Some m)
    then have m: "m = mult" "mult \<noteq> 0" using assms(4) find_suffix_nonzero by (auto simp: multiplier_def split: option.splits)
    define k :: "'a word" where "k = ucast mult"
    have k: "unat k = unat mult" "k \<noteq> 0"
      using ucast_32 [OF assms(1), of mult] m(2) by (auto simp: k_def unsigned_eq_0_iff)
    have prod: "r * k = of_nat (decimal_value ds * unat mult)"
      using r k(1) by (metis of_nat_mult of_nat_unat ucast_id)
    have overflow: "(-1) div k < r \<longleftrightarrow> 2 ^ LENGTH('a) \<le> decimal_value ds * unat mult"
      using overflow_check [OF k(2), of r] r k(1) by simp
    show ?thesis
    proof (cases "decimal_value ds * unat mult < 2 ^ LENGTH('a)")
      case small: True
      then have "unat (r * k) = decimal_value ds * unat mult" unfolding prod by (simp add: unat_of_nat del: of_nat_mult)
      then show ?thesis
        using small True unfolding run Some option.case m(1) k_def [symmetric] overflow
        by (simp add: Let_def word_le_nat_alt prod not_less del: of_nat_mult)
    next
      case False
      then show ?thesis
        using True unfolding run Some option.case m(1) k_def [symmetric] overflow by (simp add: Let_def)
    qed
  qed
qed

text \<open>
  C23. The unsigned conversions are exact on decimal numbers with a suffix: a number that does not
  fit is invalid, a product that does not fit is out of range, and otherwise the value is the product,
  without wrap-around, if it lies in the range asked for.
\<close>

theorem xatou_range_sfx_exact:
  fixes lower upper :: "'a::len word"
  assumes "LENGTH('a) = 32 \<or> LENGTH('a) = 64" and "is_decimal ds"
    and "e = [] \<or> 10 \<le> digit_of (first_char e)" and "multiplier suffixes e = Some mult"
  shows "xatou_range_sfx (ds @ e) lower upper suffixes =
    (let n = decimal_value ds * unat mult
     in if decimal_value ds \<ge> 2 ^ LENGTH('a) then Inl (Invalid_number (ds @ e))
        else if n \<ge> 2 ^ LENGTH('a) \<or> n < unat lower \<or> unat upper < n
        then Inl (Not_in_range (ds @ e) (uint lower) (uint upper))
        else Inr (of_nat n))"
  using xatou_run [OF assms] .

theorem xatou_range_sfx_exact_witness:
  "xatou_range_sfx (ascii ''512'' @ ascii ''k'') 0 (1000000 :: u32) (Some bkm_suffixes) = Inr 524288
   \<and> xatou_range_sfx (ascii ''4194304'' @ ascii ''k'') 0 (1000000 :: u32) (Some bkm_suffixes) = Inl (Not_in_range (ascii ''4194304k'') 0 1000000)"
proof -
  have d: "is_decimal (ascii ''512'')" "is_decimal (ascii ''4194304'')" by (simp_all add: is_decimal_def ascii_def)
  have e: "10 \<le> digit_of (first_char (ascii ''k''))" by (simp add: ascii_def digit_of_def bb_isdigit_def bb_isalnum_def)
  have m: "multiplier (Some bkm_suffixes) (ascii ''k'') = Some 1024" by (simp add: multiplier_def bkm_suffixes_def ascii_def)
  have v: "decimal_value (ascii ''512'') = 512" "decimal_value (ascii ''4194304'') = 4194304" by (simp_all add: decimal_value_def ascii_def)
  show ?thesis
    using xatou_range_sfx_exact [OF _ d(1) disjI2 [OF e] m, of 0 "1000000 :: u32"] xatou_range_sfx_exact [OF _ d(2) disjI2 [OF e] m, of 0 "1000000 :: u32"]
    by (simp add: v) (simp add: ascii_def)
qed

section \<open>Signed numbers\<close>

fun decimal :: "nat \<Rightarrow> bytes" where
  "decimal n = (if n < 10 then [of_nat (48 + n)] else decimal (n div 10) @ [of_nat (48 + n mod 10)])"

declare decimal.simps [simp del]

definition decimal_int :: "int \<Rightarrow> bytes" where
  "decimal_int i = (if i < 0 then 45 # decimal (nat (- i)) else decimal (nat i))"

lemma decimal_digit:
  assumes "k < 10"
  shows "48 \<le> (of_nat (48 + k) :: u8) \<and> (of_nat (48 + k) :: u8) \<le> 57 \<and> unat (of_nat (48 + k) :: u8) = 48 + k"
proof -
  have "unat (of_nat (48 + k) :: u8) = 48 + k" using assms by (simp add: unat_of_nat del: of_nat_add)
  then show ?thesis using assms by (simp add: word_le_nat_alt del: of_nat_add)
qed

lemma decimal_correct: "is_decimal (decimal n) \<and> decimal_value (decimal n) = n"
proof (induction n rule: decimal.induct)
  case (1 n)
  show ?case
  proof (cases "n < 10")
    case True
    then show ?thesis
      using decimal_digit [of n] by (subst (1 2) decimal.simps) (simp add: is_decimal_def decimal_value_def del: of_nat_add)
  next
    case False
    then show ?thesis
      using 1 decimal_digit [of "n mod 10"]
      by (subst (1 2) decimal.simps) (simp add: is_decimal_def decimal_value_def del: of_nat_add)
  qed
qed

lemma decimal_not_signed: "first_char (decimal n) \<noteq> 45 \<and> first_char (decimal n) \<noteq> 43 \<and> decimal n \<noteq> []"
  using decimal_first [of "decimal n" "[]"] decimal_correct [of n] by (auto simp: is_decimal_def)

lemma xatou_decimal:
  fixes lower upper :: "'a::len word"
  assumes "LENGTH('a) = 32 \<or> LENGTH('a) = 64" "n < 2 ^ LENGTH('a)" "unat lower \<le> n" "n \<le> unat upper"
  shows "xstrtou_range_sfx (decimal n) 10 lower upper None = Inr (of_nat n)"
proof -
  have "multiplier None [] = Some 1" by (simp add: multiplier_def)
  from xatou_run [OF assms(1) conjunct1 [OF decimal_correct [of n]] disjI1 [OF refl] this, of lower upper] decimal_correct [of n] assms(2-4)
  show ?thesis by (simp add: xatou_range_sfx_def Let_def)
qed

lemma type_limits:
  "unat (TYPE_MAX :: 'a::len word) = 2 ^ (LENGTH('a) - 1) - 1" "sint (TYPE_MAX :: 'a word) = 2 ^ (LENGTH('a) - 1) - 1"
  "sint (TYPE_MIN :: 'a word) = - (2 ^ (LENGTH('a) - 1))"
proof -
  let ?n = "LENGTH('a) - 1"
  have len: "LENGTH('a) = Suc ?n" by simp
  have max: "(TYPE_MAX :: 'a word) = of_nat (2 ^ ?n - 1)" by (simp add: TYPE_MAX_def mask_eq_exp_minus_1 of_nat_diff)
  have "(2 :: nat) ^ ?n - 1 < 2 ^ LENGTH('a)" by (subst len, rule less_le_trans [of _ "2 ^ ?n"]) simp_all
  then show "unat (TYPE_MAX :: 'a word) = 2 ^ ?n - 1" unfolding max by (simp add: unat_of_nat del: of_nat_diff)
  have signed: "sint (of_int i :: 'a word) = i" if "- (2 ^ ?n) \<le> i" "i < 2 ^ ?n" for i
    using that by (simp add: signed_of_int signed_take_bit_int_eq_self)
  show "sint (TYPE_MAX :: 'a word) = 2 ^ ?n - 1"
    using signed [of "2 ^ ?n - 1"] by (simp add: TYPE_MAX_def mask_eq_exp_minus_1)
  have "(2 :: 'a word) ^ ?n + 2 ^ ?n = 2 ^ Suc ?n" by (simp only: power_Suc mult_2)
  also have "\<dots> = 2 ^ LENGTH('a)" by (simp only: len [symmetric])
  also have "\<dots> = 0" by simp
  finally have "(2 :: 'a word) ^ ?n = - (2 ^ ?n)" by (simp only: eq_neg_iff_add_eq_0)
  moreover have "(TYPE_MIN :: 'a word) = 2 ^ ?n" by (simp add: TYPE_MIN_def push_bit_eq_mult)
  ultimately have "(TYPE_MIN :: 'a word) = - (2 ^ ?n)" by (rule trans [rotated])
  then show "sint (TYPE_MIN :: 'a word) = - (2 ^ ?n)" using signed [of "- (2 ^ ?n)"] by simp
qed

text \<open>
  C24. The signed conversion reads back every number but the least one of the type.
\<close>

theorem xato_roundtrip:
  assumes "LENGTH('a::len) = 32 \<or> LENGTH('a) = 64" and "\<bar>i\<bar> < 2 ^ (LENGTH('a) - 1)"
  shows "xato (decimal_int i) = (Inr (of_int i) :: num_error + 'a word)"
proof -
  let ?n = "nat \<bar>i\<bar>" and ?max = "(2 :: nat) ^ (LENGTH('a) - 1) - 1"
  have n: "?n \<le> ?max" "?n < 2 ^ LENGTH('a)"
  proof -
    have "int ?n < int (2 ^ (LENGTH('a) - 1))" using assms(2) by simp
    then show "?n \<le> ?max" by linarith
    have "(2 :: nat) ^ (LENGTH('a) - 1) \<le> 2 ^ LENGTH('a)" by (intro power_increasing) auto
    then show "?n < 2 ^ LENGTH('a)" using \<open>int ?n < int (2 ^ (LENGTH('a) - 1))\<close> by linarith
  qed
  have conv: "xstrtou_range_sfx (decimal ?n) 10 0 (TYPE_MAX :: 'a word) None = Inr (of_nat ?n)"
    using n by (intro xatou_decimal [OF assms(1)]) (simp_all add: type_limits)
  have "sint (of_int i :: 'a word) = i"
    using assms(2) by (simp add: signed_of_int signed_take_bit_int_eq_self)
  then have range: "\<not> sint (of_int i :: 'a word) < sint (TYPE_MIN :: 'a word)" "\<not> sint (of_int i :: 'a word) > sint (TYPE_MAX :: 'a word)"
    using assms(2) by (simp_all add: type_limits)
  show ?thesis
  proof (cases "i < 0")
    case True
    then have "(- of_nat ?n :: 'a word) = of_int i" by (metis abs_of_neg int_nat_eq minus_minus neg_0_le_iff_le of_int_minus of_int_of_nat_eq order_less_imp_le)
    then show ?thesis
      using True conv range decimal_not_signed [of ?n] by (simp add: xato_def xstrto_range_sfx_def decimal_int_def Let_def)
  next
    case False
    then have "(of_nat ?n :: 'a word) = of_int i" by (metis abs_of_nonneg int_nat_eq linorder_not_less of_int_of_nat_eq)
    then show ?thesis
      using False conv range decimal_not_signed [of ?n] by (simp add: xato_def xstrto_range_sfx_def decimal_int_def Let_def)
  qed
qed

theorem xato_roundtrip_witness: "xato (decimal_int (- 2147483647)) = (Inr (- 2147483647) :: num_error + u32)"
  using xato_roundtrip [of "- 2147483647", where 'a = 32] by simp

lemma least_refused:
  fixes w :: "'a::len word"
  assumes "LENGTH('a) = 32 \<or> LENGTH('a) = 64"
  defines "n \<equiv> (2 :: nat) ^ (LENGTH('a) - 1)"
  shows "xato (45 # decimal n) = (Inl (Not_in_range (decimal n) 0 (int n - 1)) :: num_error + 'a word)"
proof -
  have "0 < n" by (simp add: n_def)
  have max: "unat (TYPE_MAX :: 'a word) = n - 1" by (simp add: n_def type_limits)
  then have umax: "uint (TYPE_MAX :: 'a word) = int n - 1"
    using \<open>0 < n\<close> by (metis Suc_leI of_nat_1 of_nat_diff One_nat_def uint_nat)
  have "n < 2 ^ LENGTH('a)" unfolding n_def by (rule power_strict_increasing) simp_all
  moreover have "multiplier None [] = Some 1" by (simp add: multiplier_def)
  ultimately have "xstrtou_range_sfx (decimal n) 10 0 (TYPE_MAX :: 'a word) None = Inl (Not_in_range (decimal n) 0 (int n - 1))"
    using xatou_run [OF assms(1) conjunct1 [OF decimal_correct [of n]] disjI1 [OF refl], of None 1 0 TYPE_MAX]
      decimal_correct [of n] \<open>0 < n\<close> max umax by (simp add: xatou_range_sfx_def Let_def)
  then show ?thesis
    using decimal_not_signed [of n] by (simp add: xato_def xstrto_range_sfx_def Let_def)
qed

text \<open>
  C25. For \<^verbatim>\<open>int\<close> and \<^verbatim>\<open>long long\<close> alike, the least number of the type is refused, though it is the
  lower bound of the range asked for and the limit of the magnitude is meant to be raised after a
  minus sign: the test reads the character behind the sign. The message names the number without
  its sign and the range 0 to the greatest number.
\<close>

theorem xato_least_refused:
  assumes "LENGTH('a::len) = 32 \<or> LENGTH('a) = 64"
  shows "sint (TYPE_MIN :: 'a word) = - (2 ^ (LENGTH('a) - 1))
    \<and> xato (decimal_int (sint (TYPE_MIN :: 'a word))) =
      (Inl (Not_in_range (decimal (2 ^ (LENGTH('a) - 1))) 0 (sint (TYPE_MAX :: 'a word))) :: num_error + 'a word)"
  using least_refused [OF assms] by (simp add: type_limits decimal_int_def nat_power_eq)

theorem xato_least_refused_witness:
  "xato (decimal_int (- 2147483648)) = (Inl (Not_in_range (decimal 2147483648) 0 2147483647) :: num_error + u32)
   \<and> xato (decimal_int (- 9223372036854775808)) =
     (Inl (Not_in_range (decimal 9223372036854775808) 0 9223372036854775807) :: num_error + u64)"
  using xato_least_refused [where 'a = 32] xato_least_refused [where 'a = 64] by (simp add: type_limits)

end
