(* ===== verification/Uu_Stream.thy ===== *)
theory Uu_Stream
  imports Uu_Decode Numbers "HOL-Library.Monad_Syntax"
begin

text \<open>
  The applets over the codec: \<^verbatim>\<open>read_base64\<close> of \<^verbatim>\<open>libbb/uuencode.c\<close>, the applets \<^verbatim>\<open>base64\<close>,
  \<^verbatim>\<open>base32\<close> and \<^verbatim>\<open>uudecode\<close> of \<^verbatim>\<open>coreutils/uudecode.c\<close>, and \<^verbatim>\<open>coreutils/uuencode.c\<close>, with the line
  reader of \<^verbatim>\<open>libbb/fgets_str.c\<close>. An input is the bytes of the stream; dying with a message is a
  value, with what was written before.
\<close>

section \<open>read_base64\<close>

definition BASE64_FLAG_UU_STOP :: u32 where "BASE64_FLAG_UU_STOP = 0x100"
definition BASE64_32 :: u32 where "BASE64_32 = 0x200"
definition BASE64_FLAG_NO_STOP_CHAR :: u32 where "BASE64_FLAG_NO_STOP_CHAR = 0x80"

definition exit_char :: "u32 \<Rightarrow> int" where
  "exit_char flags = sint (ucast flags :: u8)"

definition EOF :: int where "EOF = -1"

definition BUFFER_SIZE :: nat where "BUFFER_SIZE = 80"

text \<open>
  The loop that fills the buffer, with the buffer and the stream it leaves: it returns from
  \<^verbatim>\<open>read_base64\<close>, sees the end, or stops at the end of a line or of the buffer.
\<close>

datatype fill = Return | Term_seen | Go_on

fun fill_buffer :: "int \<Rightarrow> bytes \<Rightarrow> bytes \<Rightarrow> fill \<times> bytes \<times> bytes" where
  "fill_buffer ec buf [] =
     (if length buf < BUFFER_SIZE then
        (if EOF = ec then (if buf = [] then Return else Term_seen, buf, [])
         else (Term_seen, buf, []))
      else (Go_on, buf, []))"
| "fill_buffer ec buf (ch # src) =
     (if length buf < BUFFER_SIZE then
        (if int (unat ch) = ec then (if buf = [] then Return else Term_seen, buf, src)
         else if ch \<le> 32 then (Go_on, buf, src)
         else fill_buffer ec (buf @ [ch]) src)
      else (Go_on, buf, ch # src))"

text \<open>The result of a decoder: what it wrote, and the message it died with.\<close>

type_synonym written = "bytes \<times> string option"

lemma loop64_rest:
  assumes "decode_base64_loop ch i dst src = (d, r, j)" "i < 4"
  shows "r = [] \<and> j < 4 \<or> j = 0 \<and> length r < length src"
  using assms
proof (induction ch i dst src rule: decode_base64_loop.induct)
  case (2 ch i dst c src)
  have "(i + 1) AND 3 < 4" using place64 [of i] by simp
  then show ?case
    using 2 by (auto simp: decode_base64_loop.simps Let_def split: option.splits if_splits)
qed simp

lemma loop32_rest:
  assumes "decode_base32_loop ch i dst prev src = (d, r, j)" "i < 8"
  shows "r = [] \<and> j < 8 \<or> j = 0 \<and> length r < length src"
  using assms
proof (induction ch i dst prev src rule: decode_base32_loop.induct)
  case (2 ch i dst prev c src)
  have "(i + 1) AND 7 < 8" using place32 [of i] by simp
  then show ?case
    using 2 by (auto simp: decode_base32_loop.simps Let_def split: option.splits if_splits)
qed simp

lemma decode_tail_less:
  assumes "8 \<le> length text"
  shows "length (snd (decode_base64 text)) < length text" "length (snd (decode_base32 text)) < length text"
proof -
  obtain d r j where 64: "decode_base64_loop 0 0 [] text = (d, r, j)" by (metis prod_cases3)
  show "length (snd (decode_base64 text)) < length text"
    using loop64_rest [OF 64] 64 assms by (auto simp: decode_base64_def)
  obtain d r j where 32: "decode_base32_loop 0 0 [] [] text = (d, r, j)" by (metis prod_cases3)
  show "length (snd (decode_base32 text)) < length text"
    using loop32_rest [OF 32] 32 assms by (auto simp: decode_base32_def)
qed

lemma decode_tail_le: "length (snd (decode_base64 text)) \<le> length text" "length (snd (decode_base32 text)) \<le> length text"
  by (simp_all add: decode_base64_def decode_base32_def split: prod.split)

lemma fill_buffer_shrinks:
  assumes "fill_buffer ec buf src = (Go_on, buf', src')"
  shows "length buf' + length src' < length buf + length src \<or> BUFFER_SIZE \<le> length buf' \<and> length buf' + length src' = length buf + length src"
  using assms by (induction ec buf src rule: fill_buffer.induct) (auto split: if_splits)

definition decode_text :: "u32 \<Rightarrow> bytes \<Rightarrow> bytes \<times> bytes" where
  "decode_text flags buf = (if flags AND BASE64_32 \<noteq> 0 then decode_base32 buf else decode_base64 buf)"

lemma decode_text_shrinks:
  "length (snd (decode_text flags buf)) \<le> length buf"
  "BUFFER_SIZE \<le> length buf \<Longrightarrow> length (snd (decode_text flags buf)) < length buf"
  using decode_tail_le decode_tail_less by (auto simp: decode_text_def BUFFER_SIZE_def)

text \<open>The outer loop: \<open>buf\<close> holds the characters of an incomplete group.\<close>

function read_base64_loop :: "u32 \<Rightarrow> bytes \<Rightarrow> bytes \<Rightarrow> bytes \<Rightarrow> written" where
  "read_base64_loop flags dst buf src =
     (case fill_buffer (exit_char flags) buf src of
        (Return, buf, src) \<Rightarrow> (dst, None)
      | (Term_seen, buf, src) \<Rightarrow>
          (if flags AND BASE64_FLAG_UU_STOP \<noteq> 0 \<and> buf = ascii ''===='' then (dst, None)
           else (let (out, in_tail) = decode_text flags buf
                 in (dst @ out, if in_tail = [] then None else Some ''truncated input'')))
      | (Go_on, buf, src) \<Rightarrow>
          (if flags AND BASE64_FLAG_UU_STOP \<noteq> 0 \<and> buf = ascii ''===='' then (dst, None)
           else (let (out, in_tail) = decode_text flags buf
                 in read_base64_loop flags (dst @ out) in_tail src)))"
  by pat_completeness auto
termination
proof (relation "measure (\<lambda>(flags, dst, buf, src). length buf + length src)")
  fix flags dst buf src f y buf' src' z out in_tail
  assume *: "(f, y) = fill_buffer (exit_char flags) buf src" "f = Go_on" "(buf', src') = y"
    "z = decode_text flags buf'" "(out, in_tail) = z"
  have "length in_tail \<le> length buf'" "BUFFER_SIZE \<le> length buf' \<Longrightarrow> length in_tail < length buf'"
    using decode_text_shrinks [where flags = flags and buf = buf'] *(4,5) by (metis snd_conv)+
  moreover have "fill_buffer (exit_char flags) buf src = (Go_on, buf', src')" using * by simp
  ultimately show "((flags, dst @ out, in_tail, src'), flags, dst, buf, src) \<in> measure (\<lambda>(flags, dst, buf, src). length buf + length src)"
    using fill_buffer_shrinks [of "exit_char flags" buf src buf' src'] by auto
qed simp

declare read_base64_loop.simps [simp del]

definition read_base64 :: "bytes \<Rightarrow> u32 \<Rightarrow> written" where
  "read_base64 src_stream flags = read_base64_loop flags [] [] src_stream"

section \<open>base64 and base32\<close>

text \<open>
  \<^verbatim>\<open>full_read\<close>: an input gives its bytes and then the end or an error; an error after some bytes is
  seen by the next call.
\<close>

definition full_read :: "bytes \<times> bool \<Rightarrow> nat \<Rightarrow> bytes option" where
  "full_read input len = (if fst input = [] \<and> snd input then None else Some (take len (fst input)))"

definition SRC_BUF_SIZE :: nat where "SRC_BUF_SIZE = 3 * 5 * 32"
definition DST_BUF_SIZE :: nat where "DST_BUF_SIZE = 8 * ((SRC_BUF_SIZE + 4) div 5)"

text \<open>The size of \<^verbatim>\<open>dst_buf\<close>, and \<^verbatim>\<open>src_buf\<close> at its end.\<close>

definition dst_buf_size :: nat where "dst_buf_size = ((DST_BUF_SIZE + 16) OR 0xf) + 1"
definition src_buf :: nat where "src_buf = dst_buf_size - SRC_BUF_SIZE"

text \<open>The encoding of one block in the common buffer: its characters, read back as a C string.\<close>

definition encode_block :: "bool \<Rightarrow> bytes \<Rightarrow> bytes \<Rightarrow> bytes" where
  "encode_block base32 dst_buf block =
     (let dst_buf = write_at src_buf block dst_buf
      in if base32 then bb_b32encode dst_buf 0 src_buf (length block)
         else bb_uuencode dst_buf 0 src_buf (length block) bb_uuenc_tbl_base64)"

definition encoded_size :: "bool \<Rightarrow> nat \<Rightarrow> nat" where
  "encoded_size base32 sz = (if base32 then 8 * ((sz + 4) div 5) else 4 * ((sz + 2) div 3))"

text \<open>The loop that breaks the text into lines: \<open>rem\<close> characters are left on the line.\<close>

function put_lines :: "nat \<Rightarrow> nat \<Rightarrow> bytes \<Rightarrow> nat \<Rightarrow> bytes \<times> nat" where
  "put_lines col rem result sz =
     (let n = (if sz < rem then sz else rem);
          rem = rem - n
      in if rem \<noteq> 0 then (take n result, rem)
         else (let text = take n result @ [10]; sz = sz - n
               in if sz = 0 \<or> col = 0 then (text, rem)
                  else (let (more, rem) = put_lines col col (drop n result) sz in (text @ more, rem))))"
  by pat_completeness auto
termination
  by (relation "measure (\<lambda>(col, rem, result, sz). sz + (if rem = 0 then 1 else 0))") (auto split: if_splits)

declare put_lines.simps [simp del]

text \<open>
  The reading loop of the encoder. \<open>mem\<close> is the common buffer; the result is what was written and
  the message of a failed read.
\<close>

definition block_out :: "nat \<Rightarrow> nat \<Rightarrow> bytes \<Rightarrow> nat \<Rightarrow> bytes \<times> nat" where
  "block_out col rem mem sz =
     (if col = 0 then (takeWhile (\<lambda>c. c \<noteq> 0) mem, rem)
      else put_lines col (if rem = 0 then col else rem) mem sz)"

function baseNUM_encode :: "bool \<Rightarrow> nat \<Rightarrow> nat \<Rightarrow> bytes \<Rightarrow> bytes \<times> bool \<Rightarrow> written" where
  "baseNUM_encode base32 col rem mem input =
     (case full_read input SRC_BUF_SIZE of
        None \<Rightarrow> ([], Some ''read error'')
      | Some block \<Rightarrow>
          (if length block = 0 then (if rem \<noteq> 0 then [10] else [], None)
           else
             (let mem = encode_block base32 mem block;
                  (text, rem) = block_out col rem mem (encoded_size base32 (length block));
                  (more, msg) = baseNUM_encode base32 col rem mem (drop SRC_BUF_SIZE (fst input), snd input)
              in (text @ more, msg))))"
  by pat_completeness auto
termination
  by (relation "measure (\<lambda>(base32, col, rem, mem, input). length (fst input))")
    (auto simp: full_read_def SRC_BUF_SIZE_def split: if_splits)

declare baseNUM_encode.simps [simp del]

definition EOF_byte :: u32 where "EOF_byte = 0xff"

text \<open>\<^verbatim>\<open>baseNUM_main\<close> with its options: \<open>decode\<close> for \<^verbatim>\<open>-d\<close>, \<open>col\<close> for \<^verbatim>\<open>-w\<close>.\<close>

definition baseNUM_main :: "bool \<Rightarrow> bool \<Rightarrow> nat \<Rightarrow> bytes \<Rightarrow> bytes \<times> bool \<Rightarrow> written" where
  "baseNUM_main base32 decode col mem input =
     (if decode then read_base64 (fst input) (if base32 then EOF_byte OR BASE64_32 else EOF_byte)
      else baseNUM_encode base32 col 0 mem input)"

section \<open>Reading lines\<close>

text \<open>\<^verbatim>\<open>xmalloc_fgets_internal\<close>: \<open>sz\<close> is \<^verbatim>\<open>linebufsz\<close>.\<close>

fun fgets_internal :: "bytes \<Rightarrow> bool \<Rightarrow> nat \<Rightarrow> nat \<Rightarrow> bytes \<Rightarrow> bytes \<Rightarrow> bytes option \<times> bytes" where
  "fgets_internal term chop_off maxsz sz line [] = (if line = [] then None else Some line, [])"
| "fgets_internal term chop_off maxsz sz line (ch # src) =
     (let line' = line @ [ch] in
      if length line \<ge> sz \<and> length line \<ge> maxsz then (Some line', src)
      else if length line' \<ge> length term \<and> drop (length line' - length term) line' = term
      then (Some (if chop_off then take (length line' - length term) line' else line'), src)
      else fgets_internal term chop_off maxsz (if length line \<ge> sz then sz + 200 else sz) line' src)"

definition xmalloc_fgets_str_len :: "bytes \<Rightarrow> bytes \<Rightarrow> nat \<Rightarrow> bytes option \<times> bytes" where
  "xmalloc_fgets_str_len src term maxsz = fgets_internal term False maxsz 0 [] src"

text \<open>\<^verbatim>\<open>bb_get_chunk_from_file\<close> with \<open>end\<close>, and \<^verbatim>\<open>xmalloc_fgetline\<close>: the line as a C string.\<close>

fun get_chunk :: "bytes \<Rightarrow> bytes \<Rightarrow> bytes option \<times> bytes" where
  "get_chunk line [] = (if line = [] then None else Some line, [])"
| "get_chunk line (ch # src) = (if ch = 0 \<or> ch = 10 then (Some (line @ [ch]), src) else get_chunk (line @ [ch]) src)"

definition c_string :: "bytes \<Rightarrow> bytes" where
  "c_string = takeWhile (\<lambda>c. c \<noteq> 0)"

definition xmalloc_fgetline :: "bytes \<Rightarrow> bytes option \<times> bytes" where
  "xmalloc_fgetline src =
     (case get_chunk [] src of
        (None, src) \<Rightarrow> (None, src)
      | (Some line, src) \<Rightarrow> (Some (c_string (if last line = 10 then butlast line else line)), src))"

section \<open>uudecode\<close>

text \<open>
  The \<^verbatim>\<open>do\<close> loop of \<^verbatim>\<open>read_stduu\<close> on the buffer of the line: \<open>dst\<close> and \<open>p\<close> (\<^verbatim>\<open>line_ptr\<close>) are
  positions in it.
\<close>

function stduu_loop :: "bytes \<Rightarrow> nat \<Rightarrow> nat \<Rightarrow> int \<Rightarrow> bytes \<times> nat" where
  "stduu_loop line dst p encoded_len =
     (let line = line[dst := push_bit 2 (line ! p) OR drop_bit 4 (line ! (p + 1))];
          dst = dst + 1;
          encoded_len = encoded_len - 1
      in if encoded_len = 0 then (line, dst)
         else
           (let line = line[dst := push_bit 4 (line ! (p + 1)) OR drop_bit 2 (line ! (p + 2))];
                dst = dst + 1;
                encoded_len = encoded_len - 1
            in if encoded_len = 0 then (line, dst)
               else
                 (let line = line[dst := push_bit 6 (line ! (p + 2)) OR line ! (p + 3)];
                      dst = dst + 1;
                      p = p + 4;
                      encoded_len = encoded_len - 2
                  in if encoded_len > 0 then stduu_loop line dst p encoded_len else (line, dst))))"
  by pat_completeness auto
termination by (relation "measure (\<lambda>(_, _, _, encoded_len). nat encoded_len)") auto

declare stduu_loop.simps [simp del]

fun strip_crlf :: "bytes \<Rightarrow> bytes" where
  "strip_crlf line = rev (dropWhile (\<lambda>c. c = 10 \<or> c = 13) (rev line))"

text \<open>One line: what it decodes to, or the ways to leave the loop.\<close>

datatype uu_line = Uu_end | Uu_short | Uu_long | Uu_data bytes

definition stduu_line :: "bytes \<Rightarrow> uu_line" where
  "stduu_line line =
     (let line = c_string (strip_crlf line) in
      if line = ascii ''end'' then Uu_end
      else
        (let line = map (\<lambda>c. (c - 0x20) AND 0x3f) line;
             str_len = length line;
             buf = line @ [0];
             encoded_len = unat (buf ! 0) * 4 div 3
         in if str_len \<le> encoded_len then Uu_short
            else if encoded_len \<le> 0 then Uu_data []
            else if encoded_len > 60 then Uu_long
            else (let (buf, dst) = stduu_loop buf 0 1 (int encoded_len) in Uu_data (take dst buf))))"

lemma fgets_shrinks: "fgets_internal term chop_off maxsz sz line src = (Some l, rest) \<Longrightarrow> src \<noteq> [] \<Longrightarrow> length rest < length src"
  by (induction "term" chop_off maxsz sz line src rule: fgets_internal.induct)
    (auto simp: Let_def split: if_splits, (metis fgets_internal.simps(1) length_greater_0_conv less_Suc_eq list.size(3) prod.inject)+)

function read_stduu :: "bytes \<Rightarrow> bytes \<Rightarrow> written" where
  "read_stduu dst src =
     (case xmalloc_fgets_str_len src [10] (64 * 1024) of
        (None, src) \<Rightarrow> (dst, Some ''short file'')
      | (Some line, src) \<Rightarrow>
          (case stduu_line line of
             Uu_end \<Rightarrow> (dst, None)
           | Uu_short \<Rightarrow> (dst, Some ''short file'')
           | Uu_long \<Rightarrow> (dst, Some ''line too long'')
           | Uu_data out \<Rightarrow> read_stduu (dst @ out) src))"
  by pat_completeness auto
termination
proof (relation "measure (\<lambda>(dst, src). length src)")
  fix dst src x y a b out
  assume *: "(x, y) = xmalloc_fgets_str_len src [10] (64 * 1024)" "x = Some a" "stduu_line a = Uu_data out"
  then have "src \<noteq> []" by (auto simp: xmalloc_fgets_str_len_def)
  with * show "((dst @ out, y), dst, src) \<in> measure (\<lambda>(dst, src). length src)"
    using fgets_shrinks [of "[10]" False "64 * 1024" 0 "[]" src a y] by (simp add: xmalloc_fgets_str_len_def)
qed simp

declare read_stduu.simps [simp del]

text \<open>\<^verbatim>\<open>is_prefixed_with\<close> and \<^verbatim>\<open>trim\<close> of libbb.\<close>

fun is_prefixed_with :: "bytes \<Rightarrow> bytes \<Rightarrow> bytes option" where
  "is_prefixed_with str [] = Some str"
| "is_prefixed_with [] (k # key) = None"
| "is_prefixed_with (c # str) (k # key) = (if k \<noteq> c then None else is_prefixed_with str key)"

definition trim :: "bytes \<Rightarrow> bytes" where
  "trim s = dropWhile bb_isspace (rev (dropWhile bb_isspace (rev s)))"

fun strchr :: "bytes \<Rightarrow> u8 \<Rightarrow> bytes option" where
  "strchr [] c = None"
| "strchr (d # s) c = (if d = c then Some (d # s) else strchr s c)"

text \<open>
  The work on a \<^verbatim>\<open>begin\<close> line, \<open>line_ptr\<close> being what follows the prefix: the name and the mode
  bits of the file, and what is written to it. \<open>None\<close> when there is no name.
\<close>

definition decode_to :: "bool \<Rightarrow> bytes option \<Rightarrow> bytes \<Rightarrow> bytes \<Rightarrow> (bytes \<times> u32 \<times> written) option" where
  "decode_to base64 outname line_ptr src =
     (let mode = fst (fst (bb_strtou line_ptr 8)) in
      do {
        outname \<leftarrow> (case outname of
            Some name \<Rightarrow> Some name
          | None \<Rightarrow> do {
              sp \<leftarrow> strchr line_ptr 32;
              (let name = trim (tl sp) in if name = [] then None else Some name)
            });
        Some (outname, mode AND 0x1FF,
          if base64 then read_base64 src (BASE64_FLAG_UU_STOP OR BASE64_FLAG_NO_STOP_CHAR) else read_stduu [] src)
      })"

lemma get_chunk_shrinks: "get_chunk line src = (Some l, rest) \<Longrightarrow> src \<noteq> [] \<Longrightarrow> length rest < length src"
proof (induction line src rule: get_chunk.induct)
  case (2 line ch src)
  then show ?case by (cases src) (auto split: if_splits)
qed simp

lemma fgetline_shrinks: "xmalloc_fgetline src = (Some l, rest) \<Longrightarrow> length rest < length src"
  using get_chunk_shrinks [of "[]" src] by (cases "src = []") (auto simp: xmalloc_fgetline_def split: prod.splits option.splits)

lemma fgetline_here:
  assumes "\<forall>x \<in> set line. x \<noteq> 0 \<and> x \<noteq> 10"
  shows "xmalloc_fgetline (line @ 10 # rest) = (Some line, rest)"
proof -
  have "get_chunk acc (line @ 10 # rest) = (Some (acc @ line @ [10]), rest)" for acc
    using assms by (induction line arbitrary: acc) auto
  moreover have "c_string line = line" using assms by (simp add: c_string_def takeWhile_eq_all_conv)
  ultimately show ?thesis by (simp add: xmalloc_fgetline_def butlast_append)
qed

text \<open>\<^verbatim>\<open>uudecode_main\<close>: the search for the \<^verbatim>\<open>begin\<close> line.\<close>

function uudecode_main :: "bytes option \<Rightarrow> bytes \<Rightarrow> string + bytes \<times> u32 \<times> written" where
  "uudecode_main outname src =
     (case xmalloc_fgetline src of
        (None, src) \<Rightarrow> Inl ''no begin line''
      | (Some line, src) \<Rightarrow>
          (case is_prefixed_with line (ascii ''begin-base64 '') of
             Some line_ptr \<Rightarrow>
               (case decode_to True outname line_ptr src of None \<Rightarrow> Inl ''no begin line'' | Some r \<Rightarrow> Inr r)
           | None \<Rightarrow>
               (case is_prefixed_with line (ascii ''begin '') of
                  Some line_ptr \<Rightarrow>
                    (case decode_to False outname line_ptr src of None \<Rightarrow> Inl ''no begin line'' | Some r \<Rightarrow> Inr r)
                | None \<Rightarrow> uudecode_main outname src)))"
  by pat_completeness auto
termination
  by (relation "measure (\<lambda>(outname, src). length src)") (auto dest: fgetline_shrinks [OF sym])

declare uudecode_main.simps [simp del]

section \<open>uuencode\<close>

definition uu_SRC_BUF_SIZE :: nat where "uu_SRC_BUF_SIZE = 15 * 3"
definition uu_DST_BUF_SIZE :: nat where "uu_DST_BUF_SIZE = 4 * ((uu_SRC_BUF_SIZE + 2) div 3)"

text \<open>The loop over the input; \<open>mem\<close> holds \<^verbatim>\<open>dst_buf\<close> and behind it \<^verbatim>\<open>src_buf\<close>.\<close>

function uuencode_loop :: "bytes \<Rightarrow> bool \<Rightarrow> bytes \<Rightarrow> bytes \<times> bool \<Rightarrow> written" where
  "uuencode_loop tbl std mem input =
     (case full_read input uu_SRC_BUF_SIZE of
        None \<Rightarrow> ([], Some ''read error'')
      | Some block \<Rightarrow>
          (if length block = 0 then ([], None)
           else
             (let mem = write_at (uu_DST_BUF_SIZE + 1) block mem;
                  mem = bb_uuencode mem 0 (uu_DST_BUF_SIZE + 1) (length block) tbl;
                  text = [10] @ (if std then [tbl ! length block] else []) @ take (4 * ((length block + 2) div 3)) mem;
                  (more, msg) = uuencode_loop tbl std mem (drop uu_SRC_BUF_SIZE (fst input), snd input)
              in (text @ more, msg))))"
  by pat_completeness auto
termination
  by (relation "measure (\<lambda>(tbl, std, mem, input). length (fst input))")
    (auto simp: full_read_def uu_SRC_BUF_SIZE_def split: if_splits)

declare uuencode_loop.simps [simp del]

fun octal :: "nat \<Rightarrow> bytes" where
  "octal n = (if n < 8 then [of_nat (48 + n)] else octal (n div 8) @ [of_nat (48 + n mod 8)])"

declare octal.simps [simp del]

text \<open>\<^verbatim>\<open>uuencode_main\<close> with \<open>m\<close> for its option, the permission bits and the name for the first line.\<close>

definition uuencode_main :: "bool \<Rightarrow> nat \<Rightarrow> bytes \<Rightarrow> bytes \<Rightarrow> bytes \<times> bool \<Rightarrow> written" where
  "uuencode_main m mode name mem input =
     (let tbl = (if m then bb_uuenc_tbl_base64 else bb_uuenc_tbl_std);
          header = ascii ''begin'' @ (if m then ascii ''-base64'' else []) @ [32] @ octal mode @ [32] @ name;
          (text, msg) = uuencode_loop tbl (\<not> m) mem input
      in case msg of
           Some e \<Rightarrow> (header @ text, Some e)
         | None \<Rightarrow> (header @ text @ (if m then [10] @ ascii ''===='' @ [10] else [10, 0x60, 10] @ ascii ''end'' @ [10]), None))"

end
