(* ===== verification/Factor_Main.thy ===== *)
theory Factor_Main
  imports Factor_Correct Uu_Stream
begin

text \<open>
  The applet \<^verbatim>\<open>factor\<close>: its numbers from the arguments or from the words of standard input, and
  the lines it prints.
\<close>

section \<open>The applet\<close>

definition skip_whitespace_b :: "bytes \<Rightarrow> bytes" where
  "skip_whitespace_b = dropWhile (\<lambda>c. c = 32 \<or> c - 9 \<le> 13 - 9)"

definition skip_non_whitespace :: "bytes \<Rightarrow> bytes" where
  "skip_non_whitespace = dropWhile (\<lambda>c. c \<noteq> 0 \<and> c \<noteq> 32 \<and> c - 9 > 13 - 9)"

text \<open>
  What is printed, and whether \<^verbatim>\<open>bb_show_usage\<close> ended the program after it. A number whose
  factorization does not return gives \<open>None\<close>.
\<close>

type_synonym printed = "(bytes \<times> bool) option"

definition factorize_numstr :: "bytes \<Rightarrow> printed" where
  "factorize_numstr numstr =
     (let numstr = (if first_char numstr = 43 then tl numstr else numstr);
          ((N, errno), endp) = bb_strtoull numstr 10
      in if errno \<noteq> E_OK then Some ([], True)
         else do {
           out \<leftarrow> factorize (unat N);
           Some (decimal (unat N) @ [58] @ concat (map (\<lambda>n. 32 # decimal n) out) @ [10], False)
         })"

text \<open>Going on after what was printed, unless the program has ended.\<close>

definition and_then :: "printed \<Rightarrow> printed \<Rightarrow> printed" where
  "and_then r s =
     do {
       (out, usage) \<leftarrow> r;
       if usage then Some (out, True) else do { (out', usage') \<leftarrow> s; Some (out @ out', usage') }
     }"

lemma skip_shrinks: "length (skip_whitespace_b s) \<le> length s" "length (skip_non_whitespace s) \<le> length s"
  by (simp_all add: skip_whitespace_b_def skip_non_whitespace_def length_dropWhile_le)

function factor_words :: "bytes \<Rightarrow> printed" where
  "factor_words numstr =
     (let numstr = skip_whitespace_b numstr
      in if numstr = [] then Some ([], False)
         else
           (let end = skip_non_whitespace numstr
            in and_then (factorize_numstr (take (length numstr - length end) numstr)) (factor_words (tl end))))"
  by pat_completeness auto
termination
proof (relation "measure length")
  fix numstr x y :: bytes
  assume *: "x = skip_whitespace_b numstr" "x \<noteq> []" "y = skip_non_whitespace x"
  have "length (tl y) < length x" using skip_shrinks(2) [of x] *(2,3) by (cases x; cases y) auto
  with skip_shrinks(1) [of numstr] * show "(tl y, numstr) \<in> measure length" by simp
qed simp

declare factor_words.simps [simp del]

function factor_stdin :: "bytes \<Rightarrow> printed" where
  "factor_stdin src =
     (case xmalloc_fgetline src of
        (None, _) \<Rightarrow> Some ([], False)
      | (Some line, src) \<Rightarrow> and_then (factor_words line) (factor_stdin src))"
  by pat_completeness auto
termination by (relation "measure length") (auto dest: fgetline_shrinks [OF sym])

declare factor_stdin.simps [simp del]

fun factor_args :: "bytes list \<Rightarrow> printed" where
  "factor_args [] = Some ([], False)"
| "factor_args (arg # argv) = and_then (factorize_numstr (skip_whitespace_b arg)) (factor_args argv)"

definition factor_main :: "bytes list \<Rightarrow> bytes \<Rightarrow> printed" where
  "factor_main argv src = (if argv = [] then factor_stdin src else factor_args argv)"

section \<open>What it prints\<close>

text \<open>The line of a number, its factors being prime, in order, and with the number as their product.\<close>

definition factor_line :: "nat \<Rightarrow> bytes \<Rightarrow> bool" where
  "factor_line n out \<longleftrightarrow>
     (\<exists>fs. sorted fs \<and> (\<forall>p \<in> set fs. is_prime p) \<and> prod_list fs = n
       \<and> out = decimal n @ [58] @ concat (map (\<lambda>p. 32 # decimal p) fs) @ [10])"

definition factor_lines :: "nat list \<Rightarrow> bytes \<Rightarrow> bool" where
  "factor_lines ns out \<longleftrightarrow> (\<exists>outs. list_all2 factor_line ns outs \<and> out = concat outs)"

lemma factor_lines_simps: "factor_lines [] []" "factor_line n out \<Longrightarrow> factor_lines ns outs \<Longrightarrow> factor_lines (n # ns) (out @ outs)"
proof -
  show "factor_lines [] []" by (simp add: factor_lines_def)
  assume "factor_line n out" "factor_lines ns outs"
  then obtain os where "list_all2 factor_line (n # ns) (out # os)" "out @ outs = concat (out # os)"
    by (auto simp: factor_lines_def)
  then show "factor_lines (n # ns) (out @ outs)" unfolding factor_lines_def by blast
qed

lemma factor_lines_append: "factor_lines ns out \<Longrightarrow> factor_lines ms out' \<Longrightarrow> factor_lines (ns @ ms) (out @ out')"
  unfolding factor_lines_def by (metis concat_append list_all2_appendI)

definition in_range :: "nat \<Rightarrow> bool" where
  "in_range n \<longleftrightarrow> 0 < n \<and> n < 2 ^ 64"

lemma decimal_bytes: "c \<in> set (decimal n) \<Longrightarrow> 48 \<le> c \<and> c \<le> 57"
  using decimal_correct [of n] by (auto simp: is_decimal_def list_all_iff)

lemma digit_byte: "48 \<le> c \<Longrightarrow> c \<le> 57 \<Longrightarrow> c \<noteq> 0 \<and> c \<noteq> 10 \<and> \<not> (c = 32 \<or> c - 9 \<le> 13 - 9) \<and> bb_isalnum c \<and> c \<noteq> 43" for c :: u8
  using decimal_cases [of c] by (auto simp: bb_isalnum_def)

lemma numstr_number:
  assumes "in_range n"
  shows "\<exists>out. factorize_numstr (decimal n) = Some (out, False) \<and> factor_line n out"
proof -
  have "entry_ok 1 n" using assms by (auto simp: entry_ok_def in_range_def)
  then obtain fs where f: "factorize n = Some fs" "sorted fs" "\<forall>p \<in> set fs. is_prime p" "prod_list fs = n"
    using factorize_at_correct by (fastforce simp: factorize_def factors_of_def)
  obtain c s where d: "decimal n = c # s" "48 \<le> c" "c \<le> 57"
    using decimal_not_signed [of n] decimal_bytes [of _ n] by (cases "decimal n") auto
  have "strtoull (decimal n) 10 = (of_nat n, [], False)"
    using strtoull_decimal [of "decimal n" "[]"] decimal_correct [of n] assms by (simp add: in_range_def)
  moreover have "unat (of_nat n :: u64) = n" using assms by (simp add: in_range_def unat_of_nat)
  ultimately have "factorize_numstr (decimal n) = Some (decimal n @ [58] @ concat (map (\<lambda>p. 32 # decimal p) fs) @ [10], False)"
    using digit_byte [OF d(2,3)] f(1) d(1) by (simp add: factorize_numstr_def bb_strtoull_def handle_errors_def)
  with f(2-4) show ?thesis unfolding factor_line_def by blast
qed

lemma and_then_out: "and_then (Some (out, False)) (Some (out', u)) = Some (out @ out', u)"
  by (simp add: and_then_def)

lemma skip_decimal: "skip_whitespace_b (decimal n @ s) = decimal n @ s"
proof -
  obtain c r where d: "decimal n = c # r" "48 \<le> c" "c \<le> 57"
    using decimal_not_signed [of n] decimal_bytes [of _ n] by (cases "decimal n") auto
  from d(1) digit_byte [OF d(2,3)] show ?thesis by (simp add: skip_whitespace_b_def)
qed

lemma args_lines:
  "\<forall>n \<in> set ns. in_range n \<Longrightarrow> \<exists>out. factor_args (map decimal ns) = Some (out, False) \<and> factor_lines ns out"
proof (induction ns)
  case Nil
  then show ?case by (simp add: factor_lines_simps)
next
  case (Cons n ns)
  then obtain out outs where "factorize_numstr (decimal n) = Some (out, False)" "factor_line n out"
      "factor_args (map decimal ns) = Some (outs, False)" "factor_lines ns outs"
    using numstr_number [of n] by (auto simp del: factor_args.simps)
  then show ?case using skip_decimal [of n "[]"] by (simp add: and_then_out factor_lines_simps)
qed

section \<open>Standard input\<close>

text \<open>A line of blanks and numbers.\<close>

definition blanks :: "bytes \<Rightarrow> bool" where
  "blanks b \<longleftrightarrow> (\<forall>c \<in> set b. bb_isspace c \<and> c \<noteq> 10)"

fun words_of :: "(bytes \<times> nat) list \<Rightarrow> bytes" where
  "words_of [] = []"
| "words_of ((b, n) # ws) = b @ decimal n @ words_of ws"

definition word_line :: "(bytes \<times> nat) list \<Rightarrow> bool" where
  "word_line ws \<longleftrightarrow> (\<forall>(b, n) \<in> set ws. blanks b \<and> b \<noteq> [] \<and> in_range n)"

lemma skip_blanks: "blanks b \<Longrightarrow> skip_whitespace_b (b @ s) = skip_whitespace_b s"
  by (induction b) (auto simp: skip_whitespace_b_def blanks_def bb_isspace_def)

lemma blank_byte: "bb_isspace c \<Longrightarrow> c \<noteq> 0 \<and> \<not> (c \<noteq> 0 \<and> c \<noteq> 32 \<and> c - 9 > 13 - 9)"
  by (auto simp: bb_isspace_def)

lemma skip_digits:
  assumes "s = [] \<or> bb_isspace (hd s)"
  shows "skip_non_whitespace (decimal n @ s) = s"
proof -
  have "dropWhile (\<lambda>c. c \<noteq> 0 \<and> c \<noteq> 32 \<and> c - 9 > 13 - 9) (xs @ s) = s" if "\<forall>c \<in> set xs. 48 \<le> c \<and> c \<le> 57" for xs :: bytes
    using that
  proof (induction xs)
    case Nil
    then show ?case using assms blank_byte [of "hd s"] by (cases s) auto
  next
    case (Cons c xs)
    then have "\<not> (c = 32 \<or> c - 9 \<le> 13 - 9)" "c \<noteq> 0" using digit_byte [of c] by auto
    then show ?case using Cons by (simp add: not_le)
  qed
  from this [of "decimal n"] show ?thesis using decimal_bytes by (simp add: skip_non_whitespace_def)
qed

text \<open>The blank before the first number of a line is left out, so that it may start with the number.\<close>

definition line_of :: "(bytes \<times> nat) list \<Rightarrow> bytes" where
  "line_of ws = tl (words_of ws)"

lemma words_lines:
  "word_line ws \<Longrightarrow> \<exists>out. factor_words (line_of ws) = Some (out, False) \<and> factor_lines (map snd ws) out"
proof (induction ws)
  case Nil
  then show ?case by (simp add: line_of_def factor_words.simps skip_whitespace_b_def factor_lines_simps)
next
  case (Cons w ws)
  obtain b n where w: "w = (b, n)" by fastforce
  have b: "blanks b" "b \<noteq> []" "in_range n" "word_line ws" using Cons.prems w by (auto simp: word_line_def)
  then have "blanks (tl b)" by (cases b) (auto simp: blanks_def)
  then have skip: "skip_whitespace_b (line_of (w # ws)) = decimal n @ words_of ws"
    using skip_blanks skip_decimal b(2) w by (simp add: line_of_def tl_append2)
  have "words_of ws = [] \<or> bb_isspace (hd (words_of ws))"
    using b(4) by (cases ws rule: words_of.cases) (auto simp: word_line_def blanks_def)
  note end' = skip_digits [OF this, of n]
  obtain out where out: "factorize_numstr (decimal n) = Some (out, False)" "factor_line n out"
    using numstr_number [OF b(3)] by blast
  obtain outs where "factor_words (line_of ws) = Some (outs, False)" "factor_lines (map snd ws) outs"
    using Cons.IH b(4) by blast
  with out show ?case
    unfolding factor_words.simps [of "line_of (w # ws)"] skip
    using decimal_not_signed [of n] w by (simp add: end' Let_def and_then_out factor_lines_simps line_of_def)
qed

lemma line_bytes: "word_line ws \<Longrightarrow> \<forall>c \<in> set (line_of ws). c \<noteq> 0 \<and> c \<noteq> 10"
proof -
  have "word_line ws \<Longrightarrow> \<forall>c \<in> set (words_of ws). c \<noteq> 0 \<and> c \<noteq> 10" for ws
  proof (induction ws rule: words_of.induct)
    case (2 b n ws)
    have "\<forall>c \<in> set b. c \<noteq> 0 \<and> c \<noteq> 10" using 2(2) blank_byte by (fastforce simp: word_line_def blanks_def)
    moreover have "\<forall>c \<in> set (decimal n). c \<noteq> 0 \<and> c \<noteq> 10" using decimal_bytes [of _ n] digit_byte by blast
    ultimately show ?case using 2 by (auto simp: word_line_def)
  qed simp
  then show "word_line ws \<Longrightarrow> \<forall>c \<in> set (line_of ws). c \<noteq> 0 \<and> c \<noteq> 10" by (metis line_of_def list.set_sel(2) tl_Nil)
qed

definition input_of :: "(bytes \<times> nat) list list \<Rightarrow> bytes" where
  "input_of wss = concat (map (\<lambda>ws. line_of ws @ [10]) wss)"

lemma stdin_lines:
  "\<forall>ws \<in> set wss. word_line ws \<Longrightarrow> \<exists>out. factor_stdin (input_of wss) = Some (out, False) \<and> factor_lines (map snd (concat wss)) out"
proof (induction wss)
  case Nil
  then show ?case by (simp add: input_of_def factor_stdin.simps xmalloc_fgetline_def factor_lines_simps)
next
  case (Cons ws wss)
  have get: "xmalloc_fgetline (input_of (ws # wss)) = (Some (line_of ws), input_of wss)"
    using fgetline_here [of "line_of ws"] line_bytes [of ws] Cons.prems by (simp add: input_of_def)
  obtain out where "factor_words (line_of ws) = Some (out, False)" "factor_lines (map snd ws) out"
    using words_lines [of ws] Cons.prems by auto
  moreover obtain outs where "factor_stdin (input_of wss) = Some (outs, False)" "factor_lines (map snd (concat wss)) outs"
    using Cons by auto
  ultimately show ?case
    by (subst factor_stdin.simps) (simp add: get and_then_out factor_lines_append)
qed

text \<open>
  C22. \<^verbatim>\<open>factor\<close> returns and prints a line for each number, from its arguments or from the
  words of its input.
\<close>

theorem factor_main_lines:
  assumes "ns \<noteq> []" "\<forall>n \<in> set ns. 0 < n \<and> n < 2 ^ 64" "\<forall>ws \<in> set wss. word_line ws"
  shows "(\<exists>out. factor_main (map decimal ns) src = Some (out, False) \<and> factor_lines ns out)
    \<and> (\<exists>out. factor_main [] (input_of wss) = Some (out, False) \<and> factor_lines (map snd (concat wss)) out)"
  using args_lines [of ns] stdin_lines [of wss] assms by (simp add: factor_main_def in_range_def)

theorem factor_main_lines_witness:
  "(\<exists>out. factor_main (map decimal [12, 97]) [] = Some (out, False) \<and> factor_lines [12, 97] out)
   \<and> (\<exists>out. factor_main [] (input_of [[([32], 12), ([32, 9], 97)], []]) = Some (out, False) \<and> factor_lines (map snd (concat [[([32], 12), ([32, 9 :: u8], 97)], []])) out)"
  by (rule factor_main_lines) (simp_all add: word_line_def blanks_def bb_isspace_def in_range_def)

end
