(* ===== verification/Uu_Roundtrip.thy ===== *)
theory Uu_Roundtrip
  imports Uu_Stream
begin

text \<open>
  What the applets encode they decode. The two codecs are instances of one contract, a text in
  groups of characters that stand for groups of bytes, and a decoder that decodes the whole groups
  of a cut text and leaves the rest; the reader's loop over lines is verified from the contract.
\<close>

section \<open>Filling the buffer\<close>

text \<open>
  The buffer takes the visible characters \<open>w\<close> at the front of the stream, up to the end of the body,
  to its size, or to the end of the line.
\<close>

lemma fill_buffer_body:
  assumes "\<forall>x \<in> set body. int (unat x) \<noteq> ec" "length c \<le> BUFFER_SIZE"
  obtains (at_end) "\<forall>x \<in> set body. x > 32" "length c + length body < BUFFER_SIZE" "fill_buffer ec c (body @ src) = fill_buffer ec (c @ body) src"
  | (full) w rest where "body = w @ rest" "\<forall>x \<in> set w. x > 32" "length c + length w = BUFFER_SIZE" "fill_buffer ec c (body @ src) = (Go_on, c @ w, rest @ src)"
  | (line) w x rest where "body = w @ x # rest" "\<forall>x \<in> set w. x > 32" "x \<le> 32" "length c + length w < BUFFER_SIZE"
      "fill_buffer ec c (body @ src) = (Go_on, c @ w, rest @ src)"
proof -
  have "(\<forall>x \<in> set body. x > 32) \<and> length c + length body < BUFFER_SIZE \<and> fill_buffer ec c (body @ src) = fill_buffer ec (c @ body) src
    \<or> (\<exists>w rest. body = w @ rest \<and> (\<forall>x \<in> set w. x > 32) \<and> length c + length w = BUFFER_SIZE \<and> fill_buffer ec c (body @ src) = (Go_on, c @ w, rest @ src))
    \<or> (\<exists>w x rest. body = w @ x # rest \<and> (\<forall>x \<in> set w. x > 32) \<and> x \<le> 32 \<and> length c + length w < BUFFER_SIZE
        \<and> fill_buffer ec c (body @ src) = (Go_on, c @ w, rest @ src))"
    (is "?P c body")
    using assms
  proof (induction body arbitrary: c)
    case Nil
    have "fill_buffer ec c src = (Go_on, c, src)" if "length c = BUFFER_SIZE" using that by (cases src) simp_all
    then show ?case using Nil.prems(2) by (cases "length c = BUFFER_SIZE") auto
  next
    case (Cons x body)
    show ?case
    proof (cases "length c = BUFFER_SIZE")
      case True
      then show ?thesis by (intro disjI2 disjI1 exI [of _ "[]"] exI [of _ "x # body"]) simp
    next
      case short: False
      then have lc: "length c < BUFFER_SIZE" using Cons.prems(2) by simp
      show ?thesis
      proof (cases "x \<le> 32")
        case True
        then show ?thesis
          using lc Cons.prems(1) by (intro disjI2 exI [of _ "[]"] exI [of _ x] exI [of _ body]) simp
      next
        case False
        have run: "fill_buffer ec c ((x # body) @ src) = fill_buffer ec (c @ [x]) (body @ src)"
          using lc False Cons.prems(1) by simp
        have "?P (c @ [x]) body" using Cons.prems lc by (intro Cons.IH) simp_all
        then show ?thesis
        proof (elim disjE exE conjE)
          fix w rest
          assume "body = w @ rest" "\<forall>x \<in> set w. x > 32" "length (c @ [x]) + length w = BUFFER_SIZE" "fill_buffer ec (c @ [x]) (body @ src) = (Go_on, (c @ [x]) @ w, rest @ src)"
          then show ?thesis unfolding run using False by (intro disjI2 disjI1 exI [of _ "x # w"] exI [of _ rest]) simp
        next
          fix w y rest
          assume "body = w @ y # rest" "\<forall>x \<in> set w. x > 32" "y \<le> 32" "length (c @ [x]) + length w < BUFFER_SIZE" "fill_buffer ec (c @ [x]) (body @ src) = (Go_on, (c @ [x]) @ w, rest @ src)"
          then show ?thesis unfolding run using False by (intro disjI2 exI [of _ "x # w"] exI [of _ y] exI [of _ rest]) simp
        qed (use run False in auto)
      qed
    qed
  qed
  then show ?thesis using at_end full line by blast
qed

section \<open>The contract of a codec\<close>

locale group_codec =
  fixes enc :: "bytes \<Rightarrow> bytes" and decode :: "bytes \<Rightarrow> bytes \<times> bytes" and gc gb :: nat and bad_cut :: "bytes \<Rightarrow> nat \<Rightarrow> bool"
  assumes sizes: "3 < gc" "gc < 9" "0 < gb" "gc dvd 80"
    and prefix: "\<And>bs m. m \<le> length (enc bs) \<Longrightarrow> \<not> bad_cut bs m \<Longrightarrow>
      decode (take m (enc bs)) = (take (gb * (m div gc)) bs, drop (gc * (m div gc)) (take m (enc bs)))"
    and enc_drop: "\<And>bs q. gc * q \<le> length (enc bs) \<Longrightarrow> drop (gc * q) (enc bs) = enc (drop (gb * q) bs)"
    and whole: "\<And>bs. gc dvd length (enc bs)" "\<And>bs. length bs \<le> gb * (length (enc bs) div gc)"
    and visible: "\<And>bs x. x \<in> set (enc bs) \<Longrightarrow> x > 32"
    and first: "\<And>bs x r. enc bs = x # r \<Longrightarrow> x \<noteq> 61"
    and cut_in_group: "\<And>bs m. bad_cut bs m \<Longrightarrow> \<not> gc dvd m"
    and cut_drop: "\<And>bs q k. gc * q \<le> length (enc bs) \<Longrightarrow> bad_cut (drop (gb * q) bs) k \<Longrightarrow> bad_cut bs (gc * q + k)"
begin

text \<open>
  A stream whose visible characters, behind the characters \<open>c\<close> kept from the last line, are the
  text of \<open>bs\<close>, with no line end at a bad cut.
\<close>

definition body_ok :: "bytes \<Rightarrow> bytes \<Rightarrow> bytes \<Rightarrow> bool" where
  "body_ok c body bs \<longleftrightarrow>
     length c < gc \<and> c @ filter (\<lambda>x. x > 32) body = enc bs \<and>
     (\<forall>w x r. body = w @ x # r \<longrightarrow> x \<le> 32 \<longrightarrow> \<not> bad_cut bs (length c + length (filter (\<lambda>x. x > 32) w)))"

lemma decode_step:
  assumes "c @ filter (\<lambda>x. x > 32) body = enc bs" "body = w @ rest" "\<forall>x \<in> set w. x > 32"
    "\<not> bad_cut bs (length c + length w)" "rest = body' \<or> (\<exists>x \<le> 32. rest = x # body')"
    "\<And>v x r. body = v @ x # r \<Longrightarrow> x \<le> 32 \<Longrightarrow> \<not> bad_cut bs (length c + length (filter (\<lambda>x. x > 32) v))"
  defines "q \<equiv> (length c + length w) div gc"
  obtains tail where "decode (c @ w) = (take (gb * q) bs, tail)" "body_ok tail body' (drop (gb * q) bs)"
    "tail = drop (gc * q) (c @ w)"
proof -
  let ?m = "length c + length w"
  have w: "filter (\<lambda>x. x > 32) w = w" using assms(3) by simp
  have all: "enc bs = (c @ w) @ filter (\<lambda>x. x > 32) rest" using assms(1,2) w by simp
  have pre: "take ?m (enc bs) = c @ w" "?m \<le> length (enc bs)" unfolding all by simp_all
  have "?m mod gc < gc" "gc * (?m div gc) + ?m mod gc = ?m" using sizes(1) by simp_all
  then have qm: "gc * q \<le> ?m" "?m < gc * q + gc" unfolding q_def by linarith+
  have rest: "filter (\<lambda>x. x > 32) body' = filter (\<lambda>x. x > 32) rest" using assms(5) by (auto simp: not_less)
  let ?tail = "drop (gc * q) (c @ w)"
  have "decode (c @ w) = (take (gb * q) bs, ?tail)"
    using prefix [OF pre(2) assms(4)] unfolding pre(1) q_def by simp
  moreover have "body_ok ?tail body' (drop (gb * q) bs)"
    unfolding body_ok_def
  proof (intro conjI allI impI)
    show "length ?tail < gc" using qm by simp
    have "gc * q \<le> length (enc bs)" using qm(1) pre(2) by linarith
    from enc_drop [OF this] show "?tail @ filter (\<lambda>x. x > 32) body' = enc (drop (gb * q) bs)"
      using qm(1) unfolding all rest by simp
    fix v x r
    assume v: "body' = v @ x # r" "x \<le> 32"
    obtain u where u: "body = (w @ u @ v) @ x # r" "filter (\<lambda>x. x > 32) u = []"
      using assms(2,5) v(1) by (auto simp: not_less)
    have "\<not> bad_cut bs (length c + length (filter (\<lambda>x. x > 32) (w @ u @ v)))" by (rule assms(6) [OF u(1) v(2)])
    moreover have "length c + length (filter (\<lambda>x. x > 32) (w @ u @ v)) = gc * q + (length ?tail + length (filter (\<lambda>x. x > 32) v))"
      using u(2) w qm(1) by simp
    ultimately show "\<not> bad_cut (drop (gb * q) bs) (length ?tail + length (filter (\<lambda>x. x > 32) v))"
      using cut_drop [OF \<open>gc * q \<le> length (enc bs)\<close>] by metis
  qed
  ultimately show ?thesis using that by blast
qed

lemma enc_empty: "enc bs = [] \<Longrightarrow> bs = []"
  using whole(2) [of bs] by simp

lemma decode_all: "decode (enc bs) = (bs, [])"
proof -
  have q: "gc * (length (enc bs) div gc) = length (enc bs)" using whole(1) [of bs] by simp
  have "\<not> bad_cut bs (length (enc bs))" using cut_in_group whole(1) by blast
  from prefix [OF order_refl this] show ?thesis using whole(2) [of bs] by (simp add: q)
qed

lemma not_stop_line:
  assumes "c @ filter (\<lambda>x. x > 32) body = enc bs" "body = w @ rest" "\<forall>x \<in> set w. x > 32"
  shows "c @ w \<noteq> ascii ''===='' "
proof
  assume "c @ w = ascii ''===='' "
  then have "enc bs = ascii ''===='' @ filter (\<lambda>x. x > 32) rest" using assms by (metis (no_types, lifting) append.assoc filter_True filter_append)
  then have "enc bs = 61 # (61 # 61 # 61 # filter (\<lambda>x. x > 32) rest)" by (simp add: ascii_def)
  from first [OF this] show False by simp
qed

text \<open>How the stream goes on behind the body.\<close>

definition ending_ok :: "u32 \<Rightarrow> bytes \<Rightarrow> bytes \<Rightarrow> bytes \<Rightarrow> bool" where
  "ending_ok flags c body ending \<longleftrightarrow>
     ending = [] \<or> flags AND BASE64_FLAG_UU_STOP \<noteq> 0 \<and> (\<exists>more. ending = ascii ''===='' @ 10 # more) \<and>
       (if body = [] then c = [] else last body \<le> 32)"

lemma at_end_case:
  assumes "body_ok c body bs" "ending_ok flags c body ending" "exit_char flags < 0" "decode_text flags = decode"
    "\<forall>x \<in> set body. x > 32" "length c + length body < BUFFER_SIZE"
    "fill_buffer (exit_char flags) c (body @ ending) = fill_buffer (exit_char flags) (c @ body) ending"
  shows "read_base64_loop flags dst c (body @ ending) = (dst @ bs, None)"
proof -
  have all: "c @ body = enc bs" using assms(1,5) by (simp add: body_ok_def)
  have ne: "int (unat x) \<noteq> exit_char flags" for x :: u8 using assms(3) by linarith
  show ?thesis
  proof (cases "ending = []")
    case True
    have "c @ body \<noteq> ascii ''===='' "
      using not_stop_line [of c body bs body "[]"] assms(1,5) by (simp add: body_ok_def)
    moreover have "length (enc bs) < BUFFER_SIZE" unfolding all [symmetric] using assms(6) by simp
    then have "fill_buffer (exit_char flags) c (body @ ending) = (Return, enc bs, []) \<and> enc bs = []
        \<or> fill_buffer (exit_char flags) c (body @ ending) = (Term_seen, enc bs, [])"
      using assms(7) by (simp add: all True)
    ultimately show ?thesis
      using decode_all [of bs] enc_empty [of bs] unfolding all
      by (subst read_base64_loop.simps) (elim disjE conjE; simp add: assms(4))
  next
    case False
    then obtain more where e: "flags AND BASE64_FLAG_UU_STOP \<noteq> 0" "ending = ascii ''===='' @ 10 # more" "if body = [] then c = [] else last body \<le> 32"
      using assms(2) by (auto simp: ending_ok_def)
    have "body = []" using e(3) assms(5) by (auto split: if_splits) (metis last_in_set not_less)
    then have "c = []" "bs = []" using e(3) all enc_empty by simp_all
    moreover have "fill_buffer (exit_char flags) [] ending = (Go_on, ascii ''===='', more)"
      using ne unfolding e(2) by (simp add: ascii_def BUFFER_SIZE_def ne [of 61, simplified] ne [of 10, simplified])
    ultimately show ?thesis using e(1) \<open>body = []\<close> by (subst read_base64_loop.simps) simp
  qed
qed

text \<open>The reader gives back the bytes, whatever the lines.\<close>

lemma read_decodes:
  assumes "body_ok c body bs" "ending_ok flags c body ending" "exit_char flags < 0" "decode_text flags = decode"
  shows "read_base64_loop flags dst c (body @ ending) = (dst @ bs, None)"
  using assms(1,2)
proof (induction "length c + length body" arbitrary: dst c body bs rule: less_induct)
  case less
  have ne: "\<forall>x \<in> set body. int (unat x) \<noteq> exit_char flags" using assms(3) by force
  have lc: "length c < gc" "c @ filter (\<lambda>x. x > 32) body = enc bs" using less.prems(1) by (simp_all add: body_ok_def)
  then have "length c \<le> BUFFER_SIZE" using sizes(2) by (simp add: BUFFER_SIZE_def)
  have cuts: "\<not> bad_cut bs (length c + length (filter (\<lambda>x. x > 32) v))" if "body = v @ x # r" "x \<le> 32" for v x r
    using less.prems(1) that unfolding body_ok_def by blast
  have go: "read_base64_loop flags dst c (body @ ending) = (dst @ bs, None)"
    if "body = w @ rest" "\<forall>x \<in> set w. x > 32" "\<not> bad_cut bs (length c + length w)" "rest = body' \<or> (\<exists>x \<le> 32. rest = x # body')"
      "fill_buffer (exit_char flags) c (body @ ending) = (Go_on, c @ w, body' @ ending)"
      "length c + length w = BUFFER_SIZE \<or> length body' < length rest" for w rest body'
  proof -
    note step = that
    define q where "q = (length c + length w) div gc"
    obtain tail where tail: "decode (c @ w) = (take (gb * q) bs, tail)" "body_ok tail body' (drop (gb * q) bs)" "tail = drop (gc * q) (c @ w)"
      unfolding q_def by (rule decode_step [OF lc(2) step(1-4)]) (use cuts in blast)+
    have lt: "length tail < gc" using tail(2) by (simp add: body_ok_def)
    have less_len: "length tail + length body' < length c + length body"
    proof -
      have "length tail \<le> length c + length w" by (simp add: tail(3))
      moreover have "length body' \<le> length rest" using step(4) by auto
      moreover have "length body = length w + length rest" using step(1) by simp
      ultimately show ?thesis using step(6) lt sizes(2) by (auto simp: BUFFER_SIZE_def)
    qed
    have "tail = []" if "rest = [] \<and> w = [] \<and> c = [] \<or> (\<exists>x \<le> 32. rest = [x])"
    proof -
      have "filter (\<lambda>x. x > 32) rest = []" using that by (auto simp: not_less [symmetric])
      then have "c @ w = enc bs" using lc(2) step(1,2) by simp
      then have "length c + length w = length (enc bs)" by (metis length_append)
      then show "tail = []" using whole(1) [of bs] by (simp add: tail(3) q_def)
    qed
    moreover have "w = [] \<or> 32 < last w" using step(2) last_in_set by blast
    ultimately have "ending_ok flags tail body' ending"
      using less.prems(2) step(1,2,4) unfolding ending_ok_def
      by (cases "body' = []"; cases "body = []") (auto simp: not_less split: if_splits)
    from less.hyps [OF less_len tail(2) this]
    have "read_base64_loop flags (dst @ take (gb * q) bs) tail (body' @ ending) = (dst @ bs, None)" by simp
    moreover have "c @ w \<noteq> ascii ''===='' " by (rule not_stop_line [OF lc(2) step(1,2)])
    ultimately show ?thesis using step(5) tail(1) by (subst read_base64_loop.simps) (simp add: assms(4))
  qed
  show ?case
  proof (cases rule: fill_buffer_body [OF ne \<open>length c \<le> BUFFER_SIZE\<close>, of ending, case_names at_end full line])
    case at_end
    then show ?thesis using at_end_case [OF less.prems assms(3,4)] by simp
  next
    case (full w rest)
    have "\<not> bad_cut bs (length c + length w)" using cut_in_group sizes(4) full(3) by (auto simp: BUFFER_SIZE_def)
    then show ?thesis using go [OF full(1,2), of rest] full(3,4) by simp
  next
    case (line w x rest)
    have "\<not> bad_cut bs (length c + length w)" using cuts [OF line(1,3)] line(2) by simp
    then show ?thesis using go [OF line(1,2), of rest] line(3,5) by auto
  qed
qed

end

section \<open>The two codecs\<close>

lemma drop_more: "length q = k \<Longrightarrow> drop (k + n) (q @ ys) = drop n ys"
  by simp

lemma length_uu_text [len_simps]: "length (uu_text tbl xs) = 4 * ((length xs + 2) div 3)"
  by (induction tbl xs rule: uu_text.induct) (simp_all add: len_simps, presburger)

lemma length_b32_text [len_simps]: "length (b32_text xs) = 8 * ((length xs + 4) div 5)"
  using b32_pads_le [of "length xs"] unfolding b32_text_groups [of xs] by (simp add: len_simps)

lemma drop_last_group: "length l = k \<Longrightarrow> 0 < k \<Longrightarrow> k * q \<le> k \<Longrightarrow> drop (k * q) l = (if q = 0 then l else [])"
  by (cases q) simp_all

lemma uu_text_drop: "4 * q \<le> length (uu_text tbl bs) \<Longrightarrow> drop (4 * q) (uu_text tbl bs) = uu_text tbl (drop (3 * q) bs)"
proof (induction tbl bs arbitrary: q rule: uu_text.induct)
  case (4 tbl a b c xs)
  then show ?case
    using drop_more [of "[a, b, c]" 3] drop_more [OF length_uu_quad] by (cases q) (simp_all add: len_simps)
next
  case (2 tbl a)
  then show ?case using drop_last_group [of "uu_text tbl [a]" 4 q] by (simp only: length_uu_text) (cases q; simp)
next
  case (3 tbl a b)
  then show ?case using drop_last_group [of "uu_text tbl [a, b]" 4 q] by (simp only: length_uu_text) (cases q; simp)
qed simp

lemma b32_text_drop: "8 * q \<le> length (b32_text bs) \<Longrightarrow> drop (8 * q) (b32_text bs) = b32_text (drop (5 * q) bs)"
proof (induction bs arbitrary: q rule: b32_text.induct)
  case (6 a b c d e xs)
  then show ?case
    using drop_more [of "[a, b, c, d, e]" 5] drop_more [OF length_b32_oct] by (cases q) (simp_all add: len_simps)
next
  case (2 a)
  then show ?case using drop_last_group [of "b32_text [a]" 8 q] by (simp only: length_b32_text) (cases q; simp)
next
  case (3 a b)
  then show ?case using drop_last_group [of "b32_text [a, b]" 8 q] by (simp only: length_b32_text) (cases q; simp)
next
  case (4 a b c)
  then show ?case using drop_last_group [of "b32_text [a, b, c]" 8 q] by (simp only: length_b32_text) (cases q; simp)
next
  case (5 a b c d)
  then show ?case using drop_last_group [of "b32_text [a, b, c, d]" 8 q] by (simp only: length_b32_text) (cases q; simp)
qed simp

lemma table64: "x \<in> set bb_uuenc_tbl_base64 \<Longrightarrow> x > 32" "61 \<notin> set (take 64 bb_uuenc_tbl_base64)" "length bb_uuenc_tbl_base64 = 65"
  by (auto simp: bb_uuenc_tbl_base64_def ascii_def)

lemma table32: "x \<in> set bb_uuenc_tbl_base32 \<Longrightarrow> x > 32 \<and> x \<noteq> 61" "length bb_uuenc_tbl_base32 = 32"
  by (auto simp: bb_uuenc_tbl_base32_def ascii_def)

lemma uu_quad_chars: "length tbl = 65 \<Longrightarrow> set (uu_quad tbl (unat a) (unat b) (unat c)) \<subseteq> set tbl" for a b c :: u8
  using digits_of_three [OF u8_less [of a] u8_less [of b] u8_less [of c]]
  by (auto simp: uu_quad_def intro!: nth_mem intro: less_trans [OF mod_less_divisor])

lemma uu_text_chars: "length tbl = 65 \<Longrightarrow> set (uu_text tbl bs) \<subseteq> set tbl"
proof (induction tbl bs rule: uu_text.induct)
  case (2 tbl a)
  then show ?case using uu_quad_chars [of tbl a 0 0] by (auto dest: in_set_takeD)
next
  case (3 tbl a b)
  then show ?case using uu_quad_chars [of tbl a b 0] by (auto dest: in_set_takeD)
next
  case (4 tbl a b c xs)
  then show ?case using uu_quad_chars [of tbl a b c] by auto
qed simp

lemma b32_oct_chars: "set (b32_oct (unat a) (unat b) (unat c) (unat d) (unat e)) \<subseteq> set bb_uuenc_tbl_base32" for a b c d e :: u8
  using number_of_five(2) [OF u8_less [of a] u8_less [of b] u8_less [of c] u8_less [of d] u8_less [of e]]
  by (auto simp: b32_oct_digits d32_def list_all_iff table32(2))

lemma b32_text_chars: "set (b32_text bs) \<subseteq> set bb_uuenc_tbl_base32 \<union> {61}"
proof (induction bs rule: b32_text.induct)
  case (2 a)
  then show ?case using b32_oct_chars [of a 0 0 0 0] by (auto simp: equals_signs dest: in_set_takeD)
next
  case (3 a b)
  then show ?case using b32_oct_chars [of a b 0 0 0] by (auto simp: equals_signs dest: in_set_takeD)
next
  case (4 a b c)
  then show ?case using b32_oct_chars [of a b c 0 0] by (auto simp: equals_signs dest: in_set_takeD)
next
  case (5 a b c d)
  then show ?case using b32_oct_chars [of a b c d 0] by (auto simp: equals_signs dest: in_set_takeD)
next
  case (6 a b c d e xs)
  then show ?case using b32_oct_chars [of a b c d e] by auto
qed simp

lemma text64_first:
  assumes "uu_text bb_uuenc_tbl_base64 bs = x # r"
  shows "x \<noteq> 61"
proof -
  obtain a bs' where bs: "bs = a # bs'" using assms by (cases bs) auto
  have "x = bb_uuenc_tbl_base64 ! (unat a div 4)"
    using assms unfolding bs by (cases bs'; cases "tl bs'") (auto simp: uu_quad_def)
  moreover have "unat a div 4 < 64" using u8_less [of a] by simp
  ultimately have "x \<in> set (take 64 bb_uuenc_tbl_base64)"
    using table64(3) by (auto simp: in_set_conv_nth intro!: exI [of _ "unat a div 4"])
  then show ?thesis using table64(2) by metis
qed

lemma text32_first:
  assumes "b32_text bs = x # r"
  shows "x \<noteq> 61"
proof -
  obtain a bs' where bs: "bs = a # bs'" using assms by (cases bs) auto
  have "x = bb_uuenc_tbl_base32 ! (unat a div 8)"
    using assms unfolding bs
    by (cases bs'; cases "tl bs'"; cases "tl (tl bs')"; cases "tl (tl (tl bs'))") (auto simp: b32_oct_def)
  moreover have "unat a div 8 < 32" using u8_less [of a] by simp
  ultimately show ?thesis using table32 nth_mem by metis
qed

lemma splits_pad_drop:
  assumes "4 * q \<le> length (uu_text bb_uuenc_tbl_base64 bs)" "splits_pad (drop (3 * q) bs) k"
  shows "splits_pad bs (4 * q + k)"
proof -
  define n where "n = length bs - 3 * q"
  have n: "n mod 3 = 1" "k + 1 = 4 * ((n + 2) div 3)" using assms(2) by (simp_all add: splits_pad_def n_def len_simps)
  then have "n \<noteq> 0" by auto
  then have "length bs = n + 3 * q" unfolding n_def by simp
  moreover have "(n + 3 * q + 2) div 3 = q + (n + 2) div 3" by presburger
  ultimately show ?thesis using n by (simp add: splits_pad_def len_simps)
qed

interpretation base64: group_codec "uu_text bb_uuenc_tbl_base64" decode_base64 4 3 splits_pad
proof unfold_locales
  show "4 dvd length (uu_text bb_uuenc_tbl_base64 bs)" for bs by (simp add: len_simps)
  show "length bs \<le> 3 * (length (uu_text bb_uuenc_tbl_base64 bs) div 4)" for bs by (simp add: len_simps)
  show "32 < x" if "x \<in> set (uu_text bb_uuenc_tbl_base64 bs)" for bs x
    using that uu_text_chars [OF table64(3)] table64(1) by blast
  show "\<not> 4 dvd m" if "splits_pad bs m" for bs m
  proof
    assume "4 dvd m"
    moreover have "4 dvd m + 1" using that by (simp only: splits_pad_def length_uu_text) simp
    ultimately have "4 dvd (m + 1) - m" by (intro dvd_diff_nat)
    then show False by simp
  qed
qed (simp_all add: decode_base64_prefix uu_text_drop text64_first splits_pad_drop)

interpretation base32: group_codec b32_text decode_base32 8 5 "\<lambda>bs m. False"
proof unfold_locales
  show "8 dvd length (b32_text bs)" for bs by (simp add: len_simps)
  show "length bs \<le> 5 * (length (b32_text bs) div 8)" for bs by (simp add: len_simps)
  show "32 < x" if "x \<in> set (b32_text bs)" for bs x
    using subsetD [OF b32_text_chars that] table32(1) by auto
qed (simp_all add: decode_base32_prefix b32_text_drop text32_first)

section \<open>The encoder\<close>

lemma uu_text_append: "3 dvd length xs \<Longrightarrow> uu_text tbl (xs @ ys) = uu_text tbl xs @ uu_text tbl ys"
proof (induction tbl xs rule: uu_text.induct)
  case (4 tbl a b c xs)
  moreover have "3 dvd length (a # b # c # xs) \<longleftrightarrow> 3 dvd length xs" by simp presburger
  ultimately show ?case by simp
qed (auto dest: dvd_imp_le)

lemma b32_text_append: "5 dvd length xs \<Longrightarrow> b32_text (xs @ ys) = b32_text xs @ b32_text ys"
proof (induction xs rule: b32_text.induct)
  case (6 a b c d e xs)
  moreover have "5 dvd length (a # b # c # d # e # xs) \<longleftrightarrow> 5 dvd length xs" by simp presburger
  ultimately show ?case by simp
qed (auto dest: dvd_imp_le)

text \<open>The text of the stream: base32 or base64 of RFC 4648.\<close>

definition base_text :: "bool \<Rightarrow> bytes \<Rightarrow> bytes" where
  "base_text base32 bs = (if base32 then b32_text bs else uu_text bb_uuenc_tbl_base64 bs)"

lemma base_text_visible: "x \<in> set (base_text base32 bs) \<Longrightarrow> x > 32"
  unfolding base_text_def using base32.visible base64.visible by (simp split: if_splits)

lemma length_base_text: "length (base_text base32 bs) = encoded_size base32 (length bs)"
  by (simp add: base_text_def encoded_size_def len_simps)

lemma base_text_append: "length xs = SRC_BUF_SIZE \<Longrightarrow> base_text base32 (xs @ ys) = base_text base32 xs @ base_text base32 ys"
  by (simp add: base_text_def SRC_BUF_SIZE_def uu_text_append b32_text_append)

lemma buffer_sizes: "dst_buf_size = 800" "src_buf = 320" "SRC_BUF_SIZE = 480"
  by (simp_all add: dst_buf_size_def src_buf_def SRC_BUF_SIZE_def DST_BUF_SIZE_def)

text \<open>Encoding in the common buffer never overwrites a byte it has still to read.\<close>

lemma encode_block_writes:
  assumes "length mem = dst_buf_size" "length block \<le> SRC_BUF_SIZE"
  shows "encode_block base32 mem block = write_at 0 (base_text base32 block @ [0]) (write_at src_buf block mem)"
proof -
  let ?m = "write_at src_buf block mem" and ?n = "length block"
  have len: "length ?m = 800" using assms by (simp add: buffer_sizes len_simps)
  have src: "take ?n (drop src_buf ?m) = block" using assms by (simp add: buffer_sizes write_at_def)
  have n: "?n \<le> 480" using assms(2) by (simp add: buffer_sizes)
  have "bb_b32encode ?m 0 src_buf ?n = write_at 0 (b32_text block @ [0]) ?m" if base32
    using bb_b32encode_writes [of src_buf ?n ?m 0] len src n by (simp add: buffer_sizes)
  moreover have "bb_uuencode ?m 0 src_buf ?n bb_uuenc_tbl_base64 = write_at 0 (uu_text bb_uuenc_tbl_base64 block @ [0]) ?m"
    using bb_uuencode_writes [of src_buf ?n ?m 0 bb_uuenc_tbl_base64] len src n by (simp add: buffer_sizes)
  ultimately show ?thesis by (simp add: encode_block_def base_text_def Let_def)
qed

lemma encode_block_text:
  fixes base32 :: bool
  assumes "length mem = dst_buf_size" "length block \<le> SRC_BUF_SIZE"
  defines "text \<equiv> base_text base32 block"
  shows "length (encode_block base32 mem block) = dst_buf_size"
    "takeWhile (\<lambda>c. c \<noteq> 0) (encode_block base32 mem block) = text"
    "take (encoded_size base32 (length block)) (encode_block base32 mem block) = text"
proof -
  have n: "encoded_size base32 (length block) \<le> 768" using assms(2) by (auto simp: encoded_size_def buffer_sizes)
  have len: "length (write_at src_buf block mem) = 800" using assms(1,2) by (simp add: buffer_sizes len_simps)
  then obtain rest where e: "encode_block base32 mem block = text @ 0 # rest"
    unfolding encode_block_writes [OF assms(1,2)] text_def write_at_def by auto
  show "length (encode_block base32 mem block) = dst_buf_size"
    unfolding encode_block_writes [OF assms(1,2)] using n len by (simp add: length_write_at length_base_text buffer_sizes)
  have "0 \<notin> set text" using base_text_visible [of 0] unfolding text_def by auto
  then show "takeWhile (\<lambda>c. c \<noteq> 0) (encode_block base32 mem block) = text" unfolding e by (subst takeWhile_append2) auto
  show "take (encoded_size base32 (length block)) (encode_block base32 mem block) = text"
    unfolding e text_def length_base_text [symmetric] by simp
qed

text \<open>The text broken into lines of \<open>col\<close> characters: \<open>rem\<close> more fit on the line, none on a full line.\<close>

fun wrap :: "nat \<Rightarrow> nat \<Rightarrow> bytes \<Rightarrow> bytes" where
  "wrap col rem [] = (if rem \<noteq> 0 then [10] else [])"
| "wrap col rem (c # s) =
     (let rem = (if rem = 0 then col else rem) - 1 in c # (if rem = 0 then [10] else []) @ wrap col rem s)"

lemma wrap_inside: "length t < rem \<Longrightarrow> wrap col rem (t @ s) = t @ wrap col (rem - length t) s"
  by (induction t arbitrary: rem) auto

lemma wrap_line: "length t = rem \<Longrightarrow> 0 < rem \<Longrightarrow> wrap col rem (t @ s) = t @ [10] @ wrap col 0 s"
proof (induction t arbitrary: rem)
  case (Cons c t)
  then show ?case by (cases t) auto
qed simp

lemma wrap_start: "s \<noteq> [] \<Longrightarrow> wrap col 0 s = wrap col col s"
  by (cases s) auto

lemma put_lines_wrap:
  assumes "put_lines col rem result sz = (out, rem')" "0 < rem" "0 < sz" "sz \<le> length result" "0 < col"
  shows "out @ wrap col rem' s = wrap col rem (take sz result @ s)"
  using assms
proof (induction col rem result sz arbitrary: out rem' rule: put_lines.induct)
  case (1 col rem result sz)
  consider (inside) "sz < rem" | (last) "sz = rem" | (more) "rem < sz" by linarith
  then show ?case
  proof cases
    case inside
    then show ?thesis using 1 wrap_inside [of "take sz result"] by (subst (asm) put_lines.simps) (auto simp: Let_def)
  next
    case last
    then show ?thesis using 1 wrap_line [of "take sz result"] by (subst (asm) put_lines.simps) (auto simp: Let_def)
  next
    case more
    obtain t' where t: "put_lines col col (drop rem result) (sz - rem) = (t', rem')" "out = take rem result @ [10] @ t'"
      using more "1.prems" by (subst (asm) put_lines.simps) (auto simp: Let_def split: prod.splits)
    have "t' @ wrap col rem' s = wrap col col (take (sz - rem) (drop rem result) @ s)"
      using more "1.prems" t(1) by (intro "1.IH") auto
    moreover have "take sz result = take rem result @ take (sz - rem) (drop rem result)"
      using more by (metis le_add_diff_inverse less_imp_le take_add)
    moreover have "take (sz - rem) (drop rem result) @ s \<noteq> []" using more "1.prems" by auto
    ultimately show ?thesis
      using wrap_line [of "take rem result" rem col "take (sz - rem) (drop rem result) @ s"] wrap_start more "1.prems" by (simp add: t(2))
  qed
qed

lemma block_out_wrap:
  assumes "block_out col rem mem sz = (text, rem')" "0 < sz" "sz \<le> length mem" "0 < col"
  shows "text @ wrap col rem' s = wrap col rem (take sz mem @ s)"
proof -
  let ?r = "if rem = 0 then col else rem"
  have "put_lines col ?r mem sz = (text, rem')" using assms by (simp add: block_out_def)
  from put_lines_wrap [OF this] have "text @ wrap col rem' s = wrap col ?r (take sz mem @ s)" using assms(2-4) by simp
  moreover have "take sz mem @ s \<noteq> []" using assms(2,3) by auto
  ultimately show ?thesis using wrap_start by (simp split: if_splits)
qed

lemma encoded_size_pos: "0 < n \<Longrightarrow> 0 < encoded_size base32 n"
  by (auto simp: encoded_size_def div_greater_zero_iff)

text \<open>What the encoder writes, whatever the buffer held.\<close>

definition base_lines :: "bool \<Rightarrow> nat \<Rightarrow> nat \<Rightarrow> bytes \<Rightarrow> bytes" where
  "base_lines base32 col rem bs = (if col = 0 then base_text base32 bs else wrap col rem (base_text base32 bs))"

lemma baseNUM_encode_lines:
  assumes "length mem = dst_buf_size" "col = 0 \<longrightarrow> rem = 0"
  shows "baseNUM_encode base32 col rem mem (data, False) = (base_lines base32 col rem data, None)"
  using assms
proof (induction "length data" arbitrary: data rem mem rule: less_induct)
  case less
  show ?case
  proof (cases "data = []")
    case True
    then show ?thesis using less.prems
      by (subst baseNUM_encode.simps) (simp add: full_read_def base_lines_def base_text_def)
  next
    case False
    let ?block = "take SRC_BUF_SIZE data" and ?rest = "drop SRC_BUF_SIZE data"
    let ?mem = "encode_block base32 mem ?block"
    obtain here rem' where out: "block_out col rem ?mem (encoded_size base32 (length ?block)) = (here, rem')" by fastforce
    have e: "length ?mem = dst_buf_size" "takeWhile (\<lambda>c. c \<noteq> 0) ?mem = base_text base32 ?block"
      "take (encoded_size base32 (length ?block)) ?mem = base_text base32 ?block"
      by (intro encode_block_text [OF less.prems(1)]; simp)+
    have ih: "baseNUM_encode base32 col rem' ?mem (?rest, False) = (base_lines base32 col rem' ?rest, None)"
      using False out less.prems(2) e(1) by (intro less.hyps) (auto simp: buffer_sizes block_out_def)
    have join: "base_text base32 data = base_text base32 ?block @ base_text base32 ?rest"
      using base_text_append [of ?block base32 ?rest] by (cases "?rest = []") (simp_all add: base_text_def)
    have "here @ base_lines base32 col rem' ?rest = base_lines base32 col rem data"
    proof (cases "col = 0")
      case True
      then show ?thesis using out e(2) less.prems(2) by (simp add: block_out_def base_lines_def join)
    next
      case c: False
      have "0 < encoded_size base32 (length ?block)" "encoded_size base32 (length ?block) \<le> length ?mem"
        using False encoded_size_pos e(1) by (auto simp: encoded_size_def buffer_sizes)
      from block_out_wrap [OF out this, unfolded e(3)] c show ?thesis by (simp add: base_lines_def join)
    qed
    then show ?thesis
      using False ih out
      by (subst baseNUM_encode.simps) (simp add: full_read_def buffer_sizes Let_def, auto simp: min_def split: if_splits)
  qed
qed

section \<open>Round trips of base64 and base32\<close>

lemma visible_wrap: "\<forall>x \<in> set s. x > 32 \<Longrightarrow> filter (\<lambda>x. x > 32) (wrap col rem s) = s"
  by (induction s arbitrary: rem) (auto simp: Let_def)

lemma wrap_newline:
  assumes "wrap col rem s = w @ x # r" "x \<le> 32" "\<forall>x \<in> set s. x > 32" "0 < col"
  shows "length (filter (\<lambda>x. x > 32) w) = length s \<or> length (filter (\<lambda>x. x > 32) w) mod col = rem mod col"
  using assms
proof (induction s arbitrary: rem w)
  case Nil
  then show ?case by (cases w) (auto split: if_splits)
next
  case (Cons c s)
  let ?rem = "(if rem = 0 then col else rem) - 1"
  have c: "32 < c" using Cons.prems(3) by simp
  then obtain w' where w: "w = c # w'" "(if ?rem = 0 then [10] else []) @ wrap col ?rem s = w' @ x # r"
    using Cons.prems(1,2) by (cases w) (auto simp: Let_def not_less [symmetric] split: if_splits)
  have step: "Suc ?rem mod col = rem mod col" using Cons.prems(4) by auto
  have "length (filter (\<lambda>x. x > 32) w') = length s \<or> length (filter (\<lambda>x. x > 32) w') mod col = ?rem mod col"
  proof (cases "?rem = 0 \<and> w' = []")
    case False
    then obtain v where v: "w' = (if ?rem = 0 then [10] else []) @ v" "wrap col ?rem s = v @ x # r"
      using w(2) by (cases w') (auto split: if_splits)
    have "length (filter (\<lambda>x. x > 32) v) = length s \<or> length (filter (\<lambda>x. x > 32) v) mod col = ?rem mod col"
      by (rule Cons.IH [OF v(2) Cons.prems(2)]) (use Cons.prems in auto)
    then show ?thesis by (auto simp: v(1))
  qed simp
  then show ?case using c step by (auto simp: w(1)) (metis mod_Suc_eq)+
qed

lemma negative_exit: "exit_char EOF_byte < 0" "exit_char (EOF_byte OR BASE64_32) < 0" "exit_char (BASE64_FLAG_UU_STOP OR BASE64_FLAG_NO_STOP_CHAR) < 0"
  by (simp_all add: exit_char_def EOF_byte_def BASE64_32_def BASE64_FLAG_UU_STOP_def BASE64_FLAG_NO_STOP_CHAR_def)

lemma decoder_of_flags: "decode_text EOF_byte = decode_base64" "decode_text (EOF_byte OR BASE64_32) = decode_base32"
  "decode_text (BASE64_FLAG_UU_STOP OR BASE64_FLAG_NO_STOP_CHAR) = decode_base64"
  by (simp_all add: decode_text_def EOF_byte_def BASE64_32_def BASE64_FLAG_UU_STOP_def BASE64_FLAG_NO_STOP_CHAR_def fun_eq_iff)

lemma visible_lines: "filter (\<lambda>x. x > 32) (base_lines base32 col rem bs) = base_text base32 bs"
proof -
  have "\<forall>x \<in> set (base_text base32 bs). x > 32" using base_text_visible by blast
  then show ?thesis by (simp add: base_lines_def visible_wrap)
qed

text \<open>No line of the base64 encoder ends between two equals signs.\<close>

definition unsplit :: "nat \<Rightarrow> nat \<Rightarrow> bool" where
  "unsplit col n \<longleftrightarrow> col = 0 \<or> n mod 3 \<noteq> 1 \<or> (4 * ((n + 2) div 3) - 1) mod col \<noteq> 0"

lemma lines_ok64:
  assumes "unsplit col (length bs)"
  shows "base64.body_ok [] (base_lines False col 0 bs) bs"
  unfolding base64.body_ok_def
proof (intro conjI allI impI notI)
  show "[] @ filter (\<lambda>x. x > 32) (base_lines False col 0 bs) = uu_text bb_uuenc_tbl_base64 bs"
    unfolding visible_lines by (simp add: base_text_def)
  fix w r :: bytes and x
  let ?k = "length ([] :: bytes) + length (filter (\<lambda>x. x > 32) w)"
  assume *: "base_lines False col 0 bs = w @ x # r" "x \<le> 32" "splits_pad bs ?k"
  have vis: "\<forall>x \<in> set (base_text False bs). x > 32" using base_text_visible by blast
  have bad: "length bs mod 3 = 1" "?k + 1 = 4 * ((length bs + 2) div 3)" using *(3) by (simp_all add: splits_pad_def len_simps)
  have "col \<noteq> 0"
  proof
    assume "col = 0"
    then have "x \<in> set (base_text False bs)" using *(1) by (simp add: base_lines_def)
    then show False using vis *(2) by auto
  qed
  moreover have "wrap col 0 (base_text False bs) = w @ x # r" using \<open>col \<noteq> 0\<close> *(1) by (simp add: base_lines_def)
  from wrap_newline [OF this *(2) vis] have "?k = length (base_text False bs) \<or> ?k mod col = 0" using \<open>col \<noteq> 0\<close> by simp
  moreover have "?k + 1 = length (base_text False bs)" using bad by (simp add: length_base_text encoded_size_def)
  ultimately have "?k mod col = 0" by linarith
  moreover have "?k = 4 * ((length bs + 2) div 3) - 1" using bad(2) by linarith
  ultimately show False using assms bad(1) \<open>col \<noteq> 0\<close> by (simp add: unsplit_def)
qed simp

lemma lines_ok32: "base32.body_ok [] (base_lines True col 0 bs) bs"
  unfolding base32.body_ok_def visible_lines by (simp add: base_text_def)

text \<open>
  \<^verbatim>\<open>base64 -d\<close> gives back the bytes from what \<^verbatim>\<open>base64 -w COL\<close> writes, unless a line ends between
  two equals signs.
\<close>

lemma base64_decodes_lines:
  assumes "unsplit col (length bs)"
  shows "read_base64 (base_lines False col 0 bs) EOF_byte = (bs, None)"
  using base64.read_decodes [OF lines_ok64 [OF assms], where flags = EOF_byte and ending = "[]" and dst = "[]"]
  by (simp add: read_base64_def base64.ending_ok_def negative_exit decoder_of_flags)

lemma base32_decodes_lines: "read_base64 (base_lines True col 0 bs) (EOF_byte OR BASE64_32) = (bs, None)"
  using base32.read_decodes [OF lines_ok32, where flags = "EOF_byte OR BASE64_32" and ending = "[]" and dst = "[]"]
  by (simp add: read_base64_def base32.ending_ok_def negative_exit decoder_of_flags)

lemma base64_roundtrip_run:
  assumes "length mem = dst_buf_size" "unsplit col (length data)"
  shows "baseNUM_main False False col mem (data, False) = (base_lines False col 0 data, None)
    \<and> baseNUM_main False True any_col any_mem (base_lines False col 0 data, err) = (data, None)"
  using assms base64_decodes_lines [of col data] baseNUM_encode_lines [of mem col 0 False data]
  by (simp add: baseNUM_main_def)

text \<open>
  C26. \<^verbatim>\<open>base64\<close> and \<^verbatim>\<open>base32\<close> write the text of RFC 4648, sections 4 and 6, in lines of the width of
  \<^verbatim>\<open>-w\<close>, whatever the length of the input and whatever the buffer held: encoding in place never
  overwrites a byte it has still to read, and the blocks of 480 bytes join without a seam.
\<close>

theorem base_encode_text:
  assumes "length mem = dst_buf_size"
  shows "baseNUM_main base32 False col mem (data, False) =
    ((let text = if base32 then b32_text data else uu_text bb_uuenc_tbl_base64 data in if col = 0 then text else wrap col 0 text), None)"
  using baseNUM_encode_lines [of mem col 0 base32 data] assms by (simp add: baseNUM_main_def base_lines_def base_text_def)

lemma base_encode_text_witness:
  "baseNUM_main False False 3 (replicate 800 0) ([65, 66, 67, 68], False) = (ascii ''QUJ'' @ [10] @ ascii ''DRA'' @ [10] @ ascii ''=='' @ [10], None)"
  using base_encode_text [of "replicate 800 0" False 3 "[65, 66, 67, 68]"]
  by (simp add: buffer_sizes uu_quad_def bb_uuenc_tbl_base64_def ascii_def)

text \<open>
  C27. \<^verbatim>\<open>base64 -d\<close> gives back every input from what \<^verbatim>\<open>base64 -w COL\<close> wrote for it, unless the input
  needs two equals signs and a line ends between them.
\<close>

theorem base64_roundtrip:
  assumes "length mem = dst_buf_size"
    and "col = 0 \<or> length data mod 3 \<noteq> 1 \<or> (4 * ((length data + 2) div 3) - 1) mod col \<noteq> 0"
  shows "baseNUM_main False True any_col any_mem (fst (baseNUM_main False False col mem (data, False)), err) = (data, None)"
  using base64_roundtrip_run [of mem col data] assms by (simp add: unsplit_def)

lemma base64_roundtrip_witness:
  "baseNUM_main False True 0 [] (fst (baseNUM_main False False 76 (replicate 800 0) ([65, 66], False)), False) = ([65, 66], None)"
  using base64_roundtrip [of "replicate 800 0" 76 "[65, 66]" 0 "[]" False] by (simp add: buffer_sizes)

text \<open>C28. \<^verbatim>\<open>base32 -d\<close> gives back every input from what \<^verbatim>\<open>base32 -w COL\<close> wrote for it.\<close>

theorem base32_roundtrip:
  assumes "length mem = dst_buf_size"
  shows "baseNUM_main True True any_col any_mem (fst (baseNUM_main True False col mem (data, False)), err) = (data, None)"
  using assms by (simp add: baseNUM_main_def baseNUM_encode_lines base32_decodes_lines)

lemma base32_roundtrip_witness:
  "baseNUM_main True True 0 [] (fst (baseNUM_main True False 1 (replicate 800 0) ([65], False)), False) = ([65], None)"
  using base32_roundtrip [of "replicate 800 0" 0 "[]" 1 "[65]" False] by (simp add: buffer_sizes)

text \<open>
  C29. The exception is real: \<^verbatim>\<open>base64 -w 3\<close> writes the letter A as the lines \<^verbatim>\<open>QQ=\<close> and \<^verbatim>\<open>=\<close>, which
  \<^verbatim>\<open>base64 -d\<close> decodes to nothing, without an error.
\<close>

theorem base64_split_padding:
  "fst (baseNUM_main False False 3 (replicate 800 0) ([65], False)) = ascii ''QQ='' @ [10] @ ascii ''='' @ [10] \<and>
    baseNUM_main False True 0 [] (ascii ''QQ='' @ [10] @ ascii ''='' @ [10], False) = ([], None)"
proof (intro conjI)
  have "baseNUM_encode False 3 0 (replicate 800 0) ([65], False) = (base_lines False 3 0 [65], None)"
    by (rule baseNUM_encode_lines) (simp_all add: buffer_sizes)
  then show "fst (baseNUM_main False False 3 (replicate 800 0) ([65], False)) = ascii ''QQ='' @ [10] @ ascii ''='' @ [10]"
    by (simp add: baseNUM_main_def base_lines_def base_text_def uu_quad_def bb_uuenc_tbl_base64_def ascii_def)
  show "baseNUM_main False True 0 [] (ascii ''QQ='' @ [10] @ ascii ''='' @ [10], False) = ([], None)"
  proof -
    have "decode_base64 [81, 81, 61] = ([], [81, 61])" "decode_base64 [81, 61, 61] = ([], [61])" "decode_base64 [61] = ([], [])"
      by (simp_all add: decode_base64_def decode_base64_loop.simps base64_value_def place64 Let_def)
    then have d: "decode_text 0xff [81, 81, 61] = ([], [81, 61])" "decode_text 0xff [81, 61, 61] = ([], [61])" "decode_text 0xff [61] = ([], [])"
      using decoder_of_flags(1) by (simp_all add: EOF_byte_def)
    show ?thesis
      by (simp add: baseNUM_main_def read_base64_def read_base64_loop.simps d exit_char_def EOF_byte_def EOF_def BUFFER_SIZE_def
          BASE64_FLAG_UU_STOP_def ascii_def)
  qed
qed

end
