(* ===== verification/Uu_Mail.thy ===== *)
theory Uu_Mail
  imports Uu_Roundtrip
begin

text \<open>
  What \<^verbatim>\<open>uuencode\<close> writes \<^verbatim>\<open>uudecode\<close> reads back: the name, the permission bits and every byte, in both
  formats. The decoder of the historical format works on the buffer of its line; it is verified
  there.
\<close>

section \<open>What uuencode writes\<close>

function uu_lines :: "bytes \<Rightarrow> bool \<Rightarrow> bytes \<Rightarrow> bytes" where
  "uu_lines tbl std data =
     (if data = [] then []
      else (let block = take 45 data
            in [10] @ (if std then [tbl ! length block] else []) @ uu_text tbl block @ uu_lines tbl std (drop 45 data)))"
  by pat_completeness auto
termination by (relation "measure (\<lambda>(tbl, std, data). length data)") auto

declare uu_lines.simps [simp del]

lemma uu_lines_Nil [simp]: "uu_lines tbl std [] = []"
  by (simp add: uu_lines.simps)

lemma uu_sizes: "uu_SRC_BUF_SIZE = 45" "uu_DST_BUF_SIZE = 60"
  by (simp_all add: uu_SRC_BUF_SIZE_def uu_DST_BUF_SIZE_def)

lemma uu_block_writes:
  fixes tbl :: bytes and mem block :: bytes
  assumes "length mem = 106" "length block \<le> 45"
  defines "mem' \<equiv> bb_uuencode (write_at 61 block mem) 0 61 (length block) tbl"
  shows "length mem' = 106" "take (4 * ((length block + 2) div 3)) mem' = uu_text tbl block"
proof -
  let ?m = "write_at 61 block mem" and ?n = "length block"
  have len: "length ?m = 106" using assms(1,2) by (simp add: len_simps)
  have src: "take ?n (drop 61 ?m) = block" using assms(1,2) by (simp add: write_at_def)
  have k: "(?n + 2) div 3 \<le> 15" using assms(2) by simp
  have "mem' = write_at 0 (uu_text tbl block @ [0]) ?m"
    using bb_uuencode_writes [of 61 ?n ?m 0 tbl] len src k assms(2) unfolding mem'_def by simp
  moreover have "length (uu_text tbl block) = 4 * ((?n + 2) div 3)" by (rule length_uu_text)
  ultimately show "length mem' = 106" "take (4 * ((?n + 2) div 3)) mem' = uu_text tbl block"
    using len k by (simp_all add: length_write_at) (simp_all add: write_at_def)
qed

lemma uuencode_loop_lines:
  "length mem = 106 \<Longrightarrow> uuencode_loop tbl std mem (data, False) = (uu_lines tbl std data, None)"
proof (induction "length data" arbitrary: data mem rule: less_induct)
  case less
  show ?case
  proof (cases "data = []")
    case True
    then show ?thesis by (subst uuencode_loop.simps) (simp add: full_read_def)
  next
    case False
    let ?block = "take 45 data" and ?mem = "bb_uuencode (write_at 61 (take 45 data) mem) 0 61 (length (take 45 data)) tbl"
    have m: "length ?mem = 106" "take (4 * ((length ?block + 2) div 3)) ?mem = uu_text tbl ?block"
      by (rule uu_block_writes; use less.prems in simp)+
    have "uuencode_loop tbl std ?mem (drop 45 data, False) = (uu_lines tbl std (drop 45 data), None)"
      using False m(1) by (intro less.hyps) simp_all
    moreover have "length ?block \<noteq> 0" using False by simp
    ultimately show ?thesis
      using False m(2) uu_lines.simps [of tbl std data]
      by (subst uuencode_loop.simps) (simp add: full_read_def uu_sizes Let_def del: length_take)
  qed
qed

section \<open>The first line\<close>

lemma octal_digit: "k < 8 \<Longrightarrow> digit_of (of_nat (48 + k)) = k \<and> of_nat (48 + k) \<noteq> (32 :: u8) \<and> of_nat (48 + k) \<noteq> (10 :: u8) \<and> of_nat (48 + k) \<noteq> (0 :: u8) \<and> bb_isalnum (of_nat (48 + k))"
proof -
  assume "k < 8"
  then consider "k = 0" | "k = 1" | "k = 2" | "k = 3" | "k = 4" | "k = 5" | "k = 6" | "k = 7" by linarith
  then show ?thesis by cases (simp_all add: digit_of_def bb_isdigit_def bb_isalnum_def)
qed

lemma octal_chars: "x \<in> set (octal n) \<Longrightarrow> x \<noteq> 32 \<and> x \<noteq> 10 \<and> x \<noteq> 0"
proof (induction n rule: octal.induct)
  case (1 n)
  have "n mod 8 < 8" by simp
  then show ?case
    using 1 octal_digit [of n] octal_digit [of "n mod 8"] by (subst (asm) octal.simps) (auto split: if_splits simp del: of_nat_add)
qed

lemma octal_first: "octal n \<noteq> [] \<and> bb_isalnum (first_char (octal n @ e))"
proof (induction n arbitrary: e rule: octal.induct)
  case (1 n)
  show ?case
  proof (cases "n < 8")
    case True
    then show ?thesis using octal_digit [of n] by (simp add: octal.simps del: of_nat_add)
  next
    case False
    then show ?thesis using 1 [of "[of_nat (48 + n mod 8)] @ e"] by (simp add: octal.simps [of n])
  qed
qed

lemma scan_octal: "scan_number 8 k (octal n @ e) = scan_number 8 (k * 8 ^ length (octal n) + n) e"
proof (induction n arbitrary: k e rule: octal.induct)
  case (1 n)
  show ?case
  proof (cases "n < 8")
    case True
    then show ?thesis using octal_digit [of n] by (simp add: octal.simps del: of_nat_add)
  next
    case False
    have "n mod 8 < 8" by simp
    then have "scan_number 8 (k * 8 ^ length (octal (n div 8)) + n div 8) (of_nat (48 + n mod 8) # e)
      = scan_number 8 ((k * 8 ^ length (octal (n div 8)) + n div 8) * 8 + n mod 8) e"
      using octal_digit [of "n mod 8"] by (simp del: of_nat_add)
    moreover have "(k * 8 ^ length (octal (n div 8)) + n div 8) * 8 + n mod 8 = k * 8 ^ Suc (length (octal (n div 8))) + n"
      using div_mult_mod_eq [of n 8] by (simp add: algebra_simps)
    moreover have "octal n = octal (n div 8) @ [of_nat (48 + n mod 8)]" using False by (simp add: octal.simps [of n] del: of_nat_add)
    ultimately show ?thesis using 1 [OF False, of k "of_nat (48 + n mod 8) # e"] by (simp only: append.assoc append_Cons append_Nil length_append list.size add_0_right add_Suc_right)
  qed
qed

lemma strtou_mode:
  assumes "n < 2 ^ 32"
  shows "fst (fst (bb_strtou (octal n @ 32 # name) 8)) = of_nat n"
proof -
  have "digit_of 32 = 99" by (simp add: digit_of_def bb_isdigit_def bb_isalnum_def)
  then have "scan_number 8 0 (octal n @ 32 # name) = (n, 32 # name)" by (simp add: scan_octal)
  then have run: "strtoull (octal n @ 32 # name) 8 = (of_nat n, 32 # name, False)" using assms by (simp add: strtoull_def)
  have u: "unat (of_nat n :: u64) = n" using assms by (simp add: unat_of_nat)
  then have cast: "ucast (of_nat n :: u64) = (of_nat n :: u32)" by (metis of_nat_unat)
  have "\<not> (0xffffffff :: u64) < of_nat n" unfolding word_less_nat_alt u using assms by simp
  then show ?thesis
    using octal_first [of n "32 # name"]
    by (simp add: bb_strtou_def run handle_errors_def bb_isalnum_def [of 32] cast)
qed

lemma strchr_here: "c \<notin> set xs \<Longrightarrow> strchr (xs @ c # s) c = Some (c # s)"
  by (induction xs) auto

lemma trim_plain: "name \<noteq> [] \<Longrightarrow> \<not> bb_isspace (hd name) \<Longrightarrow> \<not> bb_isspace (last name) \<Longrightarrow> trim name = name"
proof -
  assume *: "name \<noteq> []" "\<not> bb_isspace (hd name)" "\<not> bb_isspace (last name)"
  then have "dropWhile bb_isspace (rev name) = rev name" by (cases name rule: rev_cases) simp_all
  moreover have "dropWhile bb_isspace name = name" using * by (cases name) simp_all
  ultimately show ?thesis by (simp add: trim_def)
qed

section \<open>The lines of the historical format\<close>

text \<open>The stream behind the first line.\<close>

function uu_body :: "bytes \<Rightarrow> bool \<Rightarrow> bytes \<Rightarrow> bytes" where
  "uu_body tbl std data =
     (if data = [] then []
      else (let block = take 45 data
            in (if std then [tbl ! length block] else []) @ uu_text tbl block @ [10] @ uu_body tbl std (drop 45 data)))"
  by pat_completeness auto
termination by (relation "measure (\<lambda>(tbl, std, data). length data)") auto

declare uu_body.simps [simp del]

lemma uu_body_Nil [simp]: "uu_body tbl std [] = []"
  by (simp add: uu_body.simps)

lemma uu_lines_body: "uu_lines tbl std data @ [10] = 10 # uu_body tbl std data"
proof (induction tbl std data rule: uu_body.induct)
  case (1 tbl std data)
  then show ?case
    by (cases "data = []") (simp_all add: uu_lines.simps [of tbl std data] uu_body.simps [of tbl std data] Let_def)
qed

lemma fgets_line:
  "\<forall>x \<in> set line. x \<noteq> 10 \<Longrightarrow> length acc + length line < maxsz \<Longrightarrow>
    fgets_internal [10] False maxsz sz acc (line @ 10 # rest) = (Some (acc @ line @ [10]), rest)"
  by (induction line arbitrary: acc sz) (simp_all add: Let_def)

lemma fgets_here:
  "\<forall>x \<in> set line. x \<noteq> 10 \<Longrightarrow> length line < 64 * 1024 \<Longrightarrow> xmalloc_fgets_str_len (line @ 10 # rest) [10] (64 * 1024) = (Some (line @ [10]), rest)"
  using fgets_line [of line "[]" "64 * 1024" 0 rest] by (simp add: xmalloc_fgets_str_len_def)

text \<open>The six-bit digits of a block, as the line buffer holds them.\<close>

definition six_bits :: bytes where
  "six_bits = map of_nat [0..<64]"

lemma nth_six_bits: "k < 64 \<Longrightarrow> six_bits ! k = of_nat k"
  by (simp add: six_bits_def)

lemma std_digit: "k < 65 \<Longrightarrow> (bb_uuenc_tbl_std ! k - 0x20) AND 0x3f = (of_nat (k mod 64) :: u8)"
proof -
  have "list_all (\<lambda>k. (bb_uuenc_tbl_std ! k - 0x20) AND 0x3f = (of_nat (k mod 64) :: u8)) [0..<65]"
    by (simp add: upt_rec bb_uuenc_tbl_std_def ascii_def)
  then show "k < 65 \<Longrightarrow> ?thesis" by (simp add: list_all_iff)
qed

lemma std_64: "(bb_uuenc_tbl_std ! 64 - 0x20) AND 0x3f = 0"
  using std_digit [of 64] by simp

lemma table_std: "x \<in> set bb_uuenc_tbl_std \<Longrightarrow> 32 < x \<and> x \<le> 96" "length bb_uuenc_tbl_std = 65"
  by (auto simp: bb_uuenc_tbl_std_def ascii_def)

lemma quad_index:
  fixes a b c :: u8
  shows "unat a div 4 < 64" "unat a mod 4 * 16 + unat b div 16 < 64" "unat b mod 16 * 4 + unat c div 64 < 64" "unat c mod 64 < 64"
proof -
  have "unat a < 256" "unat b < 256" "unat c < 256" by (rule u8_less)+
  then have "unat a div 4 < 64" "unat a mod 4 \<le> 3" "unat b div 16 \<le> 15" "unat b mod 16 \<le> 15" "unat c div 64 \<le> 3"
    by (simp_all add: less_Suc_eq_le [symmetric] div_less_iff_less_mult)
  then show "unat a div 4 < 64" "unat a mod 4 * 16 + unat b div 16 < 64" "unat b mod 16 * 4 + unat c div 64 < 64" "unat c mod 64 < 64"
    by (linarith | simp)+
qed

lemma quad_digits:
  fixes a b c :: u8
  shows "map (\<lambda>c. (c - 0x20) AND 0x3f) (uu_quad bb_uuenc_tbl_std (unat a) (unat b) (unat c)) = uu_quad six_bits (unat a) (unat b) (unat c)"
  using quad_index(1) [of a] quad_index(2) [of a b] quad_index(3) [of b c] quad_index(4) [of c] by (simp add: uu_quad_def std_digit nth_six_bits)

lemma text_digits: "map (\<lambda>c. (c - 0x20) AND 0x3f) (uu_text bb_uuenc_tbl_std xs) = uu_groups six_bits xs"
proof (induction six_bits xs rule: uu_groups.induct)
  case (2 a)
  have "uu_quad six_bits (unat a) 0 0 = take 2 (uu_quad six_bits (unat a) 0 0) @ [0, 0]"
    by (simp add: uu_quad_def nth_six_bits)
  then show ?case using quad_digits [of a 0 0] std_64 by (simp flip: take_map)
next
  case (3 a b)
  have "uu_quad six_bits (unat a) (unat b) 0 = take 3 (uu_quad six_bits (unat a) (unat b) 0) @ [0]"
    by (simp add: uu_quad_def nth_six_bits)
  then show ?case using quad_digits [of a b 0] std_64 by (simp flip: take_map)
next
  case (4 a b c xs)
  then show ?case using quad_digits [of a b c] by simp
qed simp

text \<open>Three bytes from four digits.\<close>

lemma merge_digits:
  fixes a b c :: u8
  defines "q \<equiv> uu_quad six_bits (unat a) (unat b) (unat c)"
  shows "push_bit 2 (q ! 0) OR drop_bit 4 (q ! 1) = a" "push_bit 4 (q ! 1) OR drop_bit 2 (q ! 2) = b" "push_bit 6 (q ! 2) OR q ! 3 = c"
proof -
  note i = quad_index(1) [of a] quad_index(2) [of a b] quad_index(3) [of b c] quad_index(4) [of c]
  have q: "q ! 0 = of_nat (unat a div 4)" "q ! 1 = of_nat (unat a mod 4 * 16 + unat b div 16)"
    "q ! 2 = of_nat (unat b mod 16 * 4 + unat c div 64)" "q ! 3 = of_nat (unat c mod 64)"
    using i by (simp_all add: q_def uu_quad_def nth_six_bits del: of_nat_add of_nat_mult of_nat_mod of_nat_div)
  have drop: "drop_bit n (of_nat m :: u8) = of_nat (m div 2 ^ n)" if "m < 64" for m n
    using byte_of [where 'a = 8, of m n] that by simp
  have d: "drop_bit 4 (q ! 1) = of_nat (unat a mod 4)" "drop_bit 2 (q ! 2) = of_nat (unat b mod 16)"
  proof -
    have "unat b div 16 < 16" "unat c div 64 < 4" using u8_less [of b] u8_less [of c] by simp_all
    then have "(unat a mod 4 * 16 + unat b div 16) div 16 = unat a mod 4" "(unat b mod 16 * 4 + unat c div 64) div 4 = unat b mod 16"
      by simp_all
    then show "drop_bit 4 (q ! 1) = of_nat (unat a mod 4)" "drop_bit 2 (q ! 2) = of_nat (unat b mod 16)"
      unfolding q using drop [OF i(2), of 4] drop [OF i(3), of 2] by (simp_all del: of_nat_add of_nat_mult of_nat_mod of_nat_div)
  qed
  have "push_bit 2 (of_nat (unat a div 4) :: u8) OR of_nat (unat a mod 4) = of_nat (unat a div 4 * 2 ^ 2 + unat a mod 4)"
    by (rule push_or_nat) simp_all
  then show "push_bit 2 (q ! 0) OR drop_bit 4 (q ! 1) = a"
    unfolding d unfolding q by (simp only: power2_eq_square) (simp del: of_nat_add of_nat_mult of_nat_mod of_nat_div)
  have "push_bit 4 (of_nat (unat a mod 4 * 16 + unat b div 16) :: u8) OR of_nat (unat b mod 16) = of_nat ((unat a mod 4 * 16 + unat b div 16) * 2 ^ 4 + unat b mod 16)"
    by (rule push_or_nat) simp_all
  moreover have "((unat a mod 4 * 16 + unat b div 16) * 2 ^ 4 + unat b mod 16) mod 256 = unat b"
  proof -
    have "(unat a mod 4 * 16 + unat b div 16) * 2 ^ 4 + unat b mod 16 = unat b + unat a mod 4 * 256"
      using div_mult_mod_eq [of "unat b" 16] by simp
    then show ?thesis using u8_less [of b] by simp
  qed
  ultimately show "push_bit 4 (q ! 1) OR drop_bit 2 (q ! 2) = b"
    unfolding d unfolding q using of_nat_byte by metis
  have "push_bit 6 (of_nat (unat b mod 16 * 4 + unat c div 64) :: u8) OR of_nat (unat c mod 64) = of_nat ((unat b mod 16 * 4 + unat c div 64) * 2 ^ 6 + unat c mod 64)"
    by (rule push_or_nat) simp_all
  moreover have "((unat b mod 16 * 4 + unat c div 64) * 2 ^ 6 + unat c mod 64) mod 256 = unat c"
  proof -
    have "(unat b mod 16 * 4 + unat c div 64) * 2 ^ 6 + unat c mod 64 = unat c + unat b mod 16 * 256"
      using div_mult_mod_eq [of "unat c" 64] by simp
    then show ?thesis using u8_less [of c] by simp
  qed
  ultimately show "push_bit 6 (q ! 2) OR q ! 3 = c"
    unfolding q using of_nat_byte by metis
qed

text \<open>
  The loop in place: the bytes written stay behind the digits still to be read.
\<close>

lemma quad_at:
  assumes "drop p line = q @ rest" "length q = 4" "dst < p" "p + 4 \<le> length line"
  shows "line ! p = q ! 0" "line ! (p + 1) = q ! 1" "line ! (p + 2) = q ! 2" "line ! (p + 3) = q ! 3"
proof -
  have "line ! (p + i) = q ! i" if "i < 4" for i
    using assms that by (metis add_leD1 nth_append nth_drop)
  from this [of 0] this [of 1] this [of 2] this [of 3] show "line ! p = q ! 0" "line ! (p + 1) = q ! 1" "line ! (p + 2) = q ! 2" "line ! (p + 3) = q ! 3"
    by simp_all
qed

lemma one_byte:
  fixes a b c :: u8
  assumes "drop p line = uu_quad six_bits (unat a) (unat b) (unat c) @ rest" "dst < p" "p + 4 \<le> length line"
  shows "stduu_loop line dst p 1 = (line[dst := a], dst + 1)"
  using quad_at [OF assms(1) length_uu_quad assms(2,3)] merge_digits(1) [of a b c]
  by (subst stduu_loop.simps) (simp add: Let_def)

lemma two_bytes:
  fixes a b c :: u8
  assumes "drop p line = uu_quad six_bits (unat a) (unat b) (unat c) @ rest" "dst < p" "p + 4 \<le> length line"
  shows "stduu_loop line dst p 2 = (line[dst := a, dst + 1 := b], dst + 2)"
  using quad_at [OF assms(1) length_uu_quad assms(2,3)] merge_digits(1) [of a b c] merge_digits(2) [of a b c] assms(2)
  by (subst stduu_loop.simps) (simp add: Let_def)

lemma three_bytes:
  fixes a b c :: u8
  assumes "drop p line = uu_quad six_bits (unat a) (unat b) (unat c) @ rest" "dst < p" "p + 4 \<le> length line"
  defines "line' \<equiv> line[dst := a, dst + 1 := b, dst + 2 := c]"
  shows "stduu_loop line dst p (int n + 4) = (if n = 0 then (line', dst + 3) else stduu_loop line' (dst + 3) (p + 4) (int n))"
  using quad_at [OF assms(1) length_uu_quad assms(2,3)] merge_digits [of a b c] assms(2)
  by (subst stduu_loop.simps) (simp add: Let_def line'_def add.commute numeral_3_eq_3)

lemma encoded_len_less: "0 < n \<Longrightarrow> 0 < int (n * 4 div 3)"
  by simp

lemma stduu_loop_decodes:
  assumes "xs \<noteq> []" "dst < p" "drop p line = uu_groups six_bits xs @ rest"
  obtains line' where "stduu_loop line dst p (int (length xs * 4 div 3)) = (line', dst + length xs)"
    "take (dst + length xs) line' = take dst line @ xs"
  using assms
proof (induction six_bits xs arbitrary: dst p line thesis rule: uu_groups.induct)
  case 1
  then show ?case by simp
next
  case (2 a)
  have "length (drop p line) = 4 + length rest" unfolding 2(4) by (simp add: len_simps)
  then have len: "p + 4 \<le> length line" by simp
  have "stduu_loop line dst p 1 = (line[dst := a], dst + 1)"
    using one_byte [of p line a 0 0 rest dst] 2(3,4) len by simp
  then show ?case using 2(1) 2(3) len by (simp add: take_Suc_conv_app_nth)
next
  case (3 a b)
  have "length (drop p line) = 4 + length rest" unfolding 3(4) by (simp add: len_simps)
  then have len: "p + 4 \<le> length line" by simp
  have "stduu_loop line dst p 2 = (line[dst := a, dst + 1 := b], dst + 2)"
    using two_bytes [of p line a b 0 rest dst] 3(3,4) len by simp
  then show ?case using 3(1) 3(3) len by (simp add: take_Suc_conv_app_nth)
next
  case (4 a b c xs)
  let ?q = "uu_quad six_bits (unat a) (unat b) (unat c)" and ?line = "line[dst := a, dst + 1 := b, dst + 2 := c]"
  have d: "drop p line = ?q @ uu_groups six_bits xs @ rest" using 4(5) by simp
  then have "length (drop p line) = 4 + length (uu_groups six_bits xs @ rest)" by (simp add: len_simps)
  then have len: "p + 4 \<le> length line" by simp
  have "length (a # b # c # xs) * 4 div 3 = length xs * 4 div 3 + 4"
    using div_add_self1 [of 3 "length xs * 4 + 9"] by simp
  then have e: "int (length (a # b # c # xs) * 4 div 3) = int (length xs * 4 div 3) + 4" by simp
  note run = three_bytes [OF d 4(4) len, of "length xs * 4 div 3"]
  have t: "take (dst + 3) ?line = take dst line @ [a, b, c]"
    using 4(4) len by (simp add: numeral_3_eq_3 take_Suc_conv_app_nth)
  show ?case
  proof (cases "xs = []")
    case True
    have l: "length (a # b # c # xs) = 3" using True by simp
    show ?thesis by (rule 4(2) [of ?line]; (unfold e)?; unfold run l t; simp add: True)
  next
    case False
    have "drop (p + 4) ?line = drop (p + 4) line" using 4(4) by simp
    also have "\<dots> = drop 4 (drop p line)" by (simp add: add.commute)
    also have "\<dots> = uu_groups six_bits xs @ rest" unfolding d by (simp add: len_simps)
    finally have rest: "drop (p + 4) ?line = uu_groups six_bits xs @ rest" .
    have "dst + 3 < p + 4" using 4(4) by simp
    obtain line' where "stduu_loop ?line (dst + 3) (p + 4) (int (length xs * 4 div 3)) = (line', dst + 3 + length xs)"
      "take (dst + 3 + length xs) line' = take (dst + 3) ?line @ xs"
      using 4(1) [OF _ False \<open>dst + 3 < p + 4\<close> rest] by blast
    moreover have "length xs * 4 div 3 \<noteq> 0" using encoded_len_less [of "length xs"] False by simp
    moreover have "dst + length (a # b # c # xs) = dst + 3 + length xs" by simp
    ultimately show ?thesis using run t by (intro 4(2) [of line']) (simp_all only: e if_False append.assoc append_Cons append_Nil)
  qed
qed

lemma stduu_line_decodes:
  assumes "xs \<noteq> []" "length xs \<le> 45"
  shows "stduu_line (bb_uuenc_tbl_std ! length xs # uu_text bb_uuenc_tbl_std xs @ [10]) = Uu_data xs"
proof -
  let ?n = "length xs" and ?t = "uu_text bb_uuenc_tbl_std xs" and ?line = "bb_uuenc_tbl_std ! length xs # uu_text bb_uuenc_tbl_std xs"
  have std: "32 < x \<and> x \<le> 96" if "x \<in> set ?line" for x
    using that uu_text_chars [OF table_std(2), of xs] assms(2) table_std nth_mem [of ?n bb_uuenc_tbl_std] by auto
  then have "x \<noteq> 0 \<and> x \<noteq> 10 \<and> x \<noteq> 13" if "x \<in> set ?line" for x using that by fastforce
  then have plain: "\<forall>x \<in> set ?line. x \<noteq> 0 \<and> x \<noteq> 10 \<and> x \<noteq> 13" by blast
  have "dropWhile (\<lambda>c. c = 10 \<or> c = 13) l = l" if "\<forall>x \<in> set l. x \<noteq> 0 \<and> x \<noteq> 10 \<and> x \<noteq> 13" for l :: bytes
    using that by (cases l) auto
  from this [of "rev ?line"] have "dropWhile (\<lambda>c. c = 10 \<or> c = 13) (rev ?line) = rev ?line" using plain by simp
  then have "strip_crlf (?line @ [10]) = ?line" by simp
  moreover have "c_string ?line = ?line" using plain unfolding c_string_def by (simp only: takeWhile_eq_all_conv) blast
  moreover have "?line \<noteq> ascii ''end''" using std [of "bb_uuenc_tbl_std ! ?n"] by (auto simp: ascii_def)
  moreover have "(bb_uuenc_tbl_std ! ?n - 0x20) AND 0x3f = of_nat ?n" using std_digit [of ?n] assms(2) by simp
  moreover have "unat (of_nat ?n :: u8) = ?n" using assms(2) by (simp add: unat_of_nat)
  moreover note text_digits [of xs]
  moreover have "length (uu_groups six_bits xs) = 4 * ((?n + 2) div 3)" by (rule length_uu_groups)
  moreover have "?n * 4 div 3 \<le> 4 * ((?n + 2) div 3)" "?n * 4 div 3 \<le> 60" "0 < ?n * 4 div 3"
  proof -
    have "3 * ((?n + 2) div 3) \<ge> ?n" using div_mult_mod_eq [of "?n + 2" 3] mod_less_divisor [of 3 "?n + 2"] by linarith
    then have "?n * 4 div 3 \<le> 4 * (3 * ((?n + 2) div 3)) div 3" by (intro div_le_mono) simp
    then show "?n * 4 div 3 \<le> 4 * ((?n + 2) div 3)" by (metis mult.left_commute nonzero_mult_div_cancel_left zero_neq_numeral)
    show "?n * 4 div 3 \<le> 60" using assms(2) div_le_mono [of "?n * 4" 180 3] by simp
    show "0 < ?n * 4 div 3" using assms(1) encoded_len_less [of ?n] by simp
  qed
  moreover obtain line' where "stduu_loop (of_nat ?n # uu_groups six_bits xs @ [0]) 0 1 (int (?n * 4 div 3)) = (line', 0 + ?n)"
      "take (0 + ?n) line' = take 0 (of_nat ?n # uu_groups six_bits xs @ [0]) @ xs"
    by (rule stduu_loop_decodes [OF assms(1), of 0 1 "of_nat ?n # uu_groups six_bits xs @ [0]" "[0]"]) simp_all
  ultimately show ?thesis by (simp add: stduu_line_def Let_def)
qed

section \<open>Decoding\<close>

lemma read_stduu_body:
  "read_stduu dst (uu_body bb_uuenc_tbl_std True data @ [0x60, 10] @ ascii ''end'' @ [10]) = (dst @ data, None)"
proof (induction "length data" arbitrary: data dst rule: less_induct)
  case less
  show ?case
  proof (cases "data = []")
    case True
    have end': "stduu_line (ascii ''end'' @ [10]) = Uu_end"
      by (simp add: stduu_line_def ascii_def c_string_def)
    have "stduu_line [0x60, 10] = Uu_data []"
      by (simp add: stduu_line_def c_string_def ascii_def)
    moreover have "xmalloc_fgets_str_len ([0x60] @ 10 # ascii ''end'' @ [10]) [10] (64 * 1024) = (Some ([0x60] @ [10]), ascii ''end'' @ [10])"
      by (rule fgets_here) simp_all
    moreover have "xmalloc_fgets_str_len (ascii ''end'' @ 10 # []) [10] (64 * 1024) = (Some (ascii ''end'' @ [10]), [])"
      by (rule fgets_here) (simp_all add: ascii_def)
    ultimately show ?thesis
      using True end' read_stduu.simps [of dst "[0x60] @ 10 # ascii ''end'' @ [10]"] read_stduu.simps [of dst "ascii ''end'' @ 10 # []"] by simp
  next
    case False
    let ?block = "take 45 data" and ?ending = "[0x60, 10] @ ascii ''end'' @ [10]"
    let ?line = "bb_uuenc_tbl_std ! length ?block # uu_text bb_uuenc_tbl_std ?block"
    have chars: "set ?line \<subseteq> set bb_uuenc_tbl_std"
      using uu_text_chars [OF table_std(2), of ?block] table_std(2) by (auto intro!: nth_mem)
    have "10 \<notin> set bb_uuenc_tbl_std" using table_std(1) [of 10] by auto
    then have plain: "\<forall>x \<in> set ?line. x \<noteq> 10" using chars by blast
    have "(length ?block + 2) div 3 \<le> 47 div 3" by (rule div_le_mono) simp
    then have len: "length ?line < 64 * 1024" by (simp add: length_uu_text del: length_take)
    have "stduu_line (?line @ [10]) = Uu_data ?block"
      using stduu_line_decodes [of ?block] False by simp
    moreover note fgets_here [OF plain len, of "uu_body bb_uuenc_tbl_std True (drop 45 data) @ ?ending"]
    moreover have "read_stduu (dst @ ?block) (uu_body bb_uuenc_tbl_std True (drop 45 data) @ ?ending) = ((dst @ ?block) @ drop 45 data, None)"
      using False by (intro less.hyps) simp
    moreover have "uu_body bb_uuenc_tbl_std True data @ ?ending = ?line @ 10 # uu_body bb_uuenc_tbl_std True (drop 45 data) @ ?ending"
      using False by (simp add: uu_body.simps [of _ _ data] Let_def)
    ultimately show ?thesis
      unfolding read_stduu.simps [of dst "uu_body bb_uuenc_tbl_std True data @ ?ending"] by simp
  qed
qed

text \<open>The base64 body: lines of whole groups.\<close>

lemma block_text:
  "uu_text tbl (take 45 data) @ uu_text tbl (drop 45 data) = uu_text tbl data"
proof (cases "length data < 45")
  case False
  then have "3 dvd length (take 45 data)" by simp
  from uu_text_append [OF this, of tbl "drop 45 data"] show ?thesis by simp
qed simp

lemma body_visible: "filter (\<lambda>x. x > 32) (uu_body bb_uuenc_tbl_base64 False data) = uu_text bb_uuenc_tbl_base64 data"
proof (induction "length data" arbitrary: data rule: less_induct)
  case less
  have "filter (\<lambda>x. x > 32) (uu_text bb_uuenc_tbl_base64 xs) = uu_text bb_uuenc_tbl_base64 xs" for xs
    using base64.visible by (simp add: filter_id_conv)
  moreover have "data \<noteq> [] \<Longrightarrow> filter (\<lambda>x. x > 32) (uu_body bb_uuenc_tbl_base64 False (drop 45 data)) = uu_text bb_uuenc_tbl_base64 (drop 45 data)"
    by (rule less.hyps) simp
  ultimately show ?case
    using block_text [of bb_uuenc_tbl_base64 data] by (cases "data = []") (simp_all add: uu_body.simps [of _ _ data] Let_def)
qed

lemma body_breaks:
  "uu_body bb_uuenc_tbl_base64 False data = w @ x # r \<Longrightarrow> x \<le> 32 \<Longrightarrow> 4 dvd length (filter (\<lambda>x. x > 32) w)"
proof (induction "length data" arbitrary: data w rule: less_induct)
  case less
  then have ne: "data \<noteq> []" by auto
  let ?t = "uu_text bb_uuenc_tbl_base64 (take 45 data)" and ?b = "uu_body bb_uuenc_tbl_base64 False (drop 45 data)"
  have vis: "\<forall>y \<in> set ?t. y > 32" using base64.visible by blast
  then have t: "filter (\<lambda>x. x > 32) ?t = ?t" "4 dvd length ?t" by (simp_all add: length_uu_text)
  have "w @ x # r = ?t @ 10 # ?b" using less.prems(1) ne by (simp add: uu_body.simps [of _ _ data] Let_def)
  then consider us where "w = ?t @ us" "us @ x # r = 10 # ?b" | us where "?t = w @ us" "x # r = us @ 10 # ?b"
    by (auto simp: append_eq_append_conv2 dest: sym)
  then show ?case
  proof cases
    case (1 us)
    show ?thesis
    proof (cases us)
      case Nil
      then show ?thesis using 1 t by simp
    next
      case (Cons u us')
      then have "?b = us' @ x # r" "u = 10" using 1(2) by simp_all
      then have "4 dvd length (filter (\<lambda>x. x > 32) us')" using less.prems(2) ne by (intro less.hyps) simp_all
      then show ?thesis using 1(1) t \<open>u = 10\<close> Cons by simp
    qed
  next
    case (2 us)
    then have "us = []" using vis less.prems(2) by (cases us) (auto simp: not_less [symmetric])
    then show ?thesis using 2(1) t by simp
  qed
qed

lemma body_last: "data \<noteq> [] \<Longrightarrow> last (uu_body tbl False data) = 10"
proof (induction "length data" arbitrary: data rule: less_induct)
  case less
  then show ?case using less.hyps [of "drop 45 data"] by (cases "drop 45 data = []") (simp_all add: uu_body.simps [of _ _ data] Let_def)
qed

lemma read_base64_body:
  "read_base64 (uu_body bb_uuenc_tbl_base64 False data @ ascii ''===='' @ [10]) (BASE64_FLAG_UU_STOP OR BASE64_FLAG_NO_STOP_CHAR) = (data, None)"
proof -
  let ?flags = "BASE64_FLAG_UU_STOP OR BASE64_FLAG_NO_STOP_CHAR" and ?body = "uu_body bb_uuenc_tbl_base64 False data"
  have "base64.body_ok [] ?body data"
    unfolding base64.body_ok_def
  proof (intro conjI allI impI)
    fix w x r
    assume "?body = w @ x # r" "x \<le> 32"
    from body_breaks [OF this] show "\<not> splits_pad data (length [] + length (filter (\<lambda>x. x > 32) w))"
      using base64.cut_in_group by auto
  qed (simp_all add: body_visible)
  moreover have "?flags AND BASE64_FLAG_UU_STOP \<noteq> 0" by (simp add: BASE64_FLAG_UU_STOP_def BASE64_FLAG_NO_STOP_CHAR_def)
  then have "base64.ending_ok ?flags [] ?body (ascii ''===='' @ [10])"
    unfolding base64.ending_ok_def using body_last [of data] by (cases "data = []") auto
  ultimately show ?thesis
    using base64.read_decodes [of "[]" ?body data ?flags "ascii ''===='' @ [10]" "[]"]
    by (simp add: read_base64_def negative_exit decoder_of_flags)
qed

section \<open>There and back\<close>

lemma prefixed_append [simp]: "is_prefixed_with (key @ s) key = Some s"
  by (induction key) auto

lemma mode_bits: "mode < 512 \<Longrightarrow> (of_nat mode :: u32) AND 0x1FF = of_nat mode"
proof -
  assume "mode < 512"
  then have "take_bit 9 (of_nat mode :: u32) = of_nat mode" by (simp add: take_bit_of_nat take_bit_nat_eq_self)
  then show ?thesis by (simp add: take_bit_eq_mask mask_eq_exp_minus_1)
qed

definition plain_name :: "bytes \<Rightarrow> bool" where
  "plain_name name \<longleftrightarrow> name \<noteq> [] \<and> (\<forall>x \<in> set name. x \<noteq> 0 \<and> x \<noteq> 10) \<and> \<not> bb_isspace (hd name) \<and> \<not> bb_isspace (last name)"

lemma decode_to_header:
  assumes "mode < 512" "plain_name name"
  shows "decode_to base64 None (octal mode @ 32 # name) src =
    Some (name, of_nat mode, if base64 then read_base64 src (BASE64_FLAG_UU_STOP OR BASE64_FLAG_NO_STOP_CHAR) else read_stduu [] src)"
proof -
  have "strchr (octal mode @ 32 # name) 32 = Some (32 # name)" using octal_chars by (intro strchr_here) blast
  moreover have "trim name = name" "name \<noteq> []" using assms(2) trim_plain by (auto simp: plain_name_def)
  moreover have "fst (fst (bb_strtou (octal mode @ 32 # name) 8)) = of_nat mode" using assms(1) by (intro strtou_mode) simp
  ultimately show ?thesis using mode_bits [OF assms(1)] by (simp add: decode_to_def)
qed

lemma uudecode_header:
  assumes "mode < 512" "plain_name name"
  shows "uudecode_main None (ascii ''begin'' @ (if m then ascii ''-base64'' else []) @ [32] @ octal mode @ [32] @ name @ 10 # src)
    = Inr (name, of_nat mode, if m then read_base64 src (BASE64_FLAG_UU_STOP OR BASE64_FLAG_NO_STOP_CHAR) else read_stduu [] src)"
proof -
  let ?pre = "ascii ''begin'' @ (if m then ascii ''-base64'' else []) @ [32]"
  let ?line = "?pre @ octal mode @ 32 # name"
  have "\<forall>x \<in> set ?pre. x \<noteq> 0 \<and> x \<noteq> 10" by (cases m) (simp_all add: ascii_def)
  then have plain: "\<forall>x \<in> set ?line. x \<noteq> 0 \<and> x \<noteq> 10" using octal_chars [of _ mode] assms(2) by (auto simp: plain_name_def)
  have get: "xmalloc_fgetline (?line @ 10 # src) = (Some ?line, src)" by (rule fgetline_here [OF plain])
  have pre: "is_prefixed_with ?line (ascii ''begin-base64 '') = (if m then Some (octal mode @ 32 # name) else None)"
    "\<not> m \<Longrightarrow> is_prefixed_with ?line (ascii ''begin '') = Some (octal mode @ 32 # name)"
    by (simp_all add: ascii_def)
  have "uudecode_main None (?line @ 10 # src)
    = Inr (name, of_nat mode, if m then read_base64 src (BASE64_FLAG_UU_STOP OR BASE64_FLAG_NO_STOP_CHAR) else read_stduu [] src)"
    unfolding uudecode_main.simps [of None "?line @ 10 # src"] get
    using pre decode_to_header [OF assms] by (cases m) simp_all
  then show ?thesis by simp
qed

text \<open>
  C30. \<^verbatim>\<open>uudecode\<close> gives back the name, the permission bits and every byte from what \<^verbatim>\<open>uuencode\<close>
  writes, in both formats, when the name has no blanks around it.
\<close>

theorem uudecode_uuencode:
  assumes "length mem = 106" "mode < 512" "plain_name name"
  shows "uudecode_main None (fst (uuencode_main m mode name mem (data, False))) = Inr (name, of_nat mode, data, None)"
proof -
  let ?tbl = "if m then bb_uuenc_tbl_base64 else bb_uuenc_tbl_std"
  let ?ending = "if m then ascii ''===='' @ [10] else [0x60, 10] @ ascii ''end'' @ [10]"
  have "fst (uuencode_main m mode name mem (data, False)) =
    ascii ''begin'' @ (if m then ascii ''-base64'' else []) @ [32] @ octal mode @ [32] @ name @ (uu_lines ?tbl (\<not> m) data @ [10]) @ ?ending"
    using uuencode_loop_lines [OF assms(1), of ?tbl "\<not> m" data] by (simp add: uuencode_main_def Let_def)
  then show ?thesis
    using uudecode_header [OF assms(2,3), of m "uu_body ?tbl (\<not> m) data @ ?ending"] read_base64_body [of data] read_stduu_body [of "[]" data]
    unfolding uu_lines_body by (cases m) simp_all
qed

theorem uudecode_uuencode_witness:
  "uudecode_main None (fst (uuencode_main False 420 (ascii ''a b'') (replicate 106 0) ([1, 2, 3, 4], False))) = Inr (ascii ''a b'', 420, [1, 2, 3, 4], None)"
  using uudecode_uuencode [of "replicate 106 0" 420 "ascii ''a b''" False "[1, 2, 3, 4]"]
  by (simp add: plain_name_def ascii_def bb_isspace_def)

end
