(* ===== verification/Curve25519.thy ===== *)
theory Curve25519
  imports Prelude
begin

text \<open>
  \<^verbatim>\<open>networking/tls_fe.c\<close>: the field of numbers modulo \<open>2\<^sup>2\<^sup>5\<^sup>5 - 19\<close> as arrays of 32 bytes, and the
  scalar multiplication of Curve25519 on it. An operation is a function of the arrays it reads; an
  array that the C code overwrites while it is also an operand is read before it is written. The
  32-bit carries keep their width.
\<close>

section \<open>The operations of the field\<close>

definition F25519_SIZE :: nat where "F25519_SIZE = 32"

definition lm_copy :: "bytes \<Rightarrow> bytes" where
  "lm_copy a = take F25519_SIZE a"

definition fe_select :: "bytes \<Rightarrow> bytes \<Rightarrow> u8 \<Rightarrow> bytes" where
  "fe_select zero one condition =
     (let msk = - condition in map2 (\<lambda>z n. z XOR (msk AND (n XOR z))) zero one)"

text \<open>The last loop of the operations: the carry \<open>c\<close> is added from the first byte on.\<close>

fun add_carry :: "u32 \<Rightarrow> bytes \<Rightarrow> bytes" where
  "add_carry c [] = []"
| "add_carry c (x # xs) = (let c = c + ucast x in ucast c # add_carry (drop_bit 8 c) xs)"

text \<open>The loop of \<^verbatim>\<open>fe_normalize\<close> that subtracts the prime, for the bytes up to the last but one.\<close>

fun sub_prime :: "u32 \<Rightarrow> bytes \<Rightarrow> bytes \<times> u32" where
  "sub_prime c [] = ([], c)"
| "sub_prime c (x # xs) =
     (let c = c + ucast x; (minusp, c') = sub_prime (drop_bit 8 c) xs in (ucast c # minusp, c'))"

definition fe_normalize :: "bytes \<Rightarrow> bytes" where
  "fe_normalize x =
     (let c = ucast (drop_bit 7 (x ! 31)) * 19 :: u32;
          x = x[31 := x ! 31 AND 127];
          x = add_carry c x;
          (minusp, c) = sub_prime 19 (take (F25519_SIZE - 1) x);
          c = c + (ucast (x ! 31) - 128);
          minusp = minusp @ [ucast c]
      in fe_select minusp x (ucast (drop_bit 15 c AND 1)))"

text \<open>
  Bits 255 and up of a result, in \<open>c\<close> from bit 7 on, are folded in times 19.
\<close>

definition fold_top :: "bytes \<Rightarrow> u32 \<Rightarrow> bytes" where
  "fold_top r c = add_carry (drop_bit 7 c * 19) (r[31 := r ! 31 AND 127])"

fun add_loop :: "u32 \<Rightarrow> bytes \<Rightarrow> bytes \<Rightarrow> bytes \<times> u32" where
  "add_loop c (a # as) (b # bs) =
     (let c = drop_bit 8 c + (ucast a + ucast b); (r, c') = add_loop c as bs in (ucast c # r, c'))"
| "add_loop c _ _ = ([], c)"

definition lm_add :: "bytes \<Rightarrow> bytes \<Rightarrow> bytes" where
  "lm_add a b = (let (r, c) = add_loop 0 a b in fold_top r c)"

fun sub_loop :: "u32 \<Rightarrow> bytes \<Rightarrow> bytes \<Rightarrow> bytes \<times> u32" where
  "sub_loop c (a # as) (b # bs) =
     (let c = c + (65280 + ucast a - ucast b); (r, c') = sub_loop (drop_bit 8 c) as bs in (ucast c # r, c'))"
| "sub_loop c _ _ = ([], c)"

definition lm_sub :: "bytes \<Rightarrow> bytes \<Rightarrow> bytes" where
  "lm_sub a b =
     (let (r, c) = sub_loop 218 (take (F25519_SIZE - 1) a) (take (F25519_SIZE - 1) b);
          c = c + (ucast (a ! 31) - ucast (b ! 31))
      in add_carry (drop_bit 7 c * 19) (r @ [ucast (c AND 127)]))"

text \<open>One byte of a product: the two inner loops of \<^verbatim>\<open>fe_mul__distinct\<close>.\<close>

definition mul_column :: "bytes \<Rightarrow> bytes \<Rightarrow> nat \<Rightarrow> u32 \<Rightarrow> u32" where
  "mul_column a b i c =
     (let c = foldl (\<lambda>c j. c + ucast (a ! j) * ucast (b ! (i - j))) c [0..<Suc i]
      in foldl (\<lambda>c j. c + ucast (a ! j) * ucast (b ! (i + F25519_SIZE - j)) * 38) c [Suc i..<F25519_SIZE])"

fun mul_loop :: "bytes \<Rightarrow> bytes \<Rightarrow> nat list \<Rightarrow> u32 \<Rightarrow> bytes \<times> u32" where
  "mul_loop a b [] c = ([], c)"
| "mul_loop a b (i # is) c =
     (let c = mul_column a b i (drop_bit 8 c); (r, c') = mul_loop a b is c in (ucast c # r, c'))"

definition fe_mul__distinct :: "bytes \<Rightarrow> bytes \<Rightarrow> bytes" where
  "fe_mul__distinct a b = (let (r, c) = mul_loop a b [0..<F25519_SIZE] 0 in fold_top r c)"

fun mul_c_loop :: "u32 \<Rightarrow> u32 \<Rightarrow> bytes \<Rightarrow> bytes \<times> u32" where
  "mul_c_loop b c [] = ([], c)"
| "mul_c_loop b c (a # as) =
     (let c = drop_bit 8 c + b * ucast a; (r, c') = mul_c_loop b c as in (ucast c # r, c'))"

definition fe_mul_c :: "bytes \<Rightarrow> u32 \<Rightarrow> bytes" where
  "fe_mul_c a b = (let (r, c) = mul_c_loop b 0 a in fold_top r c)"

text \<open>The inverse: \<open>n\<close> times squared and multiplied, and the digits \<open>01011\<close> at the end.\<close>

fun inv_loop :: "nat \<Rightarrow> bytes \<Rightarrow> bytes \<Rightarrow> bytes" where
  "inv_loop 0 x r = r"
| "inv_loop (Suc n) x r = (let s = fe_mul__distinct r r; r = fe_mul__distinct s x in inv_loop n x r)"

definition fe_inv__distinct :: "bytes \<Rightarrow> bytes" where
  "fe_inv__distinct x =
     (let s = fe_mul__distinct x x; r = fe_mul__distinct s x;
          r = inv_loop 248 x r;
          s = fe_mul__distinct r r;
          r = fe_mul__distinct s s; s = fe_mul__distinct r x;
          r = fe_mul__distinct s s;
          s = fe_mul__distinct r r; r = fe_mul__distinct s x;
          s = fe_mul__distinct r r; r = fe_mul__distinct s x
      in r)"

section \<open>Points by their X coordinate\<close>

definition xc_diffadd :: "bytes \<Rightarrow> bytes \<Rightarrow> bytes \<Rightarrow> bytes \<Rightarrow> bytes \<Rightarrow> bytes \<Rightarrow> bytes \<times> bytes" where
  "xc_diffadd x1 z1 x2 z2 x3 z3 =
     (let a = lm_add x2 z2;
          b = lm_sub x3 z3;
          da = fe_mul__distinct a b;
          b = lm_sub x2 z2;
          a = lm_add x3 z3;
          cb = fe_mul__distinct a b;
          a = lm_add da cb;
          b = fe_mul__distinct a a;
          x5 = fe_mul__distinct z1 b;
          a = lm_sub da cb;
          b = fe_mul__distinct a a;
          z5 = fe_mul__distinct x1 b
      in (x5, z5))"

definition xc_double :: "bytes \<Rightarrow> bytes \<Rightarrow> bytes \<times> bytes" where
  "xc_double x1 z1 =
     (let x1sq = fe_mul__distinct x1 x1;
          z1sq = fe_mul__distinct z1 z1;
          x1z1 = fe_mul__distinct x1 z1;
          a = lm_sub x1sq z1sq;
          x3 = fe_mul__distinct a a;
          a = fe_mul_c x1z1 486662;
          a = lm_add x1sq a;
          a = lm_add z1sq a;
          x1sq = fe_mul__distinct x1z1 a;
          z3 = fe_mul_c x1sq 4
      in (x3, z3))"

text \<open>The current point and its predecessor.\<close>

record ladder =
  xm :: bytes
  zm :: bytes
  xm1 :: bytes
  zm1 :: bytes

definition zero_fe :: bytes where "zero_fe = replicate F25519_SIZE 0"
definition f25519_one :: bytes where "f25519_one = zero_fe[0 := 1]"

definition ladder_start :: "bytes \<Rightarrow> ladder" where
  "ladder_start q = \<lparr>xm = lm_copy q, zm = f25519_one, xm1 = f25519_one, zm1 = zero_fe\<rparr>"

definition ladder_step :: "bytes \<Rightarrow> bytes \<Rightarrow> nat \<Rightarrow> ladder \<Rightarrow> ladder" where
  "ladder_step e q i z =
     (let bit = drop_bit (i AND 7) (e ! drop_bit 3 i) AND 1;
          (xm1', zm1') = xc_diffadd q f25519_one (xm z) (zm z) (xm1 z) (zm1 z);
          (xm', zm') = xc_double (xm z) (zm z);
          (xms, zms) = xc_diffadd xm1' zm1' xm' zm' q f25519_one
      in \<lparr>xm = fe_select xm' xms bit, zm = fe_select zm' zms bit,
          xm1 = fe_select xm1' xm' bit, zm1 = fe_select zm1' zm' bit\<rparr>)"

text \<open>The loop from bit \<open>n - 1\<close> down.\<close>

fun ladder_loop :: "bytes \<Rightarrow> bytes \<Rightarrow> nat \<Rightarrow> ladder \<Rightarrow> ladder" where
  "ladder_loop e q 0 z = z"
| "ladder_loop e q (Suc i) z = ladder_loop e q i (ladder_step e q i z)"

definition curve25519 :: "bytes \<Rightarrow> bytes \<Rightarrow> bytes" where
  "curve25519 e q =
     (let z = ladder_loop e q 254 (ladder_start q);
          zm1' = fe_inv__distinct (zm z)
      in fe_normalize (fe_mul__distinct zm1' (xm z)))"

end
