(* ===== verification/Curve25519_Field.thy ===== *)
theory Curve25519_Field
  imports Curve25519
begin

text \<open>
  The arithmetic of \<^verbatim>\<open>tls_fe.c\<close> against numbers modulo \<open>2\<^sup>2\<^sup>5\<^sup>5 - 19\<close>: what a 32-byte array stands
  for, the shared lemmas on carries and on folding the bits above 255, and one lemma per operation.
\<close>

section \<open>Numbers as lists of digits\<close>

text \<open>Digits of any size to the base 256, the least first.\<close>

fun weight :: "nat list \<Rightarrow> nat" where
  "weight [] = 0"
| "weight (v # vs) = v + 256 * weight vs"

definition num :: "bytes \<Rightarrow> nat" where
  "num xs = weight (map unat xs)"

lemma num_simps [simp]: "num [] = 0" "num (x # xs) = unat x + 256 * num xs"
  by (simp_all add: num_def)

lemma num_append: "num (xs @ ys) = num xs + 256 ^ length xs * num ys"
  by (induction xs) simp_all

lemma num_less: "num xs < 256 ^ length xs"
proof (induction xs)
  case (Cons x xs)
  have "unat x < 256" using unat_bound [of x] by simp
  then show ?case using Cons by simp
qed simp

lemma weight_sum: "weight vs = (\<Sum>i<length vs. vs ! i * 256 ^ i)"
proof (induction vs)
  case (Cons v vs)
  then show ?case by (simp add: sum.lessThan_Suc_shift sum_distrib_left ac_simps del: sum.lessThan_Suc)
qed simp

lemma num_sum: "num xs = (\<Sum>i<length xs. unat (xs ! i) * 256 ^ i)"
  by (simp add: num_def weight_sum)

lemma unat_low_byte: "unat (ucast (c :: u32) :: u8) = unat c mod 256"
  by (simp add: unsigned_ucast_eq take_bit_eq_mod)

lemma unat_wide_byte: "unat (ucast (x :: u8) :: u32) = unat x"
  using unat_bound [of x] by (simp add: unsigned_ucast_eq take_bit_eq_mod)

lemma unat_shifted: "unat (drop_bit n (c :: u32)) = unat c div 2 ^ n"
  unfolding unat_drop_bit_eq by (simp add: drop_bit_eq_div)

lemma unat_add_32: "unat (c :: u32) + unat d < 2 ^ 32 \<Longrightarrow> unat (c + d) = unat c + unat d"
  by (simp add: unat_word_ariths)

lemma unat_mult_32: "unat (c :: u32) * unat d < 2 ^ 32 \<Longrightarrow> unat (c * d) = unat c * unat d"
  by (simp add: unat_word_ariths)

lemma unat_low_bits: "unat (w AND mask n) = unat w mod 2 ^ n" for w :: "'a::len word"
  unfolding take_bit_eq_mask [symmetric] unsigned_take_bit_eq by (simp add: take_bit_eq_mod)

lemma byte_less: "unat (x :: u8) < 256"
  using unat_bound [of x] by simp

section \<open>Carries\<close>

lemma length_add_carry [len_simps]: "length (add_carry c xs) = length xs"
  by (induction c xs rule: add_carry.induct) (simp_all add: Let_def)

lemma num_add_carry:
  "unat c + 256 \<le> 2 ^ 32 \<Longrightarrow> num (add_carry c xs) = (num xs + unat c) mod 256 ^ length xs"
proof (induction c xs rule: add_carry.induct)
  case (2 c x xs)
  let ?s = "unat c + unat x"
  have s: "unat (c + ucast x) = ?s"
    using 2(2) byte_less [of x] by (subst unat_add_32) (simp_all add: unat_wide_byte)
  have "unat (drop_bit 8 (c + ucast x)) = ?s div 256" by (simp add: unat_shifted s)
  moreover have "?s div 256 + 256 \<le> 2 ^ 32" using 2(2) byte_less [of x] by simp
  ultimately have "num (add_carry (drop_bit 8 (c + ucast x)) xs) = (num xs + ?s div 256) mod 256 ^ length xs"
    using 2(1) [OF refl] by simp
  then have "num (add_carry c (x # xs)) = ?s mod 256 + 256 * ((num xs + ?s div 256) mod 256 ^ length xs)"
    by (simp add: Let_def unat_low_byte s)
  also have "\<dots> = (?s + 256 * num xs) mod (256 * 256 ^ length xs)"
    by (simp add: mod_mult2_eq add.commute)
  finally show ?case by (simp add: ac_simps)
qed simp

text \<open>The shape of the loops that write a byte and keep the rest as a carry.\<close>

fun cols :: "nat \<Rightarrow> nat list \<Rightarrow> nat list \<times> nat" where
  "cols c [] = ([], c)"
| "cols c (v # vs) = (let c = c div 256 + v; (r, c') = cols c vs in (c mod 256 # r, c'))"

lemma cols_weight: "cols c vs = (r, c') \<Longrightarrow> weight r + 256 ^ length vs * (c' div 256) = c div 256 + weight vs"
proof (induction c vs arbitrary: r c' rule: cols.induct)
  case (2 c v vs)
  let ?c = "c div 256 + v"
  obtain s where s: "cols ?c vs = (s, c')" "r = ?c mod 256 # s" using 2(2) by (auto simp: Let_def split: prod.splits)
  have "weight s + 256 ^ length vs * (c' div 256) = ?c div 256 + weight vs" using 2(1) [OF refl s(1)] by simp
  then have "?c mod 256 + 256 * (weight s + 256 ^ length vs * (c' div 256)) = ?c mod 256 + 256 * (?c div 256 + weight vs)" by simp
  then show ?case by (simp add: s(2) algebra_simps)
qed simp

lemma cols_shape: "cols c vs = (r, c') \<Longrightarrow> length r = length vs \<and> (vs \<noteq> [] \<longrightarrow> last r = c' mod 256)"
proof (induction c vs arbitrary: r c' rule: cols.induct)
  case (2 c v vs)
  let ?c = "c div 256 + v"
  obtain s where s: "cols ?c vs = (s, c')" "r = ?c mod 256 # s" using 2(2) by (auto simp: Let_def split: prod.splits)
  have "length s = length vs \<and> (vs \<noteq> [] \<longrightarrow> last s = c' mod 256)" by (rule 2(1) [OF refl s(1)])
  then show ?case using s by (cases vs) auto
qed simp

text \<open>The carry stays small when the columns are.\<close>

lemma cols_bound: "cols c vs = (r, c') \<Longrightarrow> \<forall>v \<in> set vs. v \<le> B \<Longrightarrow> c \<le> 2 * B \<Longrightarrow> c' \<le> 2 * B"
proof (induction c vs arbitrary: r c' rule: cols.induct)
  case (2 c v vs)
  have "c div 256 \<le> c div 2" by (rule div_le_mono2) simp_all
  moreover have "c div 2 \<le> B" using 2(4) by simp
  ultimately have le: "c div 256 + v \<le> 2 * B" using 2(3) by simp
  obtain s where "cols (c div 256 + v) vs = (s, c')" using 2(2) by (auto simp: Let_def split: prod.splits)
  then show ?case using 2(1) [OF refl _ _ le] 2(3) by simp
qed simp

definition p25519 :: nat where "p25519 = 2 ^ 255 - 19"

lemma top_bits: "256 ^ 32 = (2 :: nat) * 2 ^ 255" "256 ^ 31 * 128 = (2 :: nat) ^ 255"
  by simp_all

lemma fold_prime: "(x + 2 ^ 255 * k) mod p25519 = (x + 19 * k) mod p25519"
proof -
  have "x + 2 ^ 255 * k = (x + 19 * k) + p25519 * k" unfolding p25519_def by simp
  then show ?thesis by (metis mod_mult_self2)
qed

text \<open>Folding the bits from 255 on back in.\<close>

lemma fold_top_num:
  assumes "length r = 32" "r ! 31 = ucast c" "unat c < 2 ^ 28" "num r + 256 ^ 32 * (unat c div 256) = V"
  shows "length (fold_top r c) = 32" "num (fold_top r c) mod p25519 = V mod p25519" "num (fold_top r c) < 2 ^ 255 + 19 * 2 ^ 21"
proof -
  let ?lo = "take 31 r" and ?r = "r[31 := r ! 31 AND 127]"
  have r: "r = ?lo @ [r ! 31]" "?r = ?lo @ [r ! 31 AND 127]"
    using assms(1) by (simp_all add: take_Suc_conv_app_nth [symmetric] list_eq_iff_nth_eq nth_append nth_list_update)
  have lo: "num ?lo < 256 ^ 31" "length ?lo = 31" using num_less [of ?lo] assms(1) by simp_all
  have "unat (r ! 31 AND 127) = unat c mod 256 mod 128"
    unfolding assms(2) using unat_low_bits [of "ucast c :: u8" 7] by (simp add: unat_low_byte mask_eq_exp_minus_1)
  then have top: "unat (r ! 31 AND 127) = unat c mod 128" by (simp add: mod_mod_cancel)
  have n: "num ?r = num ?lo + 256 ^ 31 * (unat c mod 128)"
    unfolding r(2) num_append using lo(2) top by simp
  then have small: "num ?r < 2 ^ 255"
  proof -
    have "256 ^ 31 * (unat c mod 128) \<le> 256 ^ 31 * 127" by (intro mult_le_mono2) (simp add: less_Suc_eq_le [symmetric])
    then show ?thesis using n lo(1) by simp
  qed
  have "num r = num ?lo + 256 ^ 31 * (unat c mod 256)"
    by (subst r(1), subst num_append) (use lo(2) assms(2) in \<open>simp add: unat_low_byte\<close>)
  moreover have "(256 :: nat) ^ 32 = 256 ^ 31 * 256" by simp
  ultimately have "V = num ?lo + 256 ^ 31 * (unat c mod 256 + 256 * (unat c div 256))"
    using assms(4) by (simp only: distrib_left mult.assoc add.assoc)
  also have "unat c mod 256 + 256 * (unat c div 256) = unat c mod 128 + 128 * (unat c div 128)"
    by (simp only: mod_mult_div_eq)
  finally have V: "V = num ?r + 2 ^ 255 * (unat c div 128)"
    unfolding n by (simp only: distrib_left top_bits(2) [symmetric] mult.assoc add.assoc)
  have c: "unat (drop_bit 7 c * 19) = unat c div 128 * 19"
    using assms(3) by (subst unat_mult_32) (simp_all add: unat_shifted)
  have "unat c div 128 \<le> 2 ^ 21" using assms(3) by simp
  then have "num (fold_top r c) = num ?r + 19 * (unat c div 128)"
    unfolding fold_top_def using small assms(1) c by (subst num_add_carry) simp_all
  then show "num (fold_top r c) mod p25519 = V mod p25519" "num (fold_top r c) < 2 ^ 255 + 19 * 2 ^ 21"
    using small \<open>unat c div 128 \<le> 2 ^ 21\<close> by (simp_all only: V fold_prime)
  show "length (fold_top r c) = 32" using assms(1) by (simp add: fold_top_def len_simps)
qed

section \<open>The operations\<close>

text \<open>What an array stands for, and the arrays the operations give: a little above \<open>2\<^sup>2\<^sup>5\<^sup>5\<close> at most.\<close>

definition val :: "bytes \<Rightarrow> int" where
  "val x = int (num x) mod int p25519"

definition tight :: "bytes \<Rightarrow> bool" where
  "tight x \<longleftrightarrow> length x = 32 \<and> num x < 2 ^ 255 + 2 ^ 26"

lemma tight_length: "tight x \<Longrightarrow> length x = 32"
  by (simp add: tight_def)

lemma fold_cols:
  assumes "cols 0 vs = (map unat r, unat c)" "length vs = 32" "\<forall>v \<in> set vs. v < 2 ^ 27"
  shows "tight (fold_top r c)" "val (fold_top r c) = int (weight vs) mod int p25519"
proof -
  have len: "length r = 32" using cols_shape [OF assms(1)] assms(2) by simp
  then have "r \<noteq> []" by auto
  then have "unat (r ! 31) = unat c mod 256"
    using cols_shape [OF assms(1)] assms(2) len by (auto simp: last_map last_conv_nth)
  then have top: "r ! 31 = ucast c" by (simp add: word_unat_eq_iff unat_low_byte)
  have small: "unat c < 2 ^ 28"
    using cols_bound [OF assms(1), of "2 ^ 27 - 1"] assms(3) by fastforce
  have "num r + 256 ^ 32 * (unat c div 256) = weight vs"
    using cols_weight [OF assms(1)] assms(2) by (simp add: num_def)
  from fold_top_num [OF len top small this]
  show "tight (fold_top r c)" "val (fold_top r c) = int (weight vs) mod int p25519"
    by (simp add: tight_def, simp only: val_def zmod_int [symmetric])
qed

lemma add_loop_cols:
  "length a = length b \<Longrightarrow> add_loop c a b = (r, c') \<Longrightarrow>
    cols (unat c) (map2 (\<lambda>x y. unat x + unat y) a b) = (map unat r, unat c')"
proof (induction c a b arbitrary: r c' rule: add_loop.induct)
  case (1 c a as b bs)
  have "unat (drop_bit 8 c) < 2 ^ 24" unfolding unat_shifted using unat_bound [of c] by (intro less_mult_imp_div_less) simp
  then have s: "unat (drop_bit 8 c + (ucast a + ucast b)) = unat c div 256 + (unat a + unat b)"
    using byte_less [of a] byte_less [of b] by (simp add: unat_add_32 unat_wide_byte unat_shifted)
  then show ?case using 1 by (auto simp: Let_def unat_low_byte split: prod.splits)
qed auto

lemma weight_add: "length xs = length ys \<Longrightarrow> weight (map2 (+) xs ys) = weight xs + weight ys"
  by (induction xs ys rule: list_induct2) simp_all

lemma map2_unat: "map2 (\<lambda>x y. unat x + unat y) a b = map2 (+) (map unat a) (map unat b)"
  by (simp add: zip_map1 zip_map2 case_prod_unfold comp_def)

lemma lm_add_val:
  assumes "length a = 32" "length b = 32"
  shows "tight (lm_add a b)" "val (lm_add a b) = (val a + val b) mod int p25519"
proof -
  let ?vs = "map2 (\<lambda>x y. unat x + unat y) a b"
  obtain r c where run: "add_loop 0 a b = (r, c)" by fastforce
  have "cols 0 ?vs = (map unat r, unat c)" using add_loop_cols [OF _ run] assms by simp
  moreover have "\<forall>v \<in> set ?vs. v < 2 ^ 27"
  proof
    fix v assume "v \<in> set ?vs"
    then obtain x y :: u8 where "v = unat x + unat y" by auto
    then show "v < 2 ^ 27" using byte_less [of x] byte_less [of y] by simp
  qed
  moreover have "weight ?vs = num a + num b" using assms by (simp add: map2_unat weight_add num_def)
  ultimately show "tight (lm_add a b)" "val (lm_add a b) = (val a + val b) mod int p25519"
    using fold_cols [of ?vs r c] assms run by (simp_all add: lm_add_def val_def mod_add_eq)
qed

lemma mul_c_loop_cols:
  "unat b < 2 ^ 19 \<Longrightarrow> mul_c_loop b c a = (r, c') \<Longrightarrow> cols (unat c) (map (\<lambda>x. unat b * unat x) a) = (map unat r, unat c')"
proof (induction b c a arbitrary: r c' rule: mul_c_loop.induct)
  case (2 b c a as)
  have c: "unat (drop_bit 8 c) < 2 ^ 24" unfolding unat_shifted using unat_bound [of c] by (intro less_mult_imp_div_less) simp
  have "unat b * unat a < 2 ^ 19 * 256" using 2(2) byte_less [of a] by (intro mult_strict_mono) simp_all
  then have "unat (b * ucast a) = unat b * unat a" "unat b * unat a < 2 ^ 27" by (simp_all add: unat_mult_32 unat_wide_byte)
  then have s: "unat (drop_bit 8 c + b * ucast a) = unat c div 256 + unat b * unat a"
    using c by (simp add: unat_add_32 unat_shifted)
  then show ?case using 2 by (auto simp: Let_def unat_low_byte split: prod.splits)
qed auto

lemma weight_scale: "weight (map (\<lambda>x. k * f x) xs) = k * weight (map f xs)"
  by (induction xs) (simp_all add: distrib_left)

lemma fe_mul_c_val:
  assumes "length a = 32" "unat b < 2 ^ 19"
  shows "tight (fe_mul_c a b)" "val (fe_mul_c a b) = int (unat b) * val a mod int p25519"
proof -
  let ?vs = "map (\<lambda>x. unat b * unat x) a"
  obtain r c where run: "mul_c_loop b 0 a = (r, c)" by fastforce
  have "cols 0 ?vs = (map unat r, unat c)" using mul_c_loop_cols [OF assms(2) run] by simp
  moreover have "\<forall>v \<in> set ?vs. v < 2 ^ 27"
  proof
    fix v assume "v \<in> set ?vs"
    then obtain x :: u8 where v: "v = unat b * unat x" by auto
    have "unat b * unat x < 2 ^ 19 * 256" using assms(2) byte_less [of x] by (intro mult_strict_mono) simp_all
    then show "v < 2 ^ 27" by (simp add: v)
  qed
  moreover have "weight ?vs = unat b * num a" by (simp add: weight_scale num_def)
  ultimately show "tight (fe_mul_c a b)" "val (fe_mul_c a b) = int (unat b) * val a mod int p25519"
    using fold_cols [of ?vs r c] assms run by (simp_all add: fe_mul_c_def val_def mod_mult_right_eq)
qed

text \<open>A column of a product: no sum of 32 products overflows.\<close>

definition col_value :: "bytes \<Rightarrow> bytes \<Rightarrow> nat \<Rightarrow> nat" where
  "col_value a b i = (\<Sum>j<32. if j \<le> i then unat (a ! j) * unat (b ! (i - j)) else unat (a ! j) * unat (b ! (i + 32 - j)) * 38)"

lemma unat_foldl_add:
  assumes "\<And>j. j \<in> set js \<Longrightarrow> unat (f j :: u32) = g j" "unat c + sum_list (map g js) < 2 ^ 32"
  shows "unat (foldl (\<lambda>c j. c + f j) c js) = unat c + sum_list (map g js)"
  using assms
proof (induction js arbitrary: c)
  case (Cons j js)
  have "unat (c + f j) = unat c + g j" using Cons.prems by (subst unat_add_32) simp_all
  then show ?case using Cons by simp
qed simp

lemma byte_product: "unat (x :: u8) * unat (y :: u8) \<le> 65025"
proof -
  have "unat x \<le> 255" "unat y \<le> 255" using byte_less [of x] byte_less [of y] by simp_all
  then have "unat x * unat y \<le> 255 * 255" by (rule mult_le_mono)
  then show ?thesis by simp
qed

lemma unat_byte_product: "unat (ucast (x :: u8) * ucast (y :: u8) :: u32) = unat x * unat y"
  using byte_product [of x y] by (subst unat_mult_32) (simp_all add: unat_wide_byte)

lemma col_value_bound: "col_value a b i < 2 ^ 27"
proof -
  have "col_value a b i \<le> (\<Sum>j<32::nat. 65025 * 38)"
    unfolding col_value_def
  proof (rule sum_mono)
    fix j :: nat
    show "(if j \<le> i then unat (a ! j) * unat (b ! (i - j)) else unat (a ! j) * unat (b ! (i + 32 - j)) * 38) \<le> 65025 * 38"
      using byte_product [of "a ! j" "b ! (i - j)"] byte_product [of "a ! j" "b ! (i + 32 - j)"] by simp
  qed
  then show ?thesis by simp
qed

lemma unat_mul_column:
  assumes "i < 32" "unat c < 2 ^ 24"
  shows "unat (mul_column a b i c) = unat c + col_value a b i"
proof -
  let ?g = "\<lambda>j. unat (a ! j) * unat (b ! (i - j))" and ?h = "\<lambda>j. unat (a ! j) * unat (b ! (i + F25519_SIZE - j)) * 38"
  have g: "unat (ucast (a ! j) * ucast (b ! (i - j)) :: u32) = ?g j" for j
    by (rule unat_byte_product)
  have h: "unat (ucast (a ! j) * ucast (b ! (i + F25519_SIZE - j)) * 38 :: u32) = ?h j" for j
    using byte_product [of "a ! j" "b ! (i + F25519_SIZE - j)"]
    by (subst unat_mult_32) (simp_all add: unat_byte_product)
  have split: "{..<32} = {..<Suc i} \<union> {Suc i..<32}" "{..<Suc i} \<inter> {Suc i..<32} = {}" using assms(1) by auto
  have "col_value a b i = (\<Sum>j<Suc i. ?g j) + (\<Sum>j=Suc i..<32. ?h j)"
    unfolding col_value_def split(1)
    by (subst sum.union_disjoint [OF _ _ split(2)]) (auto simp: F25519_SIZE_def intro!: arg_cong2 [where f = "(+)"] sum.cong)
  also have "\<dots> = sum_list (map ?g [0..<Suc i]) + sum_list (map ?h [Suc i..<32])"
    by (simp only: interv_sum_list_conv_sum_set_nat set_upt atLeast0LessThan)
  finally have v: "col_value a b i = \<dots>" .
  have lt: "unat c + sum_list (map ?g [0..<Suc i]) + sum_list (map ?h [Suc i..<32]) < 2 ^ 32"
    using col_value_bound [of a b i] assms(2) unfolding v by simp
  define d where "d = foldl (\<lambda>c j. c + ucast (a ! j) * ucast (b ! (i - j))) c [0..<Suc i]"
  have d: "unat d = unat c + sum_list (map ?g [0..<Suc i])"
    unfolding d_def using lt g by (intro unat_foldl_add) simp_all
  have "unat (foldl (\<lambda>c j. c + ucast (a ! j) * ucast (b ! (i + F25519_SIZE - j)) * 38) d [Suc i..<32]) = unat d + sum_list (map ?h [Suc i..<32])"
    using lt h d by (intro unat_foldl_add) simp_all
  then show ?thesis unfolding mul_column_def Let_def d_def [symmetric] by (simp add: F25519_SIZE_def v d)
qed

lemma mul_loop_cols:
  "\<forall>i \<in> set is. i < 32 \<Longrightarrow> mul_loop a b is c = (r, c') \<Longrightarrow> cols (unat c) (map (col_value a b) is) = (map unat r, unat c')"
proof (induction a b "is" c arbitrary: r c' rule: mul_loop.induct)
  case (2 a b i "is" c)
  have "unat (drop_bit 8 c) < 2 ^ 24" unfolding unat_shifted using unat_bound [of c] by (intro less_mult_imp_div_less) simp
  then have "unat (mul_column a b i (drop_bit 8 c)) = unat c div 256 + col_value a b i"
    using 2(2) by (simp add: unat_mul_column unat_shifted)
  then show ?case using 2 by (auto simp: Let_def unat_low_byte split: prod.splits)
qed auto

text \<open>The columns add up to the product, \<open>2\<^sup>2\<^sup>5\<^sup>6\<close> counting 38.\<close>

lemma split_product: "A * B = 38 + 2 * p \<Longrightarrow> 38 * x * D + x * A * T + 2 * p * (x * D) = x * A * (T + B * D)" for A :: nat
proof -
  assume AB: "A * B = 38 + 2 * p"
  have "x * A * (T + B * D) = x * A * T + x * D * (A * B)" by (simp add: algebra_simps)
  then show ?thesis unfolding AB by (simp add: algebra_simps)
qed

lemma product_row:
  assumes "length b = 32" "j < 32"
  shows "(\<Sum>i<32. (if j \<le> i then x * unat (b ! (i - j)) else x * unat (b ! (i + 32 - j)) * 38) * 256 ^ i)
      + 2 * p25519 * (x * num (drop (32 - j) b)) = x * 256 ^ j * num b"
proof -
  let ?t = "\<lambda>i. (if j \<le> i then x * unat (b ! (i - j)) else x * unat (b ! (i + 32 - j)) * 38) * 256 ^ i"
  have split: "{..<32} = {..<j} \<union> {j..<32}" "{..<j} \<inter> {j..<32} = {}" using assms(2) by auto
  have "(\<Sum>i<j. ?t i) = (\<Sum>i<j. 38 * x * (unat (drop (32 - j) b ! i) * 256 ^ i))"
    using assms by (intro sum.cong) (auto simp: ac_simps)
  also have "\<dots> = 38 * x * num (drop (32 - j) b)" using assms by (simp add: num_sum sum_distrib_left)
  finally have lo: "(\<Sum>i<j. ?t i) = 38 * x * num (drop (32 - j) b)" .
  have "(\<Sum>i=j..<32. ?t i) = (\<Sum>i=0..<32 - j. ?t (i + j))"
    using sum.shift_bounds_nat_ivl [of ?t 0 j "32 - j"] assms(2) by simp
  also have "\<dots> = (\<Sum>i<32 - j. x * 256 ^ j * (unat (take (32 - j) b ! i) * 256 ^ i))"
    using assms by (intro sum.cong) (auto simp: power_add ac_simps)
  also have "\<dots> = x * 256 ^ j * num (take (32 - j) b)" using assms by (simp add: num_sum sum_distrib_left)
  finally have hi: "(\<Sum>i=j..<32. ?t i) = x * 256 ^ j * num (take (32 - j) b)" .
  have "(\<Sum>i<32. ?t i) = 38 * x * num (drop (32 - j) b) + x * 256 ^ j * num (take (32 - j) b)"
    unfolding split(1) using lo hi by (subst sum.union_disjoint [OF _ _ split(2)]) simp_all
  moreover have "num b = num (take (32 - j) b) + 256 ^ (32 - j) * num (drop (32 - j) b)"
    using num_append [of "take (32 - j) b" "drop (32 - j) b"] assms by simp
  moreover have "256 ^ j * 256 ^ (32 - j) = (38 :: nat) + 2 * p25519"
    using assms(2) by (simp add: power_add [symmetric] p25519_def)
  ultimately show ?thesis using split_product [of "256 ^ j" "256 ^ (32 - j)"] by (simp only:)
qed

lemma product_columns:
  assumes "length a = 32" "length b = 32"
  shows "\<exists>k. weight (map (col_value a b) [0..<32]) + 2 * p25519 * k = num a * num b"
proof
  define k where "k = (\<Sum>j<32. unat (a ! j) * num (drop (32 - j) b))"
  let ?t = "\<lambda>i j. if j \<le> i then unat (a ! j) * unat (b ! (i - j)) else unat (a ! j) * unat (b ! (i + 32 - j)) * 38"
  have "weight (map (col_value a b) [0..<32]) = (\<Sum>i<32. \<Sum>j<32. ?t i j * 256 ^ i)"
    by (simp add: weight_sum col_value_def sum_distrib_right)
  also have "\<dots> = (\<Sum>j<32. \<Sum>i<32. ?t i j * 256 ^ i)" by (rule sum.swap)
  finally have "weight (map (col_value a b) [0..<32]) + 2 * p25519 * k
    = (\<Sum>j<32. (\<Sum>i<32. ?t i j * 256 ^ i) + 2 * p25519 * (unat (a ! j) * num (drop (32 - j) b)))"
    by (simp only: k_def sum.distrib sum_distrib_left)
  also have "\<dots> = (\<Sum>j<32. unat (a ! j) * 256 ^ j * num b)"
    using assms(2) by (intro sum.cong [OF refl] product_row) simp_all
  also have "\<dots> = num a * num b" using assms(1) by (simp only: num_sum [of a] sum_distrib_right)
  finally show "weight (map (col_value a b) [0..<32]) + 2 * p25519 * k = num a * num b" .
qed

lemma fe_mul_val:
  assumes "length a = 32" "length b = 32"
  shows "tight (fe_mul__distinct a b)" "val (fe_mul__distinct a b) = val a * val b mod int p25519"
proof -
  let ?vs = "map (col_value a b) [0..<32]"
  obtain r c where run: "mul_loop a b [0..<F25519_SIZE] 0 = (r, c)" by fastforce
  have "cols 0 ?vs = (map unat r, unat c)" using mul_loop_cols [OF _ run] by (simp add: F25519_SIZE_def)
  moreover have "\<forall>v \<in> set ?vs. v < 2 ^ 27" using col_value_bound by simp
  moreover obtain k where "weight ?vs + 2 * p25519 * k = num a * num b" using product_columns [OF assms] by blast
  then have "num a * num b mod p25519 = weight ?vs mod p25519" by (metis mod_mult_self2 mult.assoc mult.commute)
  then have "int (weight ?vs) mod int p25519 = val a * val b mod int p25519"
    by (simp add: val_def mod_mult_eq flip: zmod_int of_nat_mult)
  ultimately show "tight (fe_mul__distinct a b)" "val (fe_mul__distinct a b) = val a * val b mod int p25519"
    using fold_cols [of ?vs r c] run by (simp_all add: fe_mul__distinct_def)
qed

text \<open>Subtraction: \<open>218\<close> and the \<open>65280\<close> of the columns add up to twice the prime.\<close>

lemma sub_loop_num:
  "length a = length b \<Longrightarrow> sub_loop c a b = (r, c') \<Longrightarrow> unat c < 2 ^ 24 \<Longrightarrow>
    length r = length a \<and> unat c' < 2 ^ 24 \<and>
    num r + 256 ^ length a * unat c' + num b + 256 = unat c + num a + 256 ^ length a * 256"
proof (induction c a b arbitrary: r c' rule: sub_loop.induct)
  case (1 c a as b bs)
  define s where "s = c + (65280 + ucast a - ucast b)"
  have "unat (65280 + ucast a :: u32) = 65280 + unat a" using byte_less [of a] by (subst unat_add_32) (simp_all add: unat_wide_byte)
  moreover then have "(ucast b :: u32) \<le> 65280 + ucast a" using byte_less [of b] by (simp add: word_le_nat_alt unat_wide_byte)
  ultimately have d: "unat (65280 + ucast a - ucast b :: u32) = 65280 + unat a - unat b" by (simp add: unat_sub unat_wide_byte)
  then have s: "unat s + unat b = unat c + 65280 + unat a"
    unfolding s_def using 1(4) byte_less [of a] byte_less [of b] by (subst unat_add_32) simp_all
  obtain r' where run: "sub_loop (drop_bit 8 s) as bs = (r', c')" "r = ucast s # r'"
    using 1(3) by (auto simp: Let_def s_def split: prod.splits)
  have k: "unat (drop_bit 8 s) = unat s div 256" by (simp add: unat_shifted)
  moreover have "unat s div 256 < 2 ^ 24" using s 1(4) byte_less [of a] by simp
  ultimately have ih: "length r' = length as" "unat c' < 2 ^ 24"
    "num r' + 256 ^ length as * unat c' + num bs + 256 = unat s div 256 + num as + 256 ^ length as * 256"
    using 1(1) [OF s_def _ run(1)] 1(2) by simp_all
  from ih(3) have "256 * (num r' + 256 ^ length as * unat c' + num bs + 256) + unat s mod 256
    = 256 * (unat s div 256 + num as + 256 ^ length as * 256) + unat s mod 256" by simp
  then have "num r + 256 * 256 ^ length as * unat c' + 256 * num bs + 65536 = unat s + 256 * num as + 256 * 256 ^ length as * 256"
    by (simp add: run(2) unat_low_byte distrib_left mult.assoc)
  then show ?case using s ih(1,2) by (simp add: run(2))
qed auto

lemma lm_sub_val:
  assumes "length a = 32" "length b = 32" "num b \<le> 2 ^ 256 - 38"
  shows "tight (lm_sub a b)" "val (lm_sub a b) = (val a - val b) mod int p25519"
proof -
  let ?a = "take 31 a" and ?b = "take 31 b"
  obtain r c1 where run: "sub_loop 218 ?a ?b = (r, c1)" by fastforce
  have r: "length r = 31" "unat c1 < 2 ^ 24" "num r + 256 ^ 31 * unat c1 + num ?b + 256 = 218 + num ?a + 256 ^ 31 * 256"
    using sub_loop_num [OF _ run] assms by simp_all
  have split: "num x = num (take 31 x) + 256 ^ 31 * unat (x ! 31)" if "length x = 32" for x
    using num_append [of "take 31 x" "[x ! 31]"] that by (simp add: take_Suc_conv_app_nth [symmetric])
  define c where "c = c1 + (ucast (a ! 31) - ucast (b ! 31))"
  have eq: "num r + 256 ^ 31 * (unat c1 + unat (a ! 31)) + num b = num a + (2 ^ 256 - 38) + 256 ^ 31 * unat (b ! 31)"
    using r(3) split [OF assms(1)] split [OF assms(2)] by (simp add: distrib_left)
  have "unat (b ! 31) \<le> unat c1 + unat (a ! 31)"
  proof (rule ccontr)
    assume "\<not> ?thesis"
    then have "256 ^ 31 * (unat c1 + unat (a ! 31) + 1) \<le> 256 ^ 31 * unat (b ! 31)" by (intro mult_le_mono2) simp
    then show False using eq num_less [of r] assms(3) unfolding r(1) distrib_left by linarith
  qed
  then have c: "unat c + unat (b ! 31) = unat c1 + unat (a ! 31)"
  proof -
    assume le: "unat (b ! 31) \<le> unat c1 + unat (a ! 31)"
    have sum: "unat (c1 + ucast (a ! 31)) = unat c1 + unat (a ! 31)"
      using r(2) byte_less [of "a ! 31"] by (subst unat_add_32) (simp_all add: unat_wide_byte)
    then have "unat (c1 + ucast (a ! 31) - ucast (b ! 31)) = unat c1 + unat (a ! 31) - unat (b ! 31)"
      using le by (subst unat_sub) (simp_all add: word_le_nat_alt unat_wide_byte)
    moreover have "c = c1 + ucast (a ! 31) - ucast (b ! 31)" by (simp add: c_def)
    ultimately show ?thesis using le by simp
  qed
  have small: "unat c < 2 ^ 28" using c r(2) byte_less [of "a ! 31"] by simp
  let ?V = "num a + (2 ^ 256 - 38) - num b"
  have "num r + 256 ^ 31 * unat c = ?V"
    using eq c [symmetric] by (simp add: distrib_left)
  then have V: "num (r @ [ucast c]) + 256 ^ 32 * (unat c div 256) = ?V"
  proof -
    assume n: "num r + 256 ^ 31 * unat c = ?V"
    have "num (r @ [ucast c]) = num r + 256 ^ 31 * (unat c mod 256)" using r(1) by (simp add: num_append unat_low_byte)
    moreover have "256 ^ 31 * unat c = 256 ^ 31 * (unat c mod 256) + (256 :: nat) ^ 32 * (unat c div 256)"
    proof -
      have "(256 :: nat) ^ 32 = 256 ^ 31 * 256" by simp
      then show ?thesis by (simp only: distrib_left [symmetric] mult.assoc mod_mult_div_eq)
    qed
    ultimately show ?thesis using n by simp
  qed
  have "ucast (c AND 127) = (ucast c AND ucast (127 :: u32) :: u8)"
    by (rule bit_word_eqI) (simp add: bit_unsigned_iff bit_and_iff)
  then have sub: "lm_sub a b = fold_top (r @ [ucast c]) c"
    using r(1) run by (simp add: lm_sub_def fold_top_def F25519_SIZE_def c_def [symmetric] nth_append list_update_append)
  have len: "length (r @ [ucast c]) = 32" "(r @ [ucast c]) ! 31 = ucast c" using r(1) by (simp_all add: nth_append)
  note res = fold_top_num [OF len small V]
  show "tight (lm_sub a b)" using res(1,3) by (simp add: tight_def sub)
  have "val (lm_sub a b) = int ?V mod int p25519"
    unfolding val_def sub using res(2) by (simp only: zmod_int [symmetric])
  also have "int ?V = int (num a) - int (num b) + 2 * int p25519"
    using assms(3) by (simp add: p25519_def)
  also have "\<dots> mod int p25519 = (val a - val b) mod int p25519"
    by (simp add: val_def mod_diff_eq)
  finally show "val (lm_sub a b) = (val a - val b) mod int p25519" .
qed

lemma sub_prime_num:
  "sub_prime c xs = (r, c') \<Longrightarrow> unat c < 2 ^ 24 \<Longrightarrow> length r = length xs \<and> num r + 256 ^ length xs * unat c' = num xs + unat c"
proof (induction c xs arbitrary: r c' rule: sub_prime.induct)
  case (2 c x xs)
  define s where "s = c + ucast x"
  have s: "unat s = unat c + unat x" unfolding s_def using 2(3) byte_less [of x] by (subst unat_add_32) (simp_all add: unat_wide_byte)
  obtain r' where run: "sub_prime (drop_bit 8 s) xs = (r', c')" "r = ucast s # r'"
    using 2(2) by (auto simp: Let_def s_def split: prod.splits)
  have "unat (drop_bit 8 s) < 2 ^ 24" using s 2(3) byte_less [of x] by (simp add: unat_shifted)
  then have ih: "length r' = length xs" "num r' + 256 ^ length xs * unat c' = num xs + unat s div 256"
    using 2(1) [OF s_def run(1)] by (simp_all add: unat_shifted)
  from ih(2) have "256 * (num r' + 256 ^ length xs * unat c') + unat s mod 256 = 256 * (num xs + unat s div 256) + unat s mod 256" by simp
  then have "num r + 256 * 256 ^ length xs * unat c' = unat s + 256 * num xs"
    by (simp add: run(2) unat_low_byte distrib_left mult.assoc)
  then show ?case using s ih(1) by (simp add: run(2))
qed simp

lemma fe_select_bit:
  "length z = length n \<Longrightarrow> fe_select z n 0 = z" "length z = length n \<Longrightarrow> fe_select z n 1 = n"
  by (auto simp: fe_select_def list_eq_iff_nth_eq xor.left_commute)

lemma fe_normalize_num:
  assumes "length x = 32"
  shows "length (fe_normalize x) = 32" "int (num (fe_normalize x)) = val x"
proof -
  have split: "num x = num (take 31 x) + 256 ^ 31 * unat (x ! 31)" if "length x = 32" for x
    using num_append [of "take 31 x" "[x ! 31]"] that by (simp add: take_Suc_conv_app_nth [symmetric])
  let ?x = "x[31 := x ! 31 AND 127]" and ?c = "ucast (drop_bit 7 (x ! 31)) * 19 :: u32"
  have c: "unat ?c = unat (x ! 31) div 128 * 19"
  proof -
    have "unat (ucast (drop_bit 7 (x ! 31)) :: u32) = unat (x ! 31) div 128"
      unfolding unat_wide_byte unat_drop_bit_eq by (simp add: drop_bit_eq_div)
    moreover have "unat (x ! 31) div 128 \<le> 1" using byte_less [of "x ! 31"] by simp
    ultimately show ?thesis by (subst unat_mult_32) simp_all
  qed
  define y where "y = add_carry ?c ?x"
  have top: "unat (x ! 31 AND 127) = unat (x ! 31) mod 128"
    using unat_low_bits [of "x ! 31" 7] by (simp add: mask_eq_exp_minus_1)
  have x': "num ?x = num (take 31 x) + 256 ^ 31 * (unat (x ! 31) mod 128)"
    using split [of ?x] assms top by simp
  then have "num x = num ?x + 2 ^ 255 * (unat (x ! 31) div 128)"
    using split [OF assms] mod_mult_div_eq [of "unat (x ! 31)" 128]
    by (simp only: top_bits(2) [symmetric] mult.assoc add.assoc distrib_left [symmetric])
  then have vx: "num x mod p25519 = (num ?x + 19 * (unat (x ! 31) div 128)) mod p25519" by (simp only: fold_prime)
  have small: "num ?x < 2 ^ 255"
  proof -
    have "unat (x ! 31) mod 128 \<le> 127" by (simp add: less_Suc_eq_le [symmetric])
    then have "256 ^ 31 * (unat (x ! 31) mod 128) \<le> 256 ^ 31 * 127" by (rule mult_le_mono2)
    then show ?thesis using x' num_less [of "take 31 x"] assms by simp
  qed
  have one: "unat (x ! 31) div 128 \<le> 1" using byte_less [of "x ! 31"] by simp
  have y: "length y = 32" "num y = num ?x + 19 * (unat (x ! 31) div 128)"
    using small one c assms by (simp_all add: y_def len_simps num_add_carry)
  then have vy: "num y mod p25519 = num x mod p25519" "num y < 2 ^ 255 + 19" using vx small one by simp_all
  obtain m c1 where run: "sub_prime 19 (take 31 y) = (m, c1)" by fastforce
  have m: "length m = 31" "num m + 256 ^ 31 * unat c1 = num (take 31 y) + 19"
    using sub_prime_num [OF run] y(1) by simp_all
  define c2 where "c2 = c1 + (ucast (y ! 31) - 128)"
  have norm: "fe_normalize x = fe_select (m @ [ucast c2]) y (ucast (drop_bit 15 c2 AND 1))"
    using run by (simp add: fe_normalize_def F25519_SIZE_def y_def [symmetric] c2_def [symmetric] Let_def)
  have eq: "num m + 256 ^ 31 * (unat c1 + unat (y ! 31)) = num y + 19"
    using m(2) split [OF y(1)] by (simp add: distrib_left)
  have len: "length (m @ [ucast c2]) = length y" using m(1) y(1) by simp
  have c2: "c2 = (c1 + ucast (y ! 31)) - 128" by (simp add: c2_def)
  have ub: "unat c1 + unat (y ! 31) \<le> 128"
  proof (rule ccontr)
    assume "\<not> ?thesis"
    then have "256 ^ 31 * 129 \<le> 256 ^ 31 * (unat c1 + unat (y ! 31))" by (intro mult_le_mono2) simp
    then show False using eq vy(2) by simp
  qed
  have c1: "unat (c1 + ucast (y ! 31)) = unat c1 + unat (y ! 31)" using ub by (subst unat_add_32) (simp_all add: unat_wide_byte)
  have "length (fe_normalize x) = 32 \<and> num (fe_normalize x) = num y mod p25519"
  proof (cases "unat c1 + unat (y ! 31) = 128")
    case True
    then have "c1 + ucast (y ! 31) = 128" using c1 by (simp add: word_unat_eq_iff)
    then have "c2 = 0" by (simp add: c2)
    then have "fe_normalize x = m @ [0]" using fe_select_bit(1) [OF len] norm by simp
    moreover have "num m + 2 ^ 255 = num y + 19" using eq True by simp
    moreover then have "num y mod p25519 = num m"
    proof -
      have "num y = num m + p25519" using \<open>num m + 2 ^ 255 = num y + 19\<close> by (simp add: p25519_def)
      moreover have "num m < p25519" using num_less [of m] m(1) by (simp add: p25519_def)
      ultimately show ?thesis by simp
    qed
    ultimately show ?thesis using m(1) by (simp add: num_append)
  next
    case False
    then have lt: "unat c1 + unat (y ! 31) < 128" using ub by simp
    have "unat c2 + 128 = 2 ^ 32 + (unat c1 + unat (y ! 31))"
      using lt c1 unfolding c2 by (simp add: unat_sub_if_size word_size)
    then have "unat c2 div 2 ^ 15 = 131071" using lt by (intro div_nat_eqI) simp_all
    then have "drop_bit 15 c2 = 131071" by (simp add: word_unat_eq_iff unat_shifted)
    then have "drop_bit 15 c2 AND 1 = 1" by simp
    then have "fe_normalize x = y" using fe_select_bit(2) [OF len] norm by simp
    moreover have "num y + 19 < 2 ^ 255"
    proof -
      have "256 ^ 31 * (unat c1 + unat (y ! 31)) \<le> 256 ^ 31 * 127" using lt by (intro mult_le_mono2) simp
      then show ?thesis using eq num_less [of m] m(1) by simp
    qed
    ultimately show ?thesis using y(1) by (simp add: p25519_def)
  qed
  then show "length (fe_normalize x) = 32" "int (num (fe_normalize x)) = val x"
    using vy(1) by (simp_all add: val_def zmod_int)
qed

text \<open>Powers of \<open>x\<close>, and the chain of the inverse.\<close>

definition is_power :: "bytes \<Rightarrow> nat \<Rightarrow> bytes \<Rightarrow> bool" where
  "is_power x m r \<longleftrightarrow> tight r \<and> val r = val x ^ m mod int p25519"

lemma is_power_mul: "is_power x m a \<Longrightarrow> is_power x n b \<Longrightarrow> is_power x (m + n) (fe_mul__distinct a b)"
  using fe_mul_val [of a b] by (simp add: is_power_def tight_length power_add mod_mult_eq)

lemma is_power_mul_base:
  assumes "length x = 32" "is_power x m a"
  shows "is_power x (m + 1) (fe_mul__distinct a x)"
  using fe_mul_val [of a x] assms by (simp add: is_power_def tight_length mod_mult_right_eq mult.commute)

lemma is_power_square: "is_power x m r \<Longrightarrow> is_power x (m + m) (fe_mul__distinct r r)"
  by (rule is_power_mul)

lemma is_power_digit: "length x = 32 \<Longrightarrow> is_power x m r \<Longrightarrow> is_power x (m + m + 1) (fe_mul__distinct (fe_mul__distinct r r) x)"
  by (intro is_power_mul_base is_power_square)

lemma inv_loop_power:
  "length x = 32 \<Longrightarrow> is_power x m r \<Longrightarrow> is_power x ((m + 1) * 2 ^ n - 1) (inv_loop n x r)"
proof (induction n x r arbitrary: m rule: inv_loop.induct)
  case (2 n x r)
  have "(m + m + 1 + 1) * 2 ^ n = (m + 1) * 2 ^ Suc n" by simp
  then show ?case using 2(1) [OF refl refl 2(2) is_power_digit [OF 2(2,3)]] by (simp only: inv_loop.simps Let_def)
qed simp

lemma fe_inv_val:
  assumes "length x = 32"
  shows "tight (fe_inv__distinct x)" "val (fe_inv__distinct x) = val x ^ (p25519 - 2) mod int p25519"
proof -
  have "tight (fe_mul__distinct x x)" "val (fe_mul__distinct x x) = val x ^ 2 mod int p25519"
    using fe_mul_val [OF assms assms] by (simp_all add: power2_eq_square)
  then have "is_power x 2 (fe_mul__distinct x x)" by (simp add: is_power_def)
  then have "is_power x (2 + 1) (fe_mul__distinct (fe_mul__distinct x x) x)" by (rule is_power_mul_base [OF assms])
  then have "is_power x ((2 + 1 + 1) * 2 ^ 248 - 1) (inv_loop 248 x (fe_mul__distinct (fe_mul__distinct x x) x))" (is "is_power x ?m ?r")
    by (rule inv_loop_power [OF assms])
  then have 2: "is_power x (?m + ?m) (fe_mul__distinct ?r ?r)" (is "is_power x ?n ?s") by (rule is_power_square)
  then have "is_power x (?n + ?n + 1) (fe_mul__distinct (fe_mul__distinct ?s ?s) x)" (is "is_power x ?k ?t") by (rule is_power_digit [OF assms])
  then have "is_power x (?k + ?k) (fe_mul__distinct ?t ?t)" (is "is_power x ?l ?u") by (rule is_power_square)
  then have "is_power x (?l + ?l + 1) (fe_mul__distinct (fe_mul__distinct ?u ?u) x)" (is "is_power x ?j ?v") by (rule is_power_digit [OF assms])
  then have "is_power x (?j + ?j + 1) (fe_mul__distinct (fe_mul__distinct ?v ?v) x)" by (rule is_power_digit [OF assms])
  moreover have "?j + ?j + 1 = p25519 - 2" by (simp add: p25519_def)
  ultimately have "is_power x (p25519 - 2) (fe_inv__distinct x)" by (simp only: fe_inv__distinct_def Let_def)
  then show "tight (fe_inv__distinct x)" "val (fe_inv__distinct x) = val x ^ (p25519 - 2) mod int p25519"
    by (simp_all add: is_power_def)
qed

end
