(* ===== verification/Curve25519_Ladder.thy ===== *)
theory Curve25519_Ladder
  imports Curve25519_Field
begin

text \<open>
  Scalar multiplication of \<^verbatim>\<open>tls_fe.c\<close> against numbers: the addition and the doubling by X
  coordinates compute Montgomery's formulas, these are the chord and the tangent of the curve, and
  the whole routine is the ladder over the bits of the scalar with one inversion at the end.
\<close>

section \<open>Montgomery's formulas\<close>

definition mont_diffadd :: "int \<Rightarrow> int \<Rightarrow> int \<Rightarrow> int \<Rightarrow> int \<Rightarrow> int \<Rightarrow> int \<times> int" where
  "mont_diffadd x1 z1 x2 z2 x3 z3 =
     (z1 * ((x2 + z2) * (x3 - z3) + (x3 + z3) * (x2 - z2)) ^ 2 mod int p25519,
      x1 * ((x2 + z2) * (x3 - z3) - (x3 + z3) * (x2 - z2)) ^ 2 mod int p25519)"

definition mont_double :: "int \<Rightarrow> int \<Rightarrow> int \<times> int" where
  "mont_double x z =
     ((x ^ 2 - z ^ 2) ^ 2 mod int p25519, 4 * (x * z) * (x ^ 2 + 486662 * (x * z) + z ^ 2) mod int p25519)"

lemma lm_sub_tight:
  assumes "length a = 32" "tight b"
  shows "tight (lm_sub a b)" "val (lm_sub a b) = (val a - val b) mod int p25519"
  using lm_sub_val [of a b] assms by (simp_all add: tight_def)

lemma fe_mul_consts:
  assumes "length a = 32"
  shows "tight (fe_mul_c a 486662)" "val (fe_mul_c a 486662) = 486662 * val a mod int p25519"
    "tight (fe_mul_c a 4)" "val (fe_mul_c a 4) = 4 * val a mod int p25519"
  using fe_mul_c_val [OF assms, of 486662] fe_mul_c_val [OF assms, of 4] by simp_all

lemmas field_vals = lm_add_val lm_sub_tight fe_mul_val fe_mul_consts tight_length

lemma val_mod: "val x mod int p25519 = val x"
  by (simp add: val_def)

lemma xc_diffadd_val:
  assumes "length x1 = 32" "length z1 = 32" "length x2 = 32" "tight z2" "length x3 = 32" "tight z3"
  shows "case xc_diffadd x1 z1 x2 z2 x3 z3 of (x5, z5) \<Rightarrow>
    tight x5 \<and> tight z5 \<and> (val x5, val z5) = mont_diffadd (val x1) (val z1) (val x2) (val z2) (val x3) (val z3)"
  using assms by (simp add: xc_diffadd_def Let_def field_vals mont_diffadd_def mod_simps power2_eq_square)

lemma xc_double_val:
  assumes "length x = 32" "length z = 32"
  shows "case xc_double x z of (x3, z3) \<Rightarrow> tight x3 \<and> tight z3 \<and> (val x3, val z3) = mont_double (val x) (val z)"
  using assms by (simp add: xc_double_def Let_def field_vals mont_double_def mod_simps power2_eq_square) (simp add: algebra_simps)

section \<open>The ladder\<close>

type_synonym mont_state = "int \<times> int \<times> int \<times> int"

text \<open>From the points \<open>m\<close> and \<open>m - 1\<close> to \<open>2m\<close> and \<open>2m - 1\<close>, or to \<open>2m + 1\<close> and \<open>2m\<close>.\<close>

definition mont_step :: "int \<Rightarrow> bool \<Rightarrow> mont_state \<Rightarrow> mont_state" where
  "mont_step u b s =
     (case s of (x, z, x', z') \<Rightarrow>
       (let (xo, zo) = mont_diffadd u 1 x z x' z';
            (xd, zd) = mont_double x z;
            (xs, zs) = mont_diffadd xo zo xd zd u 1
        in if b then (xs, zs, xd, zd) else (xd, zd, xo, zo)))"

fun mont_ladder :: "nat \<Rightarrow> int \<Rightarrow> nat \<Rightarrow> mont_state \<Rightarrow> mont_state" where
  "mont_ladder e u 0 s = s"
| "mont_ladder e u (Suc i) s = mont_ladder e u i (mont_step u (bit e i) s)"

text \<open>The result: the scalar's bits below 254 and the number \<open>u\<close>, one inversion by Fermat's theorem.\<close>

definition mont_x :: "nat \<Rightarrow> int \<Rightarrow> int" where
  "mont_x e u =
     (case mont_ladder e (u mod int p25519) 254 (u mod int p25519, 1, 1, 0) of
        (x, z, _, _) \<Rightarrow> z ^ (p25519 - 2) * x mod int p25519)"

definition points_ok :: "ladder \<Rightarrow> mont_state \<Rightarrow> bool" where
  "points_ok z s \<longleftrightarrow>
     length (xm z) = 32 \<and> tight (zm z) \<and> length (xm1 z) = 32 \<and> tight (zm1 z) \<and>
     s = (val (xm z), val (zm z), val (xm1 z), val (zm1 z))"

lemma bit_num: "i < 8 * length e \<Longrightarrow> bit (num e) i \<longleftrightarrow> bit (e ! (i div 8)) (i mod 8)"
proof (induction e arbitrary: i)
  case (Cons x e)
  have "bit (unat x + push_bit 8 (num e)) i \<longleftrightarrow> bit (unat x) i \<or> bit (push_bit 8 (num e)) i"
  proof (rule bit_disjunctive_add_iff)
    fix n
    show "\<not> bit (unat x) n \<or> \<not> bit (push_bit 8 (num e)) n"
      by (cases "n < 8") (auto simp: bit_push_bit_iff bit_unsigned_iff dest: bit_imp_le_length)
  qed
  then have b: "bit (num (x # e)) i \<longleftrightarrow> bit x i \<or> 8 \<le> i \<and> bit (num e) (i - 8)"
  proof -
    have n: "num (x # e) = unat x + push_bit 8 (num e)" by (simp add: push_bit_eq_mult)
    assume "bit (unat x + push_bit 8 (num e)) i \<longleftrightarrow> bit (unat x) i \<or> bit (push_bit 8 (num e)) i"
    then show ?thesis unfolding n by (auto simp: bit_unsigned_iff bit_push_bit_iff)
  qed
  show ?case
  proof (cases "i < 8")
    case False
    then have "\<not> bit x i" using bit_imp_le_length [of x i] by auto
    moreover have "i div 8 = Suc ((i - 8) div 8)" "(i - 8) mod 8 = i mod 8" using False by (simp_all add: div_if le_mod_geq)
    ultimately show ?thesis using b False Cons.IH [of "i - 8"] Cons.prems by simp
  qed (use b in simp)
qed simp

lemma scalar_bit:
  assumes "length e = 32" "i < 254"
  shows "drop_bit (i AND 7) (e ! drop_bit 3 i) AND 1 = (if bit (num e) i then 1 else 0)"
proof -
  have "i AND 7 = i mod 8" "drop_bit 3 i = i div 8"
    using take_bit_eq_mask [of 3 i] by (simp_all add: take_bit_eq_mod mask_eq_exp_minus_1 drop_bit_eq_div)
  moreover have "drop_bit k w AND 1 = (if bit w k then 1 else 0)" for k and w :: u8
    by (rule bit_word_eqI) (auto simp: bit_drop_bit_eq bit_and_iff bit_1_iff, metis add_0_right gr0I)
  ultimately show ?thesis using assms by (simp add: bit_num)
qed

lemma one_zero: "length f25519_one = 32" "tight f25519_one" "val f25519_one = 1" "length zero_fe = 32" "tight zero_fe" "val zero_fe = 0"
proof -
  have z: "num (replicate n 0) = 0" for n by (induction n) simp_all
  have o: "f25519_one = 1 # replicate 31 0"
    by (simp add: f25519_one_def zero_fe_def F25519_SIZE_def numeral_eq_Suc)
  show "length f25519_one = 32" "tight f25519_one" "val f25519_one = 1" "length zero_fe = 32" "tight zero_fe" "val zero_fe = 0"
    by (simp_all add: o z zero_fe_def F25519_SIZE_def tight_def val_def p25519_def)
qed

lemma ladder_step_ok:
  assumes "length e = 32" "length q = 32" "i < 254" "points_ok z s"
  shows "points_ok (ladder_step e q i z) (mont_step (val q) (bit (num e) i) s)" "tight (xm (ladder_step e q i z))" "tight (xm1 (ladder_step e q i z))"
proof -
  obtain xo zo where o: "xc_diffadd q f25519_one (xm z) (zm z) (xm1 z) (zm1 z) = (xo, zo)" by fastforce
  obtain xd zd where d: "xc_double (xm z) (zm z) = (xd, zd)" by fastforce
  obtain xs zs where s: "xc_diffadd xo zo xd zd q f25519_one = (xs, zs)" by fastforce
  have o': "tight xo" "tight zo" "(val xo, val zo) = mont_diffadd (val q) 1 (val (xm z)) (val (zm z)) (val (xm1 z)) (val (zm1 z))"
    using xc_diffadd_val [of q f25519_one "xm z" "zm z" "xm1 z" "zm1 z"] assms by (simp_all add: o points_ok_def one_zero)
  have d': "tight xd" "tight zd" "(val xd, val zd) = mont_double (val (xm z)) (val (zm z))"
    using xc_double_val [of "xm z" "zm z"] assms by (simp_all add: d points_ok_def tight_length)
  have s': "tight xs" "tight zs" "(val xs, val zs) = mont_diffadd (val xo) (val zo) (val xd) (val zd) (val q) 1"
    using xc_diffadd_val [of xo zo xd zd q f25519_one] assms o' d' by (simp_all add: s one_zero tight_length)
  have sel: "fe_select a b (if c then 1 else 0) = (if c then b else a)" if "tight a" "tight b" for a b c
    using fe_select_bit [of a b] that by (simp add: tight_length)
  note run = ladder_step_def Let_def o d s scalar_bit [OF assms(1,3)] prod.case
  show "points_ok (ladder_step e q i z) (mont_step (val q) (bit (num e) i) s)"
    using assms(4) o' d' s' by (simp add: run sel points_ok_def mont_step_def tight_length flip: o'(3) d'(3) s'(3))
  show "tight (xm (ladder_step e q i z))" "tight (xm1 (ladder_step e q i z))"
    using o' d' s' by (simp_all add: run sel)
qed

lemma ladder_loop_ok:
  assumes "length e = 32" "length q = 32"
  shows "n \<le> 254 \<Longrightarrow> points_ok z s \<Longrightarrow> points_ok (ladder_loop e q n z) (mont_ladder (num e) (val q) n s)
    \<and> (0 < n \<longrightarrow> tight (xm (ladder_loop e q n z)) \<and> tight (xm1 (ladder_loop e q n z)))"
proof (induction n arbitrary: z s)
  case (Suc n)
  have "points_ok (ladder_step e q n z) (mont_step (val q) (bit (num e) n) s)"
    "tight (xm (ladder_step e q n z))" "tight (xm1 (ladder_step e q n z))"
    using ladder_step_ok [OF assms] Suc.prems by simp_all
  then show ?case using Suc.IH Suc.prems(1) by (cases n) simp_all
qed simp

lemma ladder_start_ok: "length q = 32 \<Longrightarrow> points_ok (ladder_start q) (val q, 1, 1, 0)"
  by (simp add: points_ok_def ladder_start_def lm_copy_def F25519_SIZE_def one_zero)

lemma curve25519_num:
  assumes "length e = 32" "length q = 32"
  shows "length (curve25519 e q) = 32 \<and> int (num (curve25519 e q)) = mont_x (num e) (int (num q))"
proof -
  let ?z = "ladder_loop e q 254 (ladder_start q)"
  have ok: "points_ok ?z (mont_ladder (num e) (val q) 254 (val q, 1, 1, 0))" "tight (xm ?z)"
    using ladder_loop_ok [OF assms order_refl ladder_start_ok [OF assms(2)]] by simp_all
  have len: "length (zm ?z) = 32" using ok by (simp add: points_ok_def tight_length)
  have inv: "tight (fe_inv__distinct (zm ?z))" "val (fe_inv__distinct (zm ?z)) = val (zm ?z) ^ (p25519 - 2) mod int p25519"
    by (rule fe_inv_val [OF len])+
  have mul: "tight (fe_mul__distinct (fe_inv__distinct (zm ?z)) (xm ?z))"
    "val (fe_mul__distinct (fe_inv__distinct (zm ?z)) (xm ?z)) = val (zm ?z) ^ (p25519 - 2) * val (xm ?z) mod int p25519"
    using fe_mul_val [of "fe_inv__distinct (zm ?z)" "xm ?z"] inv ok(2) by (simp_all add: tight_length mod_mult_left_eq)
  have u: "int (num q) mod int p25519 = val q" by (simp add: val_def)
  show ?thesis
    using fe_normalize_num [OF tight_length [OF mul(1)]] mul(2) ok(1)
    by (auto simp: curve25519_def Let_def mont_x_def u points_ok_def split: prod.split)
qed

section \<open>The curve\<close>

text \<open>Equality in the field, and the curve \<open>y\<^sup>2 = x\<^sup>3 + 486662 x\<^sup>2 + x\<close> over it.\<close>

definition eqp :: "int \<Rightarrow> int \<Rightarrow> bool" where
  "eqp a b \<longleftrightarrow> a mod int p25519 = b mod int p25519"

definition cubic :: "int \<Rightarrow> int" where
  "cubic x = x ^ 3 + 486662 * x ^ 2 + x"

definition on_curve :: "int \<Rightarrow> int \<Rightarrow> bool" where
  "on_curve x y \<longleftrightarrow> eqp (y ^ 2) (cubic x)"

text \<open>The X coordinate of the third point on a line of slope \<open>l\<close>, with its sign turned.\<close>

definition third_x :: "int \<Rightarrow> int \<Rightarrow> int \<Rightarrow> int" where
  "third_x l x2 x3 = l ^ 2 - 486662 - x2 - x3"

lemma eqp_refl [simp]: "eqp a a" by (simp add: eqp_def)
lemma eqp_eq: "a = b \<Longrightarrow> eqp a b" by (simp add: eqp_def)
lemma eqp_sym: "eqp a b \<Longrightarrow> eqp b a" by (simp add: eqp_def)
lemma eqp_trans [trans]: "eqp a b \<Longrightarrow> eqp b c \<Longrightarrow> eqp a c" by (simp add: eqp_def)
lemma eqp_add: "eqp a b \<Longrightarrow> eqp c d \<Longrightarrow> eqp (a + c) (b + d)" unfolding eqp_def by (rule mod_add_cong)
lemma eqp_diff: "eqp a b \<Longrightarrow> eqp c d \<Longrightarrow> eqp (a - c) (b - d)" unfolding eqp_def by (rule mod_diff_cong)
lemma eqp_mult: "eqp a b \<Longrightarrow> eqp c d \<Longrightarrow> eqp (a * c) (b * d)" unfolding eqp_def by (rule mod_mult_cong)
lemma eqp_power: "eqp a b \<Longrightarrow> eqp (a ^ n) (b ^ n)" unfolding eqp_def by (metis power_mod)

lemmas eqp_intros = eqp_add eqp_diff eqp_mult eqp_power eqp_refl

lemma eqp_cancel:
  assumes "eqp (i * d) 1" "eqp (a * d ^ 2) (b * d ^ 2)"
  shows "eqp a b"
proof -
  have unit: "eqp (c * d ^ 2 * i ^ 2) c" for c
  proof -
    have "c * d ^ 2 * i ^ 2 = c * (i * d) ^ 2" by algebra
    also have "eqp \<dots> (c * 1 ^ 2)" by (intro eqp_intros assms(1))
    finally show ?thesis by simp
  qed
  have "eqp a (a * d ^ 2 * i ^ 2)" by (rule eqp_sym [OF unit])
  also have "eqp \<dots> (b * d ^ 2 * i ^ 2)" by (rule eqp_mult [OF assms(2) eqp_refl])
  also have "eqp \<dots> b" by (rule unit)
  finally show ?thesis .
qed

lemma chord_identity:
  fixes x2 x3 :: int
  shows "(cubic x2 + cubic x3 - (486662 + x2 + x3) * (x3 - x2) ^ 2) ^ 2 - 4 * (cubic x2 * cubic x3) = (x2 * x3 - 1) ^ 2 * (x3 - x2) ^ 2"
  unfolding cubic_def by algebra

lemma chord_product:
  assumes "on_curve x2 y2" "on_curve x3 y3" "eqp (i * (x3 - x2)) 1"
  shows "eqp (third_x ((y3 - y2) * i) x2 x3 * third_x ((y3 + y2) * i) x2 x3 * (x3 - x2) ^ 2) ((x2 * x3 - 1) ^ 2)"
proof -
  let ?D = "x3 - x2" and ?K = "(486662 + x2 + x3) * (x3 - x2) ^ 2"
  let ?s = "third_x ((y3 - y2) * i) x2 x3" and ?d = "third_x ((y3 + y2) * i) x2 x3"
  have line: "eqp (third_x (l * i) x2 x3 * ?D ^ 2) (l ^ 2 - ?K)" for l
  proof -
    have "third_x (l * i) x2 x3 * ?D ^ 2 = l ^ 2 * (i * ?D) ^ 2 - ?K" unfolding third_x_def by algebra
    also have "eqp (l ^ 2 * (i * ?D) ^ 2 - ?K) (l ^ 2 * 1 ^ 2 - ?K)" by (intro eqp_intros assms(3))
    finally show ?thesis by simp
  qed
  have "(?s * ?d * ?D ^ 2) * ?D ^ 2 = (?s * ?D ^ 2) * (?d * ?D ^ 2)" by algebra
  also have "eqp ((?s * ?D ^ 2) * (?d * ?D ^ 2)) (((y3 - y2) ^ 2 - ?K) * ((y3 + y2) ^ 2 - ?K))"
    by (intro eqp_mult line)
  also have "((y3 - y2) ^ 2 - ?K) * ((y3 + y2) ^ 2 - ?K) = (y2 ^ 2 + y3 ^ 2 - ?K) ^ 2 - 4 * (y2 ^ 2 * y3 ^ 2)" by algebra
  also have "eqp \<dots> ((cubic x2 + cubic x3 - ?K) ^ 2 - 4 * (cubic x2 * cubic x3))"
    using assms(1,2) unfolding on_curve_def by (intro eqp_intros)
  also have "\<dots> = (x2 * x3 - 1) ^ 2 * ?D ^ 2" by (rule chord_identity)
  finally show ?thesis by (rule eqp_cancel [OF assms(3)])
qed

lemma diffadd_chord:
  assumes "on_curve x2 y2" "on_curve x3 y3" "eqp (i * (x3 - x2)) 1"
    and "eqp X2 (x2 * Z2)" "eqp X3 (x3 * Z3)" "eqp X1 (third_x ((y3 + y2) * i) x2 x3 * Z1)"
    and "(X5, Z5) = mont_diffadd X1 Z1 X2 Z2 X3 Z3"
  shows "eqp X5 (third_x ((y3 - y2) * i) x2 x3 * Z5)"
proof -
  let ?s = "third_x ((y3 - y2) * i) x2 x3" and ?d = "third_x ((y3 + y2) * i) x2 x3"
  have "eqp X5 (Z1 * (2 * (X2 * X3 - Z2 * Z3)) ^ 2)"
    using assms(7) by (simp add: mont_diffadd_def eqp_def algebra_simps)
  also have "eqp \<dots> (Z1 * (2 * ((x2 * Z2) * (x3 * Z3) - Z2 * Z3)) ^ 2)"
    by (intro eqp_intros assms(4,5))
  also have "\<dots> = 4 * Z1 * (Z2 * Z3) ^ 2 * (x2 * x3 - 1) ^ 2" by algebra
  finally have 1: "eqp X5 (4 * Z1 * (Z2 * Z3) ^ 2 * (x2 * x3 - 1) ^ 2)" .
  have "eqp Z5 (X1 * (2 * (Z2 * X3 - X2 * Z3)) ^ 2)"
    using assms(7) by (simp add: mont_diffadd_def eqp_def algebra_simps)
  also have "eqp \<dots> ((?d * Z1) * (2 * (Z2 * (x3 * Z3) - (x2 * Z2) * Z3)) ^ 2)"
    by (intro eqp_intros assms(4,5,6))
  finally have "eqp (?s * Z5) (?s * ((?d * Z1) * (2 * (Z2 * (x3 * Z3) - (x2 * Z2) * Z3)) ^ 2))" by (intro eqp_intros)
  also have "\<dots> = 4 * Z1 * (Z2 * Z3) ^ 2 * (?s * ?d * (x3 - x2) ^ 2)" by algebra
  also have "eqp \<dots> (4 * Z1 * (Z2 * Z3) ^ 2 * (x2 * x3 - 1) ^ 2)"
    by (intro eqp_mult eqp_refl chord_product assms(1-3))
  finally show ?thesis using 1 by (meson eqp_sym eqp_trans)
qed

lemma double_tangent:
  assumes "on_curve x y" "eqp (i * (2 * y)) 1" "eqp X (x * Z)" "(X3, Z3) = mont_double X Z"
  shows "eqp X3 (third_x ((3 * x ^ 2 + 2 * 486662 * x + 1) * i) x x * Z3)"
proof -
  let ?n = "3 * x ^ 2 + 2 * 486662 * x + 1"
  let ?t = "third_x (?n * i) x x"
  have "?t * (2 * y) ^ 2 = ?n ^ 2 * (i * (2 * y)) ^ 2 - (486662 + 2 * x) * (4 * y ^ 2)" unfolding third_x_def by algebra
  also have "eqp \<dots> (?n ^ 2 * 1 ^ 2 - (486662 + 2 * x) * (4 * cubic x))"
    using assms(1) unfolding on_curve_def by (intro eqp_intros assms(2))
  also have "\<dots> = (x ^ 2 - 1) ^ 2"
    by (simp add: cubic_def algebra_simps power2_eq_square power3_eq_cube)
  finally have t: "eqp (?t * (2 * y) ^ 2) ((x ^ 2 - 1) ^ 2)" .
  have "eqp X3 ((X ^ 2 - Z ^ 2) ^ 2)" using assms(4) by (simp add: mont_double_def eqp_def)
  also have "eqp \<dots> (((x * Z) ^ 2 - Z ^ 2) ^ 2)" by (intro eqp_intros assms(3))
  also have "\<dots> = Z ^ 4 * (x ^ 2 - 1) ^ 2" by algebra
  finally have 1: "eqp X3 (Z ^ 4 * (x ^ 2 - 1) ^ 2)" .
  have "eqp Z3 (4 * (X * Z) * (X ^ 2 + 486662 * (X * Z) + Z ^ 2))" using assms(4) by (simp add: mont_double_def eqp_def)
  also have "eqp \<dots> (4 * ((x * Z) * Z) * ((x * Z) ^ 2 + 486662 * ((x * Z) * Z) + Z ^ 2))" by (intro eqp_intros assms(3))
  also have "\<dots> = Z ^ 4 * (4 * cubic x)" unfolding cubic_def by algebra
  also have "eqp \<dots> (Z ^ 4 * (4 * y ^ 2))"
    using assms(1) unfolding on_curve_def by (intro eqp_mult eqp_refl) (rule eqp_sym)
  finally have "eqp (?t * Z3) (?t * (Z ^ 4 * (4 * y ^ 2)))" by (intro eqp_intros)
  also have "\<dots> = Z ^ 4 * (?t * (2 * y) ^ 2)" by algebra
  also have "eqp \<dots> (Z ^ 4 * (x ^ 2 - 1) ^ 2)" by (intro eqp_mult eqp_refl t)
  finally show ?thesis using 1 by (meson eqp_sym eqp_trans)
qed

section \<open>What the routine computes\<close>

lemma num_inject: "length xs = length ys \<Longrightarrow> num xs = num ys \<Longrightarrow> xs = ys"
proof (induction xs ys rule: list_induct2)
  case (Cons x xs y ys)
  have eq: "unat x + 256 * num xs = unat y + 256 * num ys" using Cons.prems by simp
  have "(unat x + 256 * num xs) mod 256 = unat x" "(unat x + 256 * num xs) div 256 = num xs"
    "(unat y + 256 * num ys) mod 256 = unat y" "(unat y + 256 * num ys) div 256 = num ys"
    using byte_less [of x] byte_less [of y] by simp_all
  then have "unat x = unat y \<and> num xs = num ys" unfolding eq by simp
  then show ?case using Cons.IH by (simp add: word_unat_eq_iff)
qed simp

lemma num_zeros: "num (replicate n 0) = 0"
  by (induction n) simp_all

lemma mont_ladder_bits: "(\<And>i. i < n \<Longrightarrow> bit e i = bit e' i) \<Longrightarrow> mont_ladder e u n s = mont_ladder e' u n s"
  by (induction n arbitrary: s) auto

text \<open>
  C34. Every array of the ladder keeps its type: 32 bytes, a number below \<open>2\<^sup>2\<^sup>5\<^sup>5 + 2\<^sup>2\<^sup>6\<close>, which is what the
  subtraction needs of its operand to stay above zero; the one exception is the array that still
  holds the peer's point before the first step, and it is never subtracted.
\<close>

theorem ladder_arrays:
  assumes "length e = 32" "length q = 32" "n \<le> 254"
  shows "length (xm (ladder_loop e q n (ladder_start q))) = 32 \<and> length (xm1 (ladder_loop e q n (ladder_start q))) = 32
    \<and> tight (zm (ladder_loop e q n (ladder_start q))) \<and> tight (zm1 (ladder_loop e q n (ladder_start q)))
    \<and> (n = 0 \<or> tight (xm (ladder_loop e q n (ladder_start q))) \<and> tight (xm1 (ladder_loop e q n (ladder_start q))))"
  using ladder_loop_ok [OF assms(1,2,3) ladder_start_ok [OF assms(2)]] by (auto simp: points_ok_def)

lemma ladder_arrays_witness:
  "tight (xm (ladder_loop (replicate 32 0) (replicate 32 0xff) 1 (ladder_start (replicate 32 0xff))))"
  using ladder_arrays [of "replicate 32 0" "replicate 32 0xff" 1] by simp

text \<open>
  C31. \<^verbatim>\<open>curve25519\<close> is Montgomery's ladder: for a scalar and a point of 32 bytes it writes the 32 bytes
  of the least number that is the X coordinate the ladder gives over the field modulo
  \<open>2\<^sup>2\<^sup>5\<^sup>5 - 19\<close>, divided by its Z coordinate as a power.
\<close>

theorem curve25519_ladder:
  assumes "length e = 32" "length q = 32"
  shows "length (curve25519 e q) = 32 \<and> int (num (curve25519 e q)) = mont_x (num e) (int (num q))"
  by (rule curve25519_num [OF assms])

lemma curve25519_ladder_witness:
  "int (num (curve25519 (replicate 32 0) f25519_one)) = mont_x (num (replicate 32 0)) 1"
  using curve25519_ladder [of "replicate 32 0" f25519_one] by (simp add: one_zero(1)) (simp add: f25519_one_def zero_fe_def F25519_SIZE_def numeral_eq_Suc)

text \<open>
  C35. The point counts modulo the prime with all its 256 bits, and of the scalar only the bits below
  254 count: two calls that agree on them give the same bytes.
\<close>

theorem curve25519_congruent:
  assumes "length e = 32" "length e' = 32" "length q = 32" "length q' = 32"
    and "num q mod p25519 = num q' mod p25519" "\<And>i. i < 254 \<Longrightarrow> bit (num e) i = bit (num e') i"
  shows "curve25519 e q = curve25519 e' q'"
proof (rule num_inject)
  have "int (num q) mod int p25519 = int (num q') mod int p25519" using assms(5) by (metis zmod_int)
  then have "mont_x (num e) (int (num q)) = mont_x (num e') (int (num q'))"
    unfolding mont_x_def using mont_ladder_bits [OF assms(6)] by simp
  then show "num (curve25519 e q) = num (curve25519 e' q')"
    using curve25519_num assms(1-4) by (metis nat_int)
  show "length (curve25519 e q) = length (curve25519 e' q')" using curve25519_num assms(1-4) by simp
qed

text \<open>The point with bit 255 set and nothing else is the point 19, not the point 0.\<close>

lemma curve25519_congruent_witness:
  "curve25519 (replicate 32 0) (replicate 31 0 @ [0x80]) = curve25519 (replicate 32 0) (19 # replicate 31 0)"
  by (rule curve25519_congruent) (simp_all add: p25519_def num_append num_zeros)

text \<open>
  C32. \<^verbatim>\<open>xc_diffadd\<close> adds on the curve: when its second and third operands are the X coordinates of two
  points in projective form, and the first that of their difference, the result is the X coordinate
  of their sum, the third point on the line through them.
\<close>

theorem xc_diffadd_sum:
  assumes "length x1 = 32" "length z1 = 32" "length X2 = 32" "tight Z2" "length X3 = 32" "tight Z3"
    and "on_curve x2 y2" "on_curve x3 y3" "eqp (i * (x3 - x2)) 1"
    and "eqp (val X2) (x2 * val Z2)" "eqp (val X3) (x3 * val Z3)"
    and "eqp (val x1) (third_x ((y3 + y2) * i) x2 x3 * val z1)"
  shows "case xc_diffadd x1 z1 X2 Z2 X3 Z3 of (x5, z5) \<Rightarrow> eqp (val x5) (third_x ((y3 - y2) * i) x2 x3 * val z5)"
  using xc_diffadd_val [OF assms(1-6)] diffadd_chord [OF assms(7-12)] by (auto split: prod.splits)

lemma xc_diffadd_sum_witness:
  "case xc_diffadd f25519_one f25519_one zero_fe f25519_one f25519_one f25519_one of (x5, z5) \<Rightarrow>
     eqp (val x5) (third_x ((9094040566125962849133224048217411091405536248825867518642941381412595940312 - 0) * 1) 0 1 * val z5)"
  by (rule xc_diffadd_sum) (simp_all add: one_zero on_curve_def cubic_def third_x_def eqp_def p25519_def)

text \<open>C33. \<^verbatim>\<open>xc_double\<close> doubles on the curve: the result is the X coordinate given by the tangent.\<close>

theorem xc_double_tangent:
  assumes "length X = 32" "length Z = 32"
    and "on_curve x y" "eqp (i * (2 * y)) 1" "eqp (val X) (x * val Z)"
  shows "case xc_double X Z of (x3, z3) \<Rightarrow> eqp (val x3) (third_x ((3 * x ^ 2 + 2 * 486662 * x + 1) * i) x x * val z3)"
  using xc_double_val [OF assms(1,2)] double_tangent [OF assms(3-5)] by (auto split: prod.splits)

lemma xc_double_tangent_witness:
  "case xc_double f25519_one f25519_one of (x3, z3) \<Rightarrow>
     eqp (val x3) (third_x ((3 * 1 ^ 2 + 2 * 486662 * 1 + 1) * 36119249514614406295620883231225035441863480748360996246912977576677032335271) 1 1 * val z3)"
  by (rule xc_double_tangent [where y = 9094040566125962849133224048217411091405536248825867518642941381412595940312]) (simp_all add: one_zero on_curve_def cubic_def eqp_def p25519_def)

end
