(* ===== verification/Tr.thy ===== *)
theory Tr
  imports Numbers
begin

text \<open>
  The applet \<^verbatim>\<open>tr\<close> (\<^verbatim>\<open>coreutils/tr.c\<close>) with the escapes of \<^verbatim>\<open>libbb/process_escape_sequence.c\<close>. A C
  string is the list of its bytes without the terminating NUL, which is what \<^verbatim>\<open>*s\<close> reads behind
  them. The input is the sequence of what the calls of \<^verbatim>\<open>safe_read\<close> return.
\<close>

section \<open>Escape sequences\<close>

text \<open>
  The digit \<open>d\<close> of a character, as the unsigned number the code compares with the base, and the ways
  the digit loop ends: \<^verbatim>\<open>\x\<close> without a digit returns at once, else the number of digits, the value
  and the rest.
\<close>

definition escape_digit :: "u8 \<Rightarrow> u32" where
  "escape_digit c =
     (let d = ucast c - 48 in
      if d \<ge> 10 then (let d = ucast (c OR 0x20) - 97 in if sint d \<ge> 0 then d + 10 else d) else d)"

datatype digits = Bad_hex | Digits nat u32 bytes

function escape_digits :: "u32 \<Rightarrow> nat \<Rightarrow> u32 \<Rightarrow> bytes \<Rightarrow> digits" where
  "escape_digits base num_digits n q =
     (let d = escape_digit (first_char q) in
      if d \<ge> base then
        (if base = 16 then (if num_digits - 1 = 0 then Bad_hex else Digits (num_digits - 1) n q)
         else Digits num_digits n q)
      else (let r = n * base + d in
            if r > 255 then Digits num_digits n q
            else if num_digits + 1 < 3 then escape_digits base (num_digits + 1) r (tl q)
            else Digits (num_digits + 1) r (tl q)))"
  by pat_completeness auto
termination by (relation "measure (\<lambda>(base, num_digits, n, q). 3 - num_digits)") auto

declare escape_digits.simps [simp del]

definition charmap :: "(u8 \<times> u8) list" where
  "charmap = [(97, 7), (98, 8), (101, 27), (102, 12), (110, 10), (114, 13), (116, 9), (118, 11), (92, 92)]"

text \<open>The character and the rest of the string behind the backslash.\<close>

definition bb_process_escape_sequence :: "bytes \<Rightarrow> u8 \<times> bytes" where
  "bb_process_escape_sequence ptr =
     (let (base, num_digits, q) = (if first_char ptr = 120 then (16, 1, tl ptr) else (8, 0, ptr)) in
      case escape_digits base num_digits 0 q of
        Bad_hex \<Rightarrow> (92, ptr)
      | Digits num_digits n q \<Rightarrow>
          (if num_digits = 0 then
             (case map_of charmap (first_char q) of Some c \<Rightarrow> (c, tl q) | None \<Rightarrow> (92, q))
           else (ucast n, q)))"

section \<open>Expanding a string\<close>

definition ASCII :: nat where "ASCII = 256"

definition TR_BUFSIZ :: "nat \<Rightarrow> nat" where
  "TR_BUFSIZ BUFSIZ = (if BUFSIZ > ASCII * 2 then BUFSIZ else ASCII * 2)"

definition isprint_asciionly :: "u8 \<Rightarrow> bool" where
  "isprint_asciionly a \<longleftrightarrow> (ucast a :: u32) - 0x20 \<le> 0x7e - 0x20"

definition iscntrl :: "u8 \<Rightarrow> bool" where
  "iscntrl a \<longleftrightarrow> a < 32 \<or> a = 0x7f"

definition char_range :: "nat \<Rightarrow> nat \<Rightarrow> bytes" where
  "char_range lo hi = map of_nat [lo..<Suc hi]"

datatype tr_class = CLASS_alpha | CLASS_alnum | CLASS_digit | CLASS_lower | CLASS_upper
  | CLASS_space | CLASS_blank | CLASS_punct | CLASS_cntrl | CLASS_xdigit

definition classes :: "(bytes \<times> tr_class) list" where
  "classes =
     [(ascii ''alpha:]'', CLASS_alpha), (ascii ''alnum:]'', CLASS_alnum), (ascii ''digit:]'', CLASS_digit),
      (ascii ''lower:]'', CLASS_lower), (ascii ''upper:]'', CLASS_upper), (ascii ''space:]'', CLASS_space),
      (ascii ''blank:]'', CLASS_blank), (ascii ''punct:]'', CLASS_punct), (ascii ''cntrl:]'', CLASS_cntrl),
      (ascii ''xdigit:]'', CLASS_xdigit)]"

text \<open>The characters a class appends to the buffer, in order.\<close>

definition class_chars :: "tr_class \<Rightarrow> bytes" where
  "class_chars j =
     (if j = CLASS_alnum \<or> j = CLASS_digit \<or> j = CLASS_xdigit then char_range 48 57 else []) @
     (if j = CLASS_alpha \<or> j = CLASS_alnum \<or> j = CLASS_upper then char_range 65 90 else []) @
     (if j = CLASS_alpha \<or> j = CLASS_alnum \<or> j = CLASS_lower then char_range 97 122 else []) @
     (if j = CLASS_space \<or> j = CLASS_blank then [9] @ (if j = CLASS_space then [10, 11, 12, 13] else []) @ [32] else []) @
     (if j = CLASS_punct \<or> j = CLASS_cntrl then
        filter (\<lambda>i. j = CLASS_punct \<and> isprint_asciionly i \<and> \<not> bb_isalnum i \<and> \<not> bb_isspace i \<or> j = CLASS_cntrl \<and> iscntrl i)
          (char_range 0 (ASCII - 1)) else []) @
     (if j = CLASS_xdigit then char_range 65 70 @ map (\<lambda>i. i OR 0x20) (char_range 65 70) else [])"

text \<open>
  What one turn of the loop appends for the string \<open>arg\<close> (not empty, a backslash already replaced),
  and the rest of the string; \<open>None\<close> is \<^verbatim>\<open>bb_show_usage\<close>.
\<close>

definition expand_range :: "u8 \<Rightarrow> bytes \<Rightarrow> bytes \<times> bytes" where
  "expand_range c rest =
     (let ac = first_char (tl rest) in
      if ac = 0 then ([c], rest)
      else (let arg = tl (tl rest);
                (ac, arg) = (if ac = 92 then bb_process_escape_sequence arg else (ac, arg))
            in (if unat c \<le> unat ac then char_range (unat c) (unat ac) else [], arg)))"

definition expand_bracket :: "bytes \<Rightarrow> (bytes \<times> bytes) option" where
  "expand_bracket rest =
     (let i = first_char rest; arg = tl rest in
      if i = 58 then
        (let i = 7 + (if first_char arg = 120 then 1 else 0) in
         case map_of classes (take i arg) of
           None \<Rightarrow> Some ([91], rest)
         | Some j \<Rightarrow> Some (class_chars j, drop i arg))
      else if i = 61 then
        (if first_char arg = 0 \<or> first_char (tl arg) \<noteq> 61 \<or> first_char (tl (tl arg)) \<noteq> 93 then None
         else Some ([first_char arg], drop 3 arg))
      else Some ([91], rest))"

definition expand_one :: "u8 \<Rightarrow> bytes \<Rightarrow> (bytes \<times> bytes) option" where
  "expand_one c rest =
     (if first_char rest = 45 then Some (expand_range c rest)
      else if c = 91 then expand_bracket rest
      else Some ([c], rest))"

lemma escape_digits_rest: "escape_digits base num_digits n q = Digits k m r \<Longrightarrow> length r \<le> length q"
proof (induction base num_digits n q rule: escape_digits.induct)
  case (1 base num_digits n q)
  show ?case
    using 1 by (subst (asm) escape_digits.simps) (force simp: Let_def split: if_splits)
qed

lemma escape_rest: "length (snd (bb_process_escape_sequence ptr)) \<le> length ptr"
  using escape_digits_rest [of 16 1 0 "tl ptr"] escape_digits_rest [of 8 0 0 ptr]
  by (auto simp: bb_process_escape_sequence_def split: digits.split option.split)

lemma expand_one_rest: "expand_one c rest = Some (out, rest') \<Longrightarrow> length rest' \<le> length rest"
  using escape_rest [of "tl (tl rest)"]
  by (auto simp: expand_one_def expand_range_def expand_bracket_def Let_def split: if_splits option.splits prod.splits)

text \<open>
  The loop of \<^verbatim>\<open>expand\<close>: \<open>sz\<close> is the size of the buffer, which grows when less than the whole
  alphabet fits behind the position. A write behind the buffer is the error \<open>Overrun\<close>.
\<close>

datatype tr_error = Tr_usage | String2_empty | Overrun

function expand_loop :: "bytes \<Rightarrow> nat \<Rightarrow> bytes \<Rightarrow> tr_error + bytes \<times> nat" where
  "expand_loop buffer sz [] = Inr (buffer, sz)"
| "expand_loop buffer sz (c # arg) =
     (let sz = (if length buffer + ASCII > sz then sz + ASCII else sz);
          (c, rest) = (if c = 92 then bb_process_escape_sequence arg else (c, arg))
      in case expand_one c rest of
           None \<Rightarrow> Inl Tr_usage
         | Some (out, rest) \<Rightarrow>
             (if length buffer + length out > sz then Inl Overrun else expand_loop (buffer @ out) sz rest))"
  by pat_completeness auto
termination
proof (relation "measure (\<lambda>(buffer, sz, arg). length arg)")
  fix buffer sz c arg sz' y c' rest out rest' z
  assume *: "y = (if c = 92 then bb_process_escape_sequence arg else (c, arg))" "(c', rest) = y"
    "expand_one c' rest = Some z" "(out, rest') = z"
  have "length rest \<le> length arg" using *(1,2) escape_rest [of arg] by (auto split: if_splits simp: prod_eq_iff)
  moreover have "length rest' \<le> length rest" using *(3,4) expand_one_rest [of c' rest out rest'] by simp
  ultimately show "((buffer @ out, sz', rest'), buffer, sz, c # arg) \<in> measure (\<lambda>(buffer, sz, arg). length arg)" by simp
qed simp

definition expand :: "nat \<Rightarrow> bytes \<Rightarrow> tr_error + bytes \<times> nat" where
  "expand BUFSIZ arg = expand_loop [] (TR_BUFSIZ BUFSIZ) arg"

section \<open>The applet\<close>

definition complement :: "bytes \<Rightarrow> bytes" where
  "complement buffer = filter (\<lambda>ch. ch \<notin> set buffer) (char_range 0 (ASCII - 1))"

text \<open>\<^verbatim>\<open>map\<close>: the table, what is left of both strings, and \<open>last\<close>.\<close>

fun tr_map :: "bytes \<Rightarrow> bytes \<Rightarrow> bytes \<Rightarrow> u8 \<Rightarrow> bytes" where
  "tr_map pvector [] string2 last_c = pvector"
| "tr_map pvector (c # string1) [] last_c = tr_map (pvector[unat c := last_c]) string1 [] last_c"
| "tr_map pvector (c # string1) (d # string2) last_c = tr_map (pvector[unat c := d]) string1 string2 d"

definition mark_chars :: "bytes \<Rightarrow> bool list" where
  "mark_chars str = foldl (\<lambda>v c. v[unat c := True]) (replicate ASCII False) str"

record tr_opts =
  opt_complement :: bool
  opt_delete :: bool
  opt_squeeze_reps :: bool

text \<open>The characters of one read: what goes to the output buffer, and \<open>last\<close>.\<close>

fun tr_chars :: "tr_opts \<Rightarrow> bytes \<Rightarrow> bool list \<Rightarrow> bool list \<Rightarrow> nat \<Rightarrow> bytes \<Rightarrow> bytes \<times> nat" where
  "tr_chars opts vector invec outvec last_c [] = ([], last_c)"
| "tr_chars opts vector invec outvec last_c (c # str1) =
     (if opt_delete opts \<and> invec ! unat c then tr_chars opts vector invec outvec last_c str1
      else (let coded = vector ! unat c in
            if opt_squeeze_reps opts \<and> last_c = unat coded \<and> (invec ! unat c \<or> outvec ! unat coded)
            then tr_chars opts vector invec outvec last_c str1
            else (let (out, last_c) = tr_chars opts vector invec outvec (unat coded) str1 in (coded # out, last_c))))"

text \<open>The reads up to the end of the input, and the writes.\<close>

fun tr_reads :: "tr_opts \<Rightarrow> bytes \<Rightarrow> bool list \<Rightarrow> bool list \<Rightarrow> nat \<Rightarrow> bytes list \<Rightarrow> bytes list" where
  "tr_reads opts vector invec outvec last_c [] = []"
| "tr_reads opts vector invec outvec last_c (str1 # reads) =
     (let (out, last_c) = tr_chars opts vector invec outvec last_c str1
      in (if out = [] then [] else [out]) @ tr_reads opts vector invec outvec last_c reads)"

text \<open>
  \<^verbatim>\<open>tr_main\<close> on its options and arguments, the reads, and whether the last_c read fails: the writes, and
  whether it ends with the message of a read error.
\<close>

definition tr_main :: "nat \<Rightarrow> tr_opts \<Rightarrow> bytes \<Rightarrow> bytes option \<Rightarrow> bytes list \<Rightarrow> bool \<Rightarrow> tr_error + bytes list \<times> bool" where
  "tr_main BUFSIZ opts arg1 arg2 reads read_error =
     (case expand BUFSIZ arg1 of
        Inl e \<Rightarrow> Inl e
      | Inr (str1, _) \<Rightarrow>
          (let vector = char_range 0 (ASCII - 1);
               str1 = (if opt_complement opts then complement str1 else str1);
               run = (\<lambda>vector str2. Inr (tr_reads opts vector (mark_chars str1) (mark_chars str2) 256 reads, read_error))
           in case arg2 of
                None \<Rightarrow> run vector []
              | Some arg2 \<Rightarrow>
                  (if arg2 = [] then Inl String2_empty
                   else case expand BUFSIZ arg2 of
                          Inl e \<Rightarrow> Inl e
                        | Inr (str2, _) \<Rightarrow> run (tr_map vector str1 str2 48) str2)))"

section \<open>What tr promises\<close>

text \<open>
  The translation of a character: the string \<open>S1\<close> paired with \<open>S2\<close>, whose last character fills up,
  the last pair of a character counting.
\<close>

definition tr_pairs :: "bytes \<Rightarrow> bytes \<Rightarrow> (u8 \<times> u8) list" where
  "tr_pairs s1 s2 = zip s1 (s2 @ replicate (length s1 - length s2) (last s2))"

definition translate :: "bytes \<Rightarrow> bytes \<Rightarrow> u8 \<Rightarrow> u8" where
  "translate s1 s2 c = (case map_of (rev (tr_pairs s1 s2)) c of Some d \<Rightarrow> d | None \<Rightarrow> c)"

text \<open>Runs of one character of a set become one character.\<close>

fun squeeze :: "(u8 \<Rightarrow> bool) \<Rightarrow> u8 option \<Rightarrow> bytes \<Rightarrow> bytes" where
  "squeeze Q prev [] = []"
| "squeeze Q prev (c # cs) = (if prev = Some c \<and> Q c then squeeze Q prev cs else c # squeeze Q (Some c) cs)"

definition tr_spec :: "tr_opts \<Rightarrow> bytes \<Rightarrow> bytes option \<Rightarrow> bytes \<Rightarrow> bytes" where
  "tr_spec opts s1 s2 input =
     (let kept = (if opt_delete opts then filter (\<lambda>c. c \<notin> set s1) input else input);
          mapped = (case s2 of None \<Rightarrow> kept | Some s2 \<Rightarrow> map (translate s1 s2) kept)
      in if opt_squeeze_reps opts then squeeze (\<lambda>c. c \<in> set (case s2 of None \<Rightarrow> s1 | Some s2 \<Rightarrow> s2)) None mapped else mapped)"

section \<open>The tables\<close>

lemma length_tr_map [len_simps]: "length (tr_map v s1 s2 d) = length v"
  by (induction v s1 s2 d rule: tr_map.induct) simp_all

lemma unat_eq_byte: "unat (a :: u8) = unat b \<longleftrightarrow> a = b"
  by (simp add: word_unat_eq_iff)

lemma tr_map_fill:
  "length v = 256 \<Longrightarrow> tr_map v s1 [] d ! unat c = (if c \<in> set s1 then d else v ! unat c)"
  using unat_bound [of c] by (induction s1 arbitrary: v) (auto simp: nth_list_update unat_eq_byte)

lemma tr_map_nth:
  assumes "length v = 256"
  shows "tr_map v s1 s2 d ! unat c =
    (case map_of (rev (zip s1 (s2 @ replicate (length s1 - length s2) (if s2 = [] then d else last s2)))) c of
       Some e \<Rightarrow> e | None \<Rightarrow> v ! unat c)"
  using assms
proof (induction v s1 s2 d rule: tr_map.induct)
  case (2 v a s1 d)
  then show ?case using unat_bound [of c]
    by (auto simp: map_of_append map_add_def nth_list_update unat_eq_byte split: option.splits)
next
  case (3 v a s1 e s2 d)
  then show ?case using unat_bound [of c]
    by (cases "s2 = []") (auto simp: map_of_append map_add_def nth_list_update unat_eq_byte split: option.splits)
qed simp

lemma char_range_nth: "i < 256 \<Longrightarrow> char_range 0 (ASCII - 1) ! i = of_nat i" "length (char_range 0 (ASCII - 1)) = 256"
  by (simp_all add: char_range_def ASCII_def del: upt_Suc)

lemma char_range_all: "c \<in> set (char_range 0 (ASCII - 1))"
proof -
  have "unat c < 256" using unat_bound [of c] by simp
  then have "c \<in> of_nat ` {0..<256}" by (intro image_eqI [of _ _ "unat c"]) simp_all
  then show ?thesis by (simp add: char_range_def ASCII_def del: upt_Suc)
qed

lemma tr_map_translate:
  assumes "s2 \<noteq> []"
  shows "tr_map (char_range 0 (ASCII - 1)) s1 s2 48 ! unat c = translate s1 s2 c"
  using assms unat_bound [of c]
  by (simp add: tr_map_nth [OF char_range_nth(2)] char_range_nth(1) translate_def tr_pairs_def del: One_nat_def split: option.split)

lemma mark_chars_nth: "mark_chars s ! unat c \<longleftrightarrow> c \<in> set s"
proof -
  have "length v = 256 \<Longrightarrow> foldl (\<lambda>v c. v[unat c := True]) v s ! unat c \<longleftrightarrow> c \<in> set s \<or> v ! unat c" for v
  proof (induction s arbitrary: v)
    case (Cons a s)
    then show ?case using unat_bound [of c] by (cases "a = c") (auto simp: unat_eq_byte)
  qed simp
  then show ?thesis using unat_bound [of c] by (simp add: mark_chars_def ASCII_def)
qed

lemma complement_set: "c \<in> set (complement s) \<longleftrightarrow> c \<notin> set s"
  using char_range_all by (auto simp: complement_def)

lemma translate_range: "s2 \<noteq> [] \<Longrightarrow> c \<in> set s1 \<Longrightarrow> translate s1 s2 c \<in> set s2"
proof -
  assume s2: "s2 \<noteq> []" and c: "c \<in> set s1"
  have "map fst (tr_pairs s1 s2) = s1" by (simp add: tr_pairs_def map_fst_zip_take)
  then have "c \<in> fst ` set (rev (tr_pairs s1 s2))" using c by (metis set_map set_rev)
  then obtain d where d: "map_of (rev (tr_pairs s1 s2)) c = Some d"
    by (metis map_of_eq_None_iff not_None_eq)
  then have "(c, d) \<in> set (tr_pairs s1 s2)" using map_of_SomeD by fastforce
  then have "d \<in> set s2" using s2 unfolding tr_pairs_def by (auto dest!: set_zip_rightD)
  then show ?thesis by (simp add: translate_def d)
qed

lemma translate_other: "c \<notin> set s1 \<Longrightarrow> translate s1 s2 c = c"
proof -
  assume "c \<notin> set s1"
  moreover have "map fst (tr_pairs s1 s2) = s1" by (simp add: tr_pairs_def map_fst_zip_take)
  ultimately have "map_of (rev (tr_pairs s1 s2)) c = None" by (metis map_of_eq_None_iff set_map set_rev)
  then show ?thesis by (simp add: translate_def)
qed

section \<open>The loop over the input\<close>

text \<open>The state of the loop is \<open>last\<close> alone; 256 is no character.\<close>

definition last_char :: "nat \<Rightarrow> u8 option" where
  "last_char n = (if n < 256 then Some (of_nat n) else None)"

lemma last_char_unat: "last_char (unat c) = Some c"
  using unat_bound [of c] by (simp add: last_char_def)

lemma last_char_eq: "n \<le> 256 \<Longrightarrow> n = unat c \<longleftrightarrow> last_char n = Some c"
  using unat_bound [of c] by (auto simp: last_char_def unat_of_nat)

lemma squeeze_append: "squeeze Q prev (xs @ ys) = squeeze Q prev xs @ squeeze Q (if squeeze Q prev xs = [] then prev else Some (last (squeeze Q prev xs))) ys"
  by (induction Q prev xs rule: squeeze.induct) auto

text \<open>
  The loop over one read and over all reads, for tables that stand for a translation \<open>f\<close> and sets
  such that a character counts for squeezing when its translation is in \<open>Q\<close>.
\<close>

lemma tr_reads_split: "\<exists>ws'. tr_reads opts vector invec outvec n (xs @ ys) = tr_reads opts vector invec outvec n xs @ ws'"
  by (induction xs arbitrary: n) (auto simp: Let_def split: prod.splits)

locale tr_tables =
  fixes opts :: tr_opts and vector :: bytes and invec outvec :: "bool list" and f :: "u8 \<Rightarrow> u8" and I Q :: "u8 \<Rightarrow> bool"
  assumes vec: "\<And>c. vector ! unat c = f c"
    and inv: "\<And>c. invec ! unat c \<longleftrightarrow> I c"
    and set2: "\<And>c. I c \<or> outvec ! unat (f c) \<longleftrightarrow> Q (f c)"
begin

definition mapped :: "bytes \<Rightarrow> bytes" where
  "mapped input = map f (if opt_delete opts then filter (\<lambda>c. \<not> I c) input else input)"

definition result :: "u8 option \<Rightarrow> bytes \<Rightarrow> bytes" where
  "result prev input = (if opt_squeeze_reps opts then squeeze Q prev (mapped input) else mapped input)"

definition after :: "u8 option \<Rightarrow> bytes \<Rightarrow> u8 option" where
  "after prev input = (if result prev input = [] then prev else Some (last (result prev input)))"

lemma result_append: "result prev (xs @ ys) = result prev xs @ (if opt_squeeze_reps opts then result (after prev xs) ys else result prev ys)"
  by (simp add: result_def after_def mapped_def squeeze_append)

lemma result_prev: "\<not> opt_squeeze_reps opts \<Longrightarrow> result p xs = result q xs"
  by (simp add: result_def)

lemma chars:
  "n \<le> 256 \<Longrightarrow> tr_chars opts vector invec outvec n input = (out, n') \<Longrightarrow>
    out = result (last_char n) input \<and> last_char n' = after (last_char n) input \<and> n' \<le> 256"
proof (induction input arbitrary: n out n')
  case Nil
  then show ?case by (simp add: result_def after_def mapped_def)
next
  case (Cons c input)
  consider (gone) "opt_delete opts" "I c" | (run) "\<not> (opt_delete opts \<and> I c)" "opt_squeeze_reps opts" "n = unat (f c)" "Q (f c)"
    | (kept) "\<not> (opt_delete opts \<and> I c)" "\<not> (opt_squeeze_reps opts \<and> n = unat (f c) \<and> Q (f c))" by blast
  then show ?case
  proof cases
    case gone
    have "result (last_char n) (c # input) = result (last_char n) input"
      using gone by (simp add: result_def mapped_def)
    then show ?thesis using Cons gone by (simp add: inv after_def)
  next
    case run
    have "result (last_char n) (c # input) = result (last_char n) input"
      using run by (simp add: result_def mapped_def last_char_unat)
    then show ?thesis using Cons run by (simp add: inv vec set2 after_def)
  next
    case kept
    obtain o' where o': "tr_chars opts vector invec outvec (unat (f c)) input = (o', n')" "out = f c # o'"
      using kept Cons.prems by (auto simp: inv vec set2 Let_def split: prod.splits if_splits)
    have "unat (f c) \<le> 256" using unat_bound [of "f c"] by simp
    from Cons.IH [OF this o'(1)] have ih: "o' = result (Some (f c)) input" "last_char n' = after (Some (f c)) input" "n' \<le> 256"
      by (simp_all add: last_char_unat)
    have "result (last_char n) (c # input) = f c # result (Some (f c)) input"
      using kept Cons.prems(1) by (auto simp: result_def mapped_def last_char_eq)
    then show ?thesis using ih by (auto simp: o'(2) after_def)
  qed
qed

lemma reads: "n \<le> 256 \<Longrightarrow> concat (tr_reads opts vector invec outvec n rs) = result (last_char n) (concat rs)"
proof (induction rs arbitrary: n)
  case Nil
  then show ?case by (simp add: result_def mapped_def)
next
  case (Cons r rs)
  obtain out n' where run: "tr_chars opts vector invec outvec n r = (out, n')" by fastforce
  note c = chars [OF Cons.prems run]
  then have "concat (tr_reads opts vector invec outvec n' rs) = result (after (last_char n) r) (concat rs)"
    using Cons.IH by simp
  then show ?case using c by (simp add: run result_append) (metis result_prev)
qed

end

text \<open>The two uses: with one string, and with two of which the second is not empty.\<close>

interpretation tr_one: tr_tables opts "char_range 0 (ASCII - 1)" "mark_chars s1" "mark_chars []" "\<lambda>c. c" "\<lambda>c. c \<in> set s1" "\<lambda>c. c \<in> set s1"
  for opts s1
proof unfold_locales
  fix c :: u8
  show "char_range 0 (ASCII - 1) ! unat c = c"
    using unat_bound [of c] by (simp add: char_range_nth(1) del: One_nat_def)
qed (simp_all add: mark_chars_nth)

interpretation tr_two: tr_tables opts "tr_map (char_range 0 (ASCII - 1)) s1 (d # s2) 48" "mark_chars s1" "mark_chars (d # s2)"
  "translate s1 (d # s2)" "\<lambda>c. c \<in> set s1" "\<lambda>c. c \<in> set (d # s2)"
  for opts s1 d s2
proof unfold_locales
  fix c
  show "tr_map (char_range 0 (ASCII - 1)) s1 (d # s2) 48 ! unat c = translate s1 (d # s2) c"
    by (rule tr_map_translate) simp
  show "mark_chars s1 ! unat c \<longleftrightarrow> c \<in> set s1" by (rule mark_chars_nth)
  show "c \<in> set s1 \<or> mark_chars (d # s2) ! unat (translate s1 (d # s2) c) \<longleftrightarrow> translate s1 (d # s2) c \<in> set (d # s2)"
    using translate_range [of "d # s2" c s1] by (auto simp only: mark_chars_nth list.distinct(1) simp_thms)
qed

text \<open>The sets of a call: the first string expanded and complemented, and the second expanded.\<close>

definition tr_set1 :: "nat \<Rightarrow> tr_opts \<Rightarrow> bytes \<Rightarrow> bytes option" where
  "tr_set1 BUFSIZ opts arg =
     (case expand BUFSIZ arg of Inr (s, _) \<Rightarrow> Some (if opt_complement opts then complement s else s) | Inl _ \<Rightarrow> None)"

definition tr_set2 :: "nat \<Rightarrow> bytes option \<Rightarrow> bytes option option" where
  "tr_set2 BUFSIZ arg =
     (case arg of None \<Rightarrow> Some None
      | Some arg \<Rightarrow> (case expand BUFSIZ arg of Inr (s, _) \<Rightarrow> if s = [] then None else Some (Some s) | Inl _ \<Rightarrow> None))"

lemma tr_main_run:
  assumes "tr_set1 B opts arg1 = Some s1" "tr_set2 B arg2 = Some s2"
  obtains vector str2 where
    "\<And>reads err. tr_main B opts arg1 arg2 reads err = Inr (tr_reads opts vector (mark_chars s1) (mark_chars str2) 256 reads, err)"
    "\<And>reads. concat (tr_reads opts vector (mark_chars s1) (mark_chars str2) 256 reads) = tr_spec opts s1 s2 (concat reads)"
proof (cases arg2)
  case None
  then have s2: "s2 = None" using assms(2) by (simp add: tr_set2_def)
  have "concat (tr_reads opts (char_range 0 (ASCII - 1)) (mark_chars s1) (mark_chars []) 256 reads) = tr_spec opts s1 s2 (concat reads)" for reads
    using tr_one.reads [of 256 opts s1 reads] by (simp add: s2 last_char_def tr_one.result_def tr_one.mapped_def tr_spec_def)
  moreover have "tr_main B opts arg1 arg2 reads err
      = Inr (tr_reads opts (char_range 0 (ASCII - 1)) (mark_chars s1) (mark_chars []) 256 reads, err)" for reads err
    using assms(1) None by (auto simp: tr_main_def tr_set1_def Let_def split: sum.splits)
  ultimately show thesis using that by blast
next
  case (Some arg)
  then obtain d t n where x: "expand B arg = Inr (d # t, n)" "s2 = Some (d # t)"
    using assms(2) by (auto simp: tr_set2_def neq_Nil_conv split: sum.splits if_splits)
  let ?v = "tr_map (char_range 0 (ASCII - 1)) s1 (d # t) 48"
  have "concat (tr_reads opts ?v (mark_chars s1) (mark_chars (d # t)) 256 reads) = tr_spec opts s1 s2 (concat reads)" for reads
    using tr_two.reads [of 256 opts s1 d t reads]
    by (simp only: x(2) last_char_def tr_two.result_def tr_two.mapped_def tr_spec_def Let_def option.case simp_thms order_refl less_irrefl if_False)
  moreover have "arg \<noteq> []" using x(1) by (auto simp: expand_def)
  then have "tr_main B opts arg1 arg2 reads err = Inr (tr_reads opts ?v (mark_chars s1) (mark_chars (d # t)) 256 reads, err)" for reads err
    using assms(1) Some x(1) by (auto simp: tr_main_def tr_set1_def Let_def split: sum.splits)
  ultimately show thesis using that by blast
qed

text \<open>
  C36. \<^verbatim>\<open>tr\<close> deletes, translates and squeezes as its options say, however the input is cut into reads:
  what it writes is the specification of the whole input.
\<close>

theorem tr_output:
  assumes "tr_set1 B opts arg1 = Some s1" "tr_set2 B arg2 = Some s2"
  shows "\<exists>ws. tr_main B opts arg1 arg2 reads err = Inr (ws, err) \<and> concat ws = tr_spec opts s1 s2 (concat reads)"
  using tr_main_run [OF assms] by metis

lemma tr_output_witness:
  "\<exists>ws. tr_main 8192 \<lparr>opt_complement = False, opt_delete = False, opt_squeeze_reps = True\<rparr> (ascii ''a-c'') (Some (ascii ''x'')) [ascii ''ab'', ascii ''bz''] False = Inr (ws, False)
    \<and> concat ws = ascii ''xz''"
proof -
  let ?o = "\<lparr>opt_complement = False, opt_delete = False, opt_squeeze_reps = True\<rparr>"
  have 1: "tr_set1 8192 ?o (ascii ''a-c'') = Some [97, 98, 99]"
    by (simp add: tr_set1_def expand_def TR_BUFSIZ_def ascii_def expand_one_def expand_range_def char_range_def ASCII_def upt_rec)
  have 2: "tr_set2 8192 (Some (ascii ''x'')) = Some (Some [120])"
    by (simp add: tr_set2_def expand_def TR_BUFSIZ_def ascii_def expand_one_def ASCII_def)
  have 3: "tr_pairs [97, 98, 99] [120] = [(97, 120), (98, 120), (99, 120)]" by (simp add: tr_pairs_def numeral_2_eq_2)
  show ?thesis
    using tr_output [OF 1 2, of "[ascii ''ab'', ascii ''bz'']" False]
    by (simp add: tr_spec_def translate_def 3 ascii_def)
qed

text \<open>
  C37. \<^verbatim>\<open>tr\<close> keeps nothing back: when it reads again, everything the reads so far stand for is written,
  and later reads do not change it.
\<close>

theorem tr_progress:
  assumes "tr_set1 B opts arg1 = Some s1" "tr_set2 B arg2 = Some s2"
  shows "\<exists>ws later. tr_main B opts arg1 arg2 (reads @ others) err = Inr (ws @ later, err)
    \<and> concat ws = tr_spec opts s1 s2 (concat reads)"
proof -
  obtain v t where run: "\<And>reads err. tr_main B opts arg1 arg2 reads err = Inr (tr_reads opts v (mark_chars s1) (mark_chars t) 256 reads, err)"
    "\<And>reads. concat (tr_reads opts v (mark_chars s1) (mark_chars t) 256 reads) = tr_spec opts s1 s2 (concat reads)"
    using tr_main_run [OF assms] by metis
  then show ?thesis using tr_reads_split by metis
qed

section \<open>The expansion of strings\<close>

lemma length_char_range: "hi < 256 \<Longrightarrow> length (char_range lo hi) \<le> 256"
  by (auto simp: char_range_def)

lemma length_class_chars: "length (class_chars j) \<le> ASCII"
proof -
  have "length (filter P (char_range 0 (ASCII - 1))) \<le> 256" for P
    using length_filter_le [of P "char_range 0 (ASCII - 1)"] by (simp add: char_range_nth(2) del: One_nat_def)
  then show ?thesis by (cases j) (simp_all add: class_chars_def ASCII_def char_range_def del: upt_Suc)
qed

lemma expand_one_length: "expand_one c rest = Some (out, rest') \<Longrightarrow> length out \<le> ASCII"
proof -
  have "unat a < 256" for a :: u8 using unat_bound [of a] by simp
  then show "expand_one c rest = Some (out, rest') \<Longrightarrow> length out \<le> ASCII"
    using length_class_chars
    by (auto simp: expand_one_def expand_range_def expand_bracket_def Let_def ASCII_def length_char_range
        split: if_splits option.splits prod.splits)
qed

lemma expand_loop_fits:
  "length buffer \<le> sz \<Longrightarrow> case expand_loop buffer sz arg of Inr (b, sz') \<Rightarrow> length b \<le> sz' | Inl e \<Rightarrow> e = Tr_usage"
proof (induction buffer sz arg rule: expand_loop.induct)
  case (2 buffer sz c arg)
  define sz' where "sz' = (if length buffer + ASCII > sz then sz + ASCII else sz)"
  obtain c' rest where r: "(if c = 92 then bb_process_escape_sequence arg else (c, arg)) = (c', rest)" by fastforce
  have room: "length buffer + ASCII \<le> sz'" using 2(2) by (auto simp: sz'_def)
  show ?case
  proof (cases "expand_one c' rest")
    case None
    then show ?thesis by (simp add: r Let_def)
  next
    case (Some x)
    then obtain out rest' where x: "expand_one c' rest = Some (out, rest')" by (cases x) simp
    have fit: "length buffer + length out \<le> sz'" using expand_one_length [OF x] room by simp
    then have "case expand_loop (buffer @ out) sz' rest' of Inr (b, sz') \<Rightarrow> length b \<le> sz' | Inl e \<Rightarrow> e = Tr_usage"
      using 2(1) [OF sz'_def r [symmetric] refl x refl] by simp
    then show ?thesis using fit by (simp add: r x Let_def sz'_def [symmetric] del: expand_loop.simps(1))
  qed
qed simp

text \<open>
  C38. Expanding a string never writes behind its buffer, whatever the string and whatever
  \<^verbatim>\<open>BUFSIZ\<close>: the only error is the usage message for a broken \<^verbatim>\<open>[=c=]\<close>.
\<close>

theorem expand_safe: "case expand BUFSIZ arg of Inr (buffer, sz) \<Rightarrow> length buffer \<le> sz | Inl e \<Rightarrow> e = Tr_usage"
  unfolding expand_def by (rule expand_loop_fits) simp

text \<open>Every byte can be written as a backslash and three octal digits.\<close>

definition escaped :: "u8 \<Rightarrow> bytes" where
  "escaped c = [92, of_nat (48 + unat c div 64), of_nat (48 + unat c div 8 mod 8), of_nat (48 + unat c mod 8)]"

lemma escape_digit_octal: "k < 8 \<Longrightarrow> escape_digit (of_nat (48 + k)) = of_nat k"
proof -
  assume "k < 8"
  then consider "k = 0" | "k = 1" | "k = 2" | "k = 3" | "k = 4" | "k = 5" | "k = 6" | "k = 7" by linarith
  then show ?thesis by cases (simp_all add: escape_digit_def word_le_nat_alt)
qed

lemma octal_step:
  assumes "k < 8" "m * 8 + k = r" "r < 256"
  shows "escape_digits 8 i (of_nat m) (of_nat (48 + k) # q) =
    (if i + 1 < 3 then escape_digits 8 (i + 1) (of_nat r) q else Digits (i + 1) (of_nat r) q)"
proof -
  have "unat (of_nat r :: u32) = r" using assms(3) by (simp add: unat_of_nat del: of_nat_add)
  then have "\<not> of_nat r > (255 :: u32)" using assms(3) by (simp add: word_less_nat_alt)
  moreover have "of_nat m * 8 + of_nat k = (of_nat r :: u32)" using assms(2) by (metis of_nat_add of_nat_mult of_nat_numeral)
  moreover have "unat (of_nat k :: u32) = k" using assms(1) by (simp add: unat_of_nat del: of_nat_add)
  then have "\<not> of_nat k \<ge> (8 :: u32)" using assms(1) by (simp add: word_le_nat_alt)
  moreover define c where "c = (of_nat (48 + k) :: u8)"
  then have "escape_digit c = of_nat k" using escape_digit_octal [OF assms(1)] by simp
  ultimately show ?thesis unfolding c_def [symmetric] by (subst escape_digits.simps) (simp add: Let_def)
qed

lemma escape_octal: "bb_process_escape_sequence (tl (escaped c) @ rest) = (c, rest)"
proof -
  obtain x y z where x: "x = unat c div 64" and y: "y = unat c div 8 mod 8" and z: "z = unat c mod 8" by blast
  have lt: "unat c < 256" using unat_bound [of c] by simp
  have xyz: "x < 4" "y < 8" "z < 8" using lt by (simp_all add: x y z)
  have "x = unat c div 8 div 8" by (simp add: x div_mult2_eq [symmetric])
  then have xy: "x * 8 + y = unat c div 8" by (simp only: y div_mult_mod_eq)
  have n: "(x * 8 + y) * 8 + z = unat c" by (simp only: xy z div_mult_mod_eq)
  have "unat (of_nat (48 + x) :: u8) = 48 + x" using xyz by (simp add: unat_of_nat del: of_nat_add)
  then have first: "of_nat (48 + x) \<noteq> (120 :: u8)" using xyz by auto
  have run: "escape_digits 8 0 (of_nat 0) (of_nat (48 + x) # of_nat (48 + y) # of_nat (48 + z) # rest) = Digits 3 (of_nat (unat c)) rest"
  proof -
    have "x * 8 + y < 256" unfolding xy using lt by simp
    then have "escape_digits 8 (0 + 1 + 1) (of_nat (x * 8 + y)) (of_nat (48 + z) # rest) = Digits 3 (of_nat (unat c)) rest"
      "escape_digits 8 (0 + 1) (of_nat x) (of_nat (48 + y) # of_nat (48 + z) # rest)
        = escape_digits 8 (0 + 1 + 1) (of_nat (x * 8 + y)) (of_nat (48 + z) # rest)"
      "escape_digits 8 0 (of_nat 0) (of_nat (48 + x) # of_nat (48 + y) # of_nat (48 + z) # rest)
        = escape_digits 8 (0 + 1) (of_nat x) (of_nat (48 + y) # of_nat (48 + z) # rest)"
      using xyz lt by (simp_all only: octal_step [OF xyz(3) n lt] octal_step [OF xyz(2) refl] octal_step [of x 0 x], simp_all)
    then show ?thesis by (simp only:)
  qed
  have e: "tl (escaped c) = [of_nat (48 + x), of_nat (48 + y), of_nat (48 + z)]" by (simp add: escaped_def x y z del: of_nat_add)
  have wide: "ucast (ucast c :: u32) = c" by (rule bit_word_eqI) (simp add: bit_unsigned_iff)
  show ?thesis
    unfolding e bb_process_escape_sequence_def
    using first run wide by (simp del: of_nat_add)
qed

text \<open>C39. Every string of bytes can be given to \<^verbatim>\<open>tr\<close>: escaped byte by byte in octal, it expands to itself.\<close>

theorem expand_escaped: "\<exists>sz. expand BUFSIZ (concat (map escaped bs)) = Inr (bs, sz)"
proof -
  have "\<exists>sz'. length buffer \<le> sz \<longrightarrow> expand_loop buffer sz (concat (map escaped bs)) = Inr (buffer @ bs, sz')" for buffer sz
  proof (induction bs arbitrary: buffer sz)
    case Nil
    then show ?case by simp
  next
    case (Cons c bs)
    define sz' where "sz' = (if length buffer + ASCII > sz then sz + ASCII else sz)"
    let ?rest = "concat (map escaped bs)"
    have rest: "first_char ?rest \<noteq> 45" "first_char ?rest \<noteq> 58" "first_char ?rest \<noteq> 61" by (cases bs; simp add: escaped_def)+
    have one: "expand_one c ?rest = Some ([c], ?rest)"
      using rest by (simp add: expand_one_def expand_bracket_def Let_def)
    have arg: "concat (map escaped (c # bs)) = 92 # (tl (escaped c) @ ?rest)" by (simp add: escaped_def)
    have step: "expand_loop buffer sz (92 # (tl (escaped c) @ ?rest))
      = (if length buffer + 1 > sz' then Inl Overrun else expand_loop (buffer @ [c]) sz' ?rest)"
      by (simp add: escape_octal one Let_def sz'_def)
    have room: "length buffer \<le> sz \<Longrightarrow> length buffer + 1 \<le> sz'" by (auto simp: sz'_def ASCII_def)
    obtain n where "length (buffer @ [c]) \<le> sz' \<longrightarrow> expand_loop (buffer @ [c]) sz' ?rest = Inr ((buffer @ [c]) @ bs, n)"
      using Cons.IH by blast
    then show ?case using room unfolding arg step by (intro exI [of _ n]) auto
  qed
  then show ?thesis unfolding expand_def by (metis append_Nil le0 list.size(3))
qed

lemma tr_progress_witness:
  "\<exists>ws later. tr_main 8192 \<lparr>opt_complement = False, opt_delete = True, opt_squeeze_reps = False\<rparr> (ascii ''a'') None ([ascii ''ab''] @ [ascii ''ca'']) False = Inr (ws @ later, False)
    \<and> concat ws = ascii ''b''"
proof -
  let ?o = "\<lparr>opt_complement = False, opt_delete = True, opt_squeeze_reps = False\<rparr>"
  have 1: "tr_set1 8192 ?o (ascii ''a'') = Some [97]"
    by (simp add: tr_set1_def expand_def TR_BUFSIZ_def ascii_def expand_one_def ASCII_def)
  have 2: "tr_set2 8192 None = Some None" by (simp add: tr_set2_def)
  show ?thesis using tr_progress [OF 1 2, of "[ascii ''ab'']" "[ascii ''ca'']" False] by (simp add: tr_spec_def ascii_def)
qed

text \<open>
  C40. A range whose ends are reversed expands to nothing, and a second string that expands to nothing
  turns every character of the first into the digit zero: \<^verbatim>\<open>tr a z-a\<close> makes \<^verbatim>\<open>b0n0n0\<close> of \<^verbatim>\<open>banana\<close>.
\<close>

theorem tr_reversed_range:
  "tr_main 8192 \<lparr>opt_complement = False, opt_delete = False, opt_squeeze_reps = False\<rparr> (ascii ''a'') (Some (ascii ''z-a'')) [ascii ''banana''] False
    = Inr ([ascii ''b0n0n0''], False)"
proof -
  have 1: "expand 8192 [97] = Inr ([97], 8192)" "expand 8192 [122, 45, 97] = Inr ([], 8192)"
    by (simp_all add: expand_def TR_BUFSIZ_def expand_one_def expand_range_def ASCII_def)
  have v: "tr_map (char_range 0 (ASCII - 1)) [97] [] 48 ! unat c = (if c = 97 then 48 else c)" for c :: u8
    using unat_bound [of c] by (simp add: tr_map_fill [OF char_range_nth(2)] char_range_nth(1) del: One_nat_def tr_map.simps)
  have table: "tr_map (char_range 0 (ASCII - 1)) [97] [] 48 ! 97 = 48" "tr_map (char_range 0 (ASCII - 1)) [97] [] 48 ! 98 = 98"
    "tr_map (char_range 0 (ASCII - 1)) [97] [] 48 ! 110 = 110"
    using v [of 97] v [of 98] v [of 110] by (simp_all del: One_nat_def tr_map.simps)
  show ?thesis
    by (simp add: tr_main_def 1 Let_def ascii_def table del: One_nat_def tr_map.simps)
qed

end
