(* ===== verification/Spec2Isabelle.thy ===== *)
theory Spec2Isabelle
  imports Hash_Stream512 Hash_Sum Aes Aes_Gcm Shell_Grammar Factor_Main Uu_Mail Curve25519_Ladder Tr
begin

text \<open>
  The repository packages BusyBox 1.33.0 for Geckito. This library models parts of BusyBox whose
  results are fixed by a standard or by the meaning of a text: hashes, ciphers, the key exchange of
  TLS, the arithmetic of the shells, the conversion of numbers, the transfer encodings, \<^verbatim>\<open>factor\<close> and
  \<^verbatim>\<open>tr\<close>. All paths are below \<^verbatim>\<open>src/_pool/busybox/busybox-1.33.0\<close>; a definition has the name of
  the C function or macro it translates wherever it has one.

  How C is represented. Machine integers are words of their width, with the wrap-around of C;
  sizes and positions that the code keeps in an \<^verbatim>\<open>unsigned\<close> and that stay small are \<open>nat\<close>; a
  signed number is read from its word by \<open>sint\<close>. A byte array is a list and a pointer into it a
  position (\<open>write_at\<close>, in Prelude, overwrites from a position on); a structure is a record; an
  uninitialised variable is an argument, so that the results hold for every old content. Dying with
  a message is the left side of a sum or a message beside the output; a loop that may not return is
  an option. Input is a list of bytes; where the code reads in pieces, the pieces are an argument
  and the results hold for every cutting. The build is a little endian LP64 machine; compile-time
  choices are arguments or definitions side by side where the properties compare them.

  Prelude: words and bytes in both orders, lists updated at a position, blocks. It declares the
  collection \<open>len_simps\<close>, used by all theories.

  Hashes (\<^verbatim>\<open>libbb/hash_md5_sha.c\<close>). Hash_Md5 has the four bodies of the block function of MD5,
  Hash_Sha the block functions of SHA-1, SHA-256 and SHA-512, Keccak the permutation of SHA-3. The
  references share no round function, table or rotation with them: Fips180 states the standard's functions with the rotations of
  the library and round constants computed as roots of primes, and RFC 1321 has its own table. Absorb
  states the buffering loop all of them share once, in the locale \<open>absorb_loop\<close> (a buffer, a
  way to store bytes, a block function), and what a caller relies on in the locale \<open>stream_hash\<close>
  (updates compose). Hash_Stream, Hash_Stream512 and Hash_Sha3 have the contexts and the functions
  begin, hash and end, interpret the locales and show the digests of RFC 1321, FIPS 180 and
  FIPS 202 for every sequence of calls. Hash_Sum has the applets of \<^verbatim>\<open>coreutils/md5_sha1_sum.c\<close> over
  them: hashing a file, printing, the check mode.

  Ciphers. Aes (\<^verbatim>\<open>networking/tls_aes.c\<close>) relates the state of 16 words to the bytes of FIPS 197; the
  locale \<open>block_cipher\<close> is what the CBC mode needs of a cipher and is interpreted by AES. Aes_Gcm
  (\<^verbatim>\<open>networking/tls_aesgcm.c\<close>) has the five bodies of the shift, the multiplication and GHASH. The
  loop over the bits ends by a marker bit; it is a partial function, and its return is proved.

  Curve25519 (\<^verbatim>\<open>networking/tls_fe.c\<close>). Curve25519 holds the operations on arrays of 32 bytes;
  Curve25519_Field gives an array its number and shows, for each operation, the number modulo
  \<open>2 ^ 255 - 19\<close> and that the array stays small enough for the next; Curve25519_Ladder shows the
  ladder step to be the addition and the doubling of the curve and the loop to be the ladder. The
  subtraction needs numbers below \<open>2 ^ 256 - 38\<close> (\<open>tight\<close>); every array of the loop keeps it.

  Shell arithmetic (\<^verbatim>\<open>shell/math.c\<close>). Shell_Math has the tokens, the two stacks with the space the
  code gets for them, the operators on 64 bits and the evaluator; a value of a variable is evaluated
  in turn, with the depth the code allows. The locale \<open>arith_context\<close> is what the loop needs of this
  inner evaluation; it is interpreted by the evaluator itself at every depth. Shell_Grammar defines the
  expressions with levels, spellings and an integer meaning of the operators of its own and shows that
  the text of one evaluates to it; that assignments store what they return is a consequence.

  Numbers (\<^verbatim>\<open>libbb/bb_strtonum.c\<close>, \<^verbatim>\<open>libbb/xatonum.c\<close> with its template at two types). The functions
  of the C library that read digits are modelled for text without leading blanks or sign, as all
  callers guarantee.

  factor (\<^verbatim>\<open>coreutils/factor.c\<close>, \<^verbatim>\<open>libbb/isqrt.c\<close>). Factor has the packed wheel, the square root and
  trial division, Factor_Correct its invariant (no divisor below the current factor), Factor_Main the
  applet. Trial division is a partial function without fuel: that it returns is part of the property.

  Encodings. Uu_Codec (the encoders of \<^verbatim>\<open>libbb/uuencode.c\<close> and \<^verbatim>\<open>coreutils/uudecode.c\<close>, on memory,
  with source and destination in one buffer), Uu_Decode (the decoders), Uu_Stream (the reader with its
  80 bytes, the lines of \<^verbatim>\<open>libbb/fgets_str.c\<close> and \<^verbatim>\<open>libbb/get_line_from_file.c\<close>, the applets),
  Uu_Roundtrip (the locale \<open>group_codec\<close>: a decoder that gives back the whole groups of every prefix;
  interpreted by base64 and by base32; the applets invert each other) and Uu_Mail (the same for
  \<^verbatim>\<open>uuencode\<close> and \<^verbatim>\<open>uudecode\<close>). The buffers have the sizes of the code: 800 bytes with the source at
  320 for \<^verbatim>\<open>base64\<close>, 61 and 45 for \<^verbatim>\<open>uuencode\<close>.

  tr (\<^verbatim>\<open>coreutils/tr.c\<close>, \<^verbatim>\<open>libbb/process_escape_sequence.c\<close>). Tr has the expansion of the two strings
  with the growing buffer, the tables and the loop over the reads. The locale \<open>tr_tables\<close> is what the
  loop needs of the tables; it is interpreted by those of one string and of two.

  What the code gets wrong is stated as it is: the theorems on \<^verbatim>\<open>1a 1a\<close> (the number stack of the
  shells overflows), \<^verbatim>\<open>1?2?3:4:5\<close>, the strict evaluation of \<^verbatim>\<open>?:\<close>, \<^verbatim>\<open>&&\<close> and \<^verbatim>\<open>||\<close> (in the
  meaning of Shell_Grammar), the least number of a signed type, \<^verbatim>\<open>base64 -w 3\<close>, a reversed range
  of \<^verbatim>\<open>tr\<close>, the width of \<^verbatim>\<open>sha3sum\<close> and the top bit of a point of Curve25519.

  Not modelled. The rest of BusyBox: the shells beyond their arithmetic, the editors and
  interpreters, archivers, network programs, file system and process tools, and the handshake of TLS
  are bound to processes, sockets, terminals, block devices and the C library, or are programs of
  their own size. Opening files, writing (a failing write in particular) and the parsing of options
  by \<^verbatim>\<open>getopt32\<close> are outside the models of the applets, which start from the parsed options. Of the
  modelled files, the bodies for another machine are left out: SHA-3 for 32-bit words, the shells'
  32-bit arithmetic, and the functions of \<^verbatim>\<open>tls_fe.c\<close> under \<^verbatim>\<open>#if 0\<close>. The files of Geckito itself are
  package descriptions and images.
\<close>

end
